(* ===== verification/Slick_Prelude.thy ===== *)
theory Slick_Prelude
  imports Main "HOL-Library.Word"
begin

text \<open>
  Shared ground of the development: the machine types of the C++ code, the way a memory
  access that leaves its object is modelled, spin loops over a schedule of interference,
  little-endian 32-bit integers in a byte buffer, and the arithmetic of \<open>index & mask\<close>
  for a power-of-two size. The lemma collections \<open>ring_arith\<close> (reading \<open>size_t\<close>
  expressions as natural numbers) and \<open>mem_simps\<close> (loads after stores) are filled here
  and used by every component.
\<close>

unbundle bit_operations_syntax

named_theorems ring_arith \<open>size_t expressions read as natural numbers\<close>
named_theorems mem_simps \<open>loads from a buffer after stores\<close>

section \<open>Machine types\<close>

type_synonym byte = "8 word"
type_synonym u32 = "32 word"
type_synonym u64 = "64 word"

section \<open>Results of an operation that may spin or leave its buffer\<close>

text \<open>
  \<open>Done\<close> carries the value of an operation that returns. \<open>Spinning\<close> says that the
  operation is still inside a \<open>while (...) yield();\<close> loop when the interference of the
  other threads given to it is used up. \<open>Out_of_bounds\<close> is a load or store outside the
  object, which is undefined behaviour in C++. \<open>Assert_failed\<close> is the abort of a failed
  \<open>assert\<close> in a build without \<open>NDEBUG\<close>.
\<close>

datatype 'a result = Done 'a | Spinning | Out_of_bounds | Assert_failed

fun result_bind :: "'a result \<Rightarrow> ('a \<Rightarrow> 'b result) \<Rightarrow> 'b result" where
  "result_bind (Done x) f = f x"
| "result_bind Spinning f = Spinning"
| "result_bind Out_of_bounds f = Out_of_bounds"
| "result_bind Assert_failed f = Assert_failed"

text \<open>\<open>assert(c)\<close>: a no-op when the code is compiled with \<open>NDEBUG\<close>.\<close>

definition check_assert :: "bool \<Rightarrow> bool \<Rightarrow> 'a result \<Rightarrow> 'a result" where
  "check_assert ndebug c m = (if c \<or> ndebug then m else Assert_failed)"

lemma check_assert_holds [simp]: "c \<Longrightarrow> check_assert ndebug c m = m"
  by (simp add: check_assert_def)

lemma check_assert_ndebug [simp]: "check_assert True c m = m"
  by (simp add: check_assert_def)

lemma result_bind_assoc:
  "result_bind (result_bind m f) g = result_bind m (\<lambda>x. result_bind (f x) g)"
  by (cases m) simp_all

lemma result_bind_cong:
  "m = m' \<Longrightarrow> (\<And>x. m' = Done x \<Longrightarrow> f x = g x) \<Longrightarrow> result_bind m f = result_bind m' g"
  by (cases m') simp_all

lemma result_bind_eq_Done:
  "result_bind m f = Done y \<longleftrightarrow> (\<exists>x. m = Done x \<and> f x = Done y)"
  by (cases m) simp_all

text \<open>
  A spin loop re-reads shared state after every \<open>yield\<close>. The schedule lists what the
  other threads do to that state between two reads; the loop is left at the first state
  where its condition fails, and the rest of the schedule is what happens afterwards.
\<close>

type_synonym 's schedule = "('s \<Rightarrow> 's) list"

fun spin_while :: "('s \<Rightarrow> bool) \<Rightarrow> 's schedule \<Rightarrow> 's \<Rightarrow> ('s \<times> 's schedule) result" where
  "spin_while c [] s = (if c s then Spinning else Done (s, []))"
| "spin_while c (e # es) s = (if c s then spin_while c es (e s) else Done (s, e # es))"

lemma spin_while_exit: "\<not> c s \<Longrightarrow> spin_while c es s = Done (s, es)"
  by (cases es) simp_all

lemma spin_while_stop: "spin_while c es s = Done (t, rest) \<Longrightarrow> \<not> c t"
  by (induction es arbitrary: s) (auto split: if_splits)

lemma spin_while_never_oob: "spin_while c es s \<noteq> Out_of_bounds"
  by (induction es arbitrary: s) auto

text \<open>An invariant of the interference under which the condition holds keeps the loop spinning.\<close>

lemma spin_while_forever:
  assumes "P s" and "\<And>t. P t \<Longrightarrow> c t" and "\<And>e t. e \<in> set es \<Longrightarrow> P t \<Longrightarrow> P (e t)"
  shows "spin_while c es s = Spinning"
  using assms by (induction es arbitrary: s) auto

section \<open>Powers of two and masks\<close>

text \<open>The condition asserted by every constructor: \<open>size && !(size & (size - 1))\<close>.\<close>

definition is_pow2 :: "u64 \<Rightarrow> bool" where
  "is_pow2 n \<longleftrightarrow> n \<noteq> 0 \<and> n AND (n - 1) = 0"

lemma and_nat_half: "(n AND k) div 2 = (n div 2) AND (k div 2)" for n k :: nat
  by (simp add: and_nat_rec[of n k])

lemma nat_pow2_ex:
  "0 < n \<Longrightarrow> n AND (n - 1) = 0 \<Longrightarrow> \<exists>k. n = 2 ^ k" for n :: nat
proof (induction n rule: less_induct)
  case (less n)
  have half: "(n div 2) AND ((n - 1) div 2) = 0"
    using less.prems(2) by (simp flip: and_nat_half)
  show ?case
  proof (cases "even n")
    case True
    then obtain m where m: "n = 2 * m" by blast
    with less.prems have "0 < m" by simp
    have "n div 2 = m" "(n - 1) div 2 = m - 1" using m \<open>0 < m\<close> by auto
    with half less.IH[of m] m \<open>0 < m\<close> obtain k where "m = 2 ^ k" by auto
    with m have "n = 2 ^ Suc k" by simp
    then show ?thesis by blast
  next
    case False
    then obtain m where m: "n = 2 * m + 1" using oddE by blast
    with half have "m = 0" by simp
    with m have "n = 2 ^ 0" by simp
    then show ?thesis by blast
  qed
qed

lemma is_pow2_unat:
  assumes "is_pow2 n"
  shows "\<exists>k < 64. unat n = 2 ^ k"
proof -
  from assms have n: "n \<noteq> 0" "n AND (n - 1) = 0" by (auto simp: is_pow2_def)
  have "unat n AND (unat n - 1) = unat (n AND (n - 1))"
    using n(1) by (simp add: unsigned_and_eq unat_minus_one)
  with n have "unat n AND (unat n - 1) = 0" by simp
  moreover have "0 < unat n" using n(1) by (simp add: unat_gt_0)
  ultimately obtain k where k: "unat n = 2 ^ k" using nat_pow2_ex by blast
  have "(2::nat) ^ k < 2 ^ 64" using unsigned_less[of n, where 'a = nat] k by simp
  then have "k < 64" using power_less_imp_less_exp[of "2::nat" k 64] by simp
  with k show ?thesis by blast
qed

lemma is_pow2_pos: "is_pow2 n \<Longrightarrow> 0 < unat n"
  by (simp add: is_pow2_def unat_gt_0)

lemma unat_mask [ring_arith]:
  assumes "is_pow2 n"
  shows "unat (x AND (n - 1)) = unat x mod unat n"
proof -
  from is_pow2_unat[OF assms] obtain k where k: "unat n = 2 ^ k" by blast
  have "unat (n - 1) = unat n - 1" using assms by (simp add: is_pow2_def unat_minus_one)
  also have "\<dots> = mask k" by (simp add: k mask_eq_exp_minus_1)
  finally have "unat (n - 1) = mask k" .
  then have "unat (x AND (n - 1)) = take_bit k (unat x)"
    by (simp add: unsigned_and_eq take_bit_eq_mask)
  then show ?thesis by (simp add: k take_bit_eq_mod)
qed

lemma mask_eq_iff:
  assumes "is_pow2 n"
  shows "x AND (n - 1) = y AND (n - 1) \<longleftrightarrow> unat x mod unat n = unat y mod unat n"
  by (simp add: word_unat_eq_iff unat_mask[OF assms])

lemma unat_add_bounded: "unat x + unat y < 2 ^ 64 \<Longrightarrow> unat (x + y) = unat x + unat y"
  for x y :: u64
  by (simp add: unat_word_ariths)

lemma unat_sub_bounded: "unat y \<le> unat x \<Longrightarrow> unat (x - y) = unat x - unat y"
  for x y :: u64
  by (simp add: unat_sub word_le_nat_alt)

lemma unat_ucast_u32 [simp]: "unat (ucast (x :: u32) :: u64) = unat x"
proof -
  have "unat x < 2 ^ 32" using unsigned_less[of x, where 'a = nat] by simp
  then have "unat x < 2 ^ 64" by (rule less_trans) simp
  then show ?thesis by (simp add: unsigned_ucast_eq take_bit_nat_eq_self)
qed

lemma mod_eq_close:
  fixes a b N :: nat
  assumes "a mod N = b mod N" "a \<le> b" "b - a < N"
  shows "a = b"
proof -
  have "N dvd b - a" using assms(1,2) by (metis mod_eq_dvd_iff_nat)
  with assms(3) have "b - a = 0" using nat_dvd_not_less by blast
  with assms(2) show ?thesis by simp
qed

lemma mod_add_pad:
  "(p::nat) mod N + n = N \<Longrightarrow> (p + n) mod N = 0"
  by (metis mod_add_left_eq mod_self)

lemma mod_add_within: "(p::nat) mod N + n < N \<Longrightarrow> (p + n) mod N = p mod N + n"
  by (metis mod_add_left_eq mod_less)

section \<open>Stores and loads of byte runs\<close>

text \<open>
  \<open>put\<close> is \<open>memcpy\<close> (or a store through a reinterpreted pointer) of the bytes \<open>bs\<close> at
  offset \<open>i\<close>; \<open>get\<close> reads \<open>n\<close> bytes at offset \<open>i\<close>. Both fail outside the buffer.
\<close>

definition put :: "byte list \<Rightarrow> nat \<Rightarrow> byte list \<Rightarrow> byte list result" where
  "put buf i bs = (if i + length bs \<le> length buf
     then Done (take i buf @ bs @ drop (i + length bs) buf) else Out_of_bounds)"

definition get :: "byte list \<Rightarrow> nat \<Rightarrow> nat \<Rightarrow> byte list result" where
  "get buf i n = (if i + n \<le> length buf then Done (take n (drop i buf)) else Out_of_bounds)"

definition blit :: "byte list \<Rightarrow> nat \<Rightarrow> byte list \<Rightarrow> byte list" where
  "blit buf i bs = take i buf @ bs @ drop (i + length bs) buf"

definition chunk :: "byte list \<Rightarrow> nat \<Rightarrow> nat \<Rightarrow> byte list" where
  "chunk buf i n = take n (drop i buf)"

lemma put_Done: "i + length bs \<le> length buf \<Longrightarrow> put buf i bs = Done (blit buf i bs)"
  by (simp add: put_def blit_def)

lemma get_Done: "i + n \<le> length buf \<Longrightarrow> get buf i n = Done (chunk buf i n)"
  by (simp add: get_def chunk_def)

lemma length_blit [simp]: "i + length bs \<le> length buf \<Longrightarrow> length (blit buf i bs) = length buf"
  by (simp add: blit_def)

lemma length_chunk [simp]: "i + n \<le> length buf \<Longrightarrow> length (chunk buf i n) = n"
  by (simp add: chunk_def)

lemma chunk_0 [simp]: "chunk buf i 0 = []"
  by (simp add: chunk_def)

lemma chunk_blit_same [mem_simps]:
  "i + length bs \<le> length buf \<Longrightarrow> chunk (blit buf i bs) i (length bs) = bs"
  by (simp add: chunk_def blit_def)

lemma nth_blit:
  "i + length bs \<le> length buf \<Longrightarrow> j < length buf \<Longrightarrow>
   blit buf i bs ! j = (if i \<le> j \<and> j < i + length bs then bs ! (j - i) else buf ! j)"
  by (auto simp: blit_def nth_append min_def)

lemma chunk_eq_nth:
  "i + n \<le> length buf \<Longrightarrow> chunk buf i n = map (\<lambda>j. buf ! (i + j)) [0..<n]"
  by (rule nth_equalityI) (auto simp: chunk_def)

lemma chunk_blit_other [mem_simps]:
  assumes "i + length bs \<le> length buf" "j + n \<le> length buf" "j + n \<le> i \<or> i + length bs \<le> j"
  shows "chunk (blit buf i bs) j n = chunk buf j n"
  using assms by (auto simp: chunk_eq_nth nth_blit)

lemma chunk_add: "i + (m + n) \<le> length buf \<Longrightarrow>
    chunk buf i (m + n) = chunk buf i m @ chunk buf (i + m) n"
  by (simp add: chunk_def take_add add.commute)

section \<open>32-bit little-endian integers in the buffer\<close>

text \<open>
  \<open>*reinterpret_cast<uint32_t*>(p)\<close> on the little-endian targets the library is built for.
\<close>

definition bytes_of_u32 :: "u32 \<Rightarrow> byte list" where
  "bytes_of_u32 w = map (\<lambda>i. ucast (drop_bit (8 * i) w)) [0..<4]"

definition u32_of_bytes :: "byte list \<Rightarrow> u32" where
  "u32_of_bytes bs = foldr (\<lambda>b w. ucast b OR push_bit 8 w) bs 0"

lemma length_bytes_of_u32 [simp]: "length (bytes_of_u32 w) = 4"
  by (simp add: bytes_of_u32_def)

lemma u32_bytes_roundtrip [simp]: "u32_of_bytes (bytes_of_u32 w) = w"
proof (rule bit_eqI)
  fix n
  assume "possible_bit TYPE(u32) n"
  consider "n < 8" | "8 \<le> n" "n < 16" | "16 \<le> n" "n < 24" | "24 \<le> n" by linarith
  then show "bit (u32_of_bytes (bytes_of_u32 w)) n = bit w n"
    by cases (auto simp: u32_of_bytes_def bytes_of_u32_def bit_simps upt_rec
        dest: bit_imp_le_length)
qed

end
