(* ===== verification/Ring_Buffer.thy ===== *)
theory Ring_Buffer
  imports Slick_Prelude
begin

text \<open>
  \<open>ring_buffer<T>\<close> and its \<open>slot\<close> of src/ring_buffer.h, the queue through which client
  threads hand request objects to the service thread. The first part translates the class;
  the second states the interface \<open>element_queue\<close> the service relies on and shows that the
  ring with the reader's cursor provides it; the third is the concurrent system of many
  producers and one consumer, whose atomic steps are the atomic operations of the code.
\<close>

section \<open>State and operations\<close>

record 'a ring_buffer =
  rb_buffer :: "'a list"
  rb_size :: u64
  rb_mask :: u64
  rb_cursor :: u64
  rb_reserved :: u64

text \<open>A slot; its pointer to the ring is the ring its operations are applied to.\<close>

record slot =
  sl_start :: u64
  sl_size :: u64
  sl_discard :: bool

definition rb_new :: "'a list \<Rightarrow> u64 \<Rightarrow> 'a ring_buffer" where
  "rb_new mem sz = \<lparr>rb_buffer = mem, rb_size = sz, rb_mask = sz - 1, rb_cursor = 0, rb_reserved = 0\<rparr>"

definition rb_length :: "'a ring_buffer \<Rightarrow> u64" where
  "rb_length r = (let cursor = rb_cursor r in if cursor \<le> rb_size r then cursor else rb_size r)"

definition rb_capacity :: "'a ring_buffer \<Rightarrow> u64" where
  "rb_capacity r = rb_size r"

definition rb_empty :: "'a ring_buffer \<Rightarrow> bool" where
  "rb_empty r \<longleftrightarrow> rb_cursor r = 0"

definition rb_available :: "'a ring_buffer \<Rightarrow> u64" where
  "rb_available r = rb_cursor r"

text \<open>\<open>operator[]\<close>, as an rvalue and as the target of an assignment.\<close>

definition rb_get :: "'a ring_buffer \<Rightarrow> u64 \<Rightarrow> 'a result" where
  "rb_get r index = (let i = unat (index AND rb_mask r) in
     if i < length (rb_buffer r) then Done (rb_buffer r ! i) else Out_of_bounds)"

definition rb_set :: "u64 \<Rightarrow> 'a \<Rightarrow> 'a ring_buffer \<Rightarrow> 'a ring_buffer result" where
  "rb_set index x r = (let i = unat (index AND rb_mask r) in
     if i < length (rb_buffer r) then Done (r\<lparr>rb_buffer := (rb_buffer r)[i := x]\<rparr>)
     else Out_of_bounds)"

definition rb_reserve :: "u64 \<Rightarrow> 'a ring_buffer \<Rightarrow> slot \<times> 'a ring_buffer" where
  "rb_reserve num r =
     (\<lparr>sl_start = rb_reserved r, sl_size = num, sl_discard = False\<rparr>,
      r\<lparr>rb_reserved := rb_reserved r + num\<rparr>)"

definition rb_publish ::
  "u64 \<Rightarrow> u64 \<Rightarrow> 'a ring_buffer schedule \<Rightarrow> 'a ring_buffer \<Rightarrow>
   ('a ring_buffer \<times> 'a ring_buffer schedule) result"
where
  "rb_publish index num sched r =
     result_bind (spin_while (\<lambda>t. rb_cursor t \<noteq> index) sched r)
       (\<lambda>(r, sched). Done (r\<lparr>rb_cursor := rb_cursor r + num\<rparr>, sched))"

definition slot_set :: "slot \<Rightarrow> u64 \<Rightarrow> 'a \<Rightarrow> 'a ring_buffer \<Rightarrow> 'a ring_buffer result" where
  "slot_set sl index x r = rb_set (sl_start sl + index) x r"

definition slot_get :: "slot \<Rightarrow> u64 \<Rightarrow> 'a ring_buffer \<Rightarrow> 'a result" where
  "slot_get sl index r = rb_get r (sl_start sl + index)"

text \<open>\<open>publish(num)\<close> publishes the front of the slot and shrinks it; \<open>publish()\<close> all of it.\<close>

definition slot_publish_front ::
  "u64 \<Rightarrow> slot \<Rightarrow> 'a ring_buffer schedule \<Rightarrow> 'a ring_buffer \<Rightarrow>
   (slot \<times> 'a ring_buffer \<times> 'a ring_buffer schedule) result"
where
  "slot_publish_front num sl sched r =
     (if sl_size sl \<le> 0 then Done (sl, r, sched)
      else result_bind (rb_publish (sl_start sl) num sched r)
        (\<lambda>(r, sched). Done (sl\<lparr>sl_start := sl_start sl + num, sl_size := sl_size sl - num\<rparr>, r, sched)))"

definition slot_publish ::
  "slot \<Rightarrow> 'a ring_buffer schedule \<Rightarrow> 'a ring_buffer \<Rightarrow>
   ('a ring_buffer \<times> 'a ring_buffer schedule) result"
where
  "slot_publish sl sched r = rb_publish (sl_start sl) (sl_size sl) sched r"

definition slot_invalidate :: "slot \<Rightarrow> slot" where
  "slot_invalidate sl = sl\<lparr>sl_discard := True\<rparr>"

definition slot_valid :: "slot \<Rightarrow> bool" where
  "slot_valid sl \<longleftrightarrow> \<not> sl_discard sl"

text \<open>
  What \<open>socket_service::request\<close> does with the queue, without interference of another
  thread, and what the service thread does with it; \<open>cursor\<close> is the service's \<open>cursor_\<close>.
\<close>

definition rb_push :: "'a \<Rightarrow> 'a ring_buffer \<Rightarrow> 'a ring_buffer result" where
  "rb_push x r = (let (sl, r) = rb_reserve 1 r in
     result_bind (slot_set sl 0 x r)
       (\<lambda>r. result_bind (slot_publish sl [] r) (\<lambda>(r, _). Done r)))"

definition rb_pop :: "'a ring_buffer \<Rightarrow> u64 \<Rightarrow> ('a option \<times> u64) result" where
  "rb_pop r cursor = (let sn = rb_available r in
     if cursor \<noteq> sn then result_bind (rb_get r cursor) (\<lambda>x. Done (Some x, cursor + 1))
     else Done (None, cursor))"

section \<open>The interface of the service\<close>

text \<open>A queue of elements: pushed by clients, popped by the service.\<close>

locale element_queue =
  fixes q_inv :: "'q \<Rightarrow> 'a list \<Rightarrow> bool"
    and q_room :: "'q \<Rightarrow> bool"
    and push :: "'a \<Rightarrow> 'q \<Rightarrow> 'q result"
    and pop :: "'q \<Rightarrow> ('a option \<times> 'q) result"
  assumes push_law: "q_inv q xs \<Longrightarrow> q_room q \<Longrightarrow> \<exists>p. push x q = Done p \<and> q_inv p (xs @ [x])"
    and pop_empty_law: "q_inv q [] \<Longrightarrow> pop q = Done (None, q)"
    and pop_law: "q_inv q (x # xs) \<Longrightarrow> \<exists>p. pop q = Done (Some x, p) \<and> q_inv p xs"
begin

lemma pop_cases:
  assumes "q_inv q xs"
  obtains (empty) "xs = []" "pop q = Done (None, q)"
    | (front) x ys p where "xs = x # ys" "pop q = Done (Some x, p)" "q_inv p ys"
  using assms pop_empty_law pop_law by (cases xs) blast+

lemma push_then_pop:
  assumes "q_inv q xs" "q_room q"
  shows "\<exists>p y r. push x q = Done p \<and> pop p = Done (Some y, r)
    \<and> y = hd (xs @ [x]) \<and> q_inv r (tl (xs @ [x]))"
proof -
  obtain p where p: "push x q = Done p" "q_inv p (xs @ [x])" using push_law[OF assms] by blast
  moreover obtain y ys where "xs @ [x] = y # ys" by (cases "xs @ [x]") auto
  ultimately show ?thesis using pop_law[of p y ys] by auto
qed

end

text \<open>The unread elements of a ring, seen from the reader's cursor.\<close>

definition rb_wf :: "'a ring_buffer \<Rightarrow> bool" where
  "rb_wf r \<longleftrightarrow> is_pow2 (rb_size r) \<and> rb_mask r = rb_size r - 1
     \<and> length (rb_buffer r) = unat (rb_size r)"

definition rb_unread :: "'a ring_buffer \<Rightarrow> u64 \<Rightarrow> 'a list" where
  "rb_unread r cursor =
     map (\<lambda>i. rb_buffer r ! (i mod unat (rb_size r))) [unat cursor..<unat (rb_cursor r)]"

definition rb_inv :: "'a ring_buffer \<times> u64 \<Rightarrow> 'a list \<Rightarrow> bool" where
  "rb_inv q xs \<longleftrightarrow> (case q of (r, cursor) \<Rightarrow> rb_wf r \<and> rb_reserved r = rb_cursor r
     \<and> unat cursor \<le> unat (rb_cursor r)
     \<and> unat (rb_cursor r) - unat cursor \<le> unat (rb_size r) \<and> rb_unread r cursor = xs)"

definition rb_room :: "'a ring_buffer \<times> u64 \<Rightarrow> bool" where
  "rb_room q \<longleftrightarrow> (case q of (r, cursor) \<Rightarrow>
     unat (rb_reserved r) - unat cursor < unat (rb_size r) \<and> unat (rb_reserved r) + 1 < 2 ^ 64)"

definition queue_push :: "'a \<Rightarrow> 'a ring_buffer \<times> u64 \<Rightarrow> ('a ring_buffer \<times> u64) result" where
  "queue_push x q = result_bind (rb_push x (fst q)) (\<lambda>r. Done (r, snd q))"

definition queue_pop :: "'a ring_buffer \<times> u64 \<Rightarrow> ('a option \<times> 'a ring_buffer \<times> u64) result" where
  "queue_pop q = result_bind (rb_pop (fst q) (snd q)) (\<lambda>(x, c). Done (x, fst q, c))"

lemma rb_index: "rb_wf r \<Longrightarrow> unat (i AND rb_mask r) = unat i mod unat (rb_size r)"
  by (simp add: rb_wf_def unat_mask)

lemma rb_pos: "rb_wf r \<Longrightarrow> 0 < unat (rb_size r)"
  by (simp add: rb_wf_def is_pow2_pos)

lemma rb_length_buffer [simp]: "rb_wf r \<Longrightarrow> length (rb_buffer r) = unat (rb_size r)"
  by (simp add: rb_wf_def)

lemma rb_get_Done:
  "rb_wf r \<Longrightarrow> rb_get r i = Done (rb_buffer r ! (unat i mod unat (rb_size r)))"
  by (simp add: rb_get_def rb_index rb_pos)

lemma rb_set_Done:
  "rb_wf r \<Longrightarrow> rb_set i x r = Done (r\<lparr>rb_buffer := (rb_buffer r)[unat i mod unat (rb_size r) := x]\<rparr>)"
  by (simp add: rb_set_def rb_index rb_pos)

lemma rb_wf_frame [simp]:
  "rb_wf (r\<lparr>rb_cursor := c\<rparr>) = rb_wf r"
  "rb_wf (r\<lparr>rb_reserved := c\<rparr>) = rb_wf r"
  "length b = length (rb_buffer r) \<Longrightarrow> rb_wf (r\<lparr>rb_buffer := b\<rparr>) = rb_wf r"
  by (simp_all add: rb_wf_def)

lemma rb_new_inv:
  "is_pow2 sz \<Longrightarrow> length mem = unat sz \<Longrightarrow> rb_inv (rb_new mem sz, 0) []"
  by (simp add: rb_inv_def rb_wf_def rb_new_def rb_unread_def)

text \<open>Two positions less than one lap apart use different cells.\<close>

lemma cells_differ:
  fixes i j N :: nat
  assumes "i < j" "j - i < N"
  shows "i mod N \<noteq> j mod N"
  using mod_eq_close[of i N j] assms by auto

lemma rb_push_law:
  assumes inv: "rb_inv (r, c) xs" and room: "rb_room (r, c)"
  shows "\<exists>r'. rb_push x r = Done r' \<and> rb_inv (r', c) (xs @ [x])"
proof -
  let ?N = "unat (rb_size r)" and ?w = "unat (rb_cursor r)"
  from inv have wf: "rb_wf r" and eq: "rb_reserved r = rb_cursor r" and le: "unat c \<le> ?w"
    and xs: "rb_unread r c = xs" by (auto simp: rb_inv_def)
  from room eq have sp: "?w - unat c < ?N" "?w + 1 < 2 ^ 64" by (auto simp: rb_room_def)
  define r' where "r' = r\<lparr>rb_reserved := rb_cursor r + 1, rb_cursor := rb_cursor r + 1,
     rb_buffer := (rb_buffer r)[?w mod ?N := x]\<rparr>"
  have "rb_push x r = Done r'"
    using wf eq by (simp add: rb_push_def rb_reserve_def slot_set_def rb_set_Done slot_publish_def
        rb_publish_def spin_while_exit r'_def)
  moreover have u: "unat (rb_cursor r + 1) = ?w + 1" using sp by (simp add: unat_add_bounded)
  have "rb_unread r' c = xs @ [x]"
  proof -
    have "[unat c..<?w + 1] = [unat c..<?w] @ [?w]" using le by simp
    moreover have "(rb_buffer r)[?w mod ?N := x] ! (i mod ?N) = rb_buffer r ! (i mod ?N)"
      if "unat c \<le> i" "i < ?w" for i
    proof -
      have "?w - i < ?N" using that sp by linarith
      then show ?thesis using cells_differ[of i ?w ?N] that by simp
    qed
    moreover have "(rb_buffer r)[?w mod ?N := x] ! (?w mod ?N) = x"
      using wf rb_pos[OF wf] by simp
    ultimately show ?thesis using xs u by (auto simp: rb_unread_def r'_def)
  qed
  then have "rb_inv (r', c) (xs @ [x])"
    using wf le u sp by (auto simp: rb_inv_def r'_def)
  ultimately show ?thesis by blast
qed

lemma rb_pop_law:
  assumes inv: "rb_inv (r, c) (x # xs)"
  shows "rb_pop r c = Done (Some x, c + 1) \<and> rb_inv (r, c + 1) xs"
proof -
  let ?N = "unat (rb_size r)" and ?w = "unat (rb_cursor r)"
  from inv have wf: "rb_wf r" and xs: "rb_unread r c = x # xs" and le: "unat c \<le> ?w"
    by (auto simp: rb_inv_def)
  then have lt: "unat c < ?w" by (cases "unat c = ?w") (auto simp: rb_unread_def)
  then have u: "unat (c + 1) = unat c + 1"
    using unsigned_less[of "rb_cursor r", where 'a = nat] by (simp add: unat_add_bounded)
  have "[unat c..<?w] = unat c # [unat c + 1..<?w]" using lt by (simp add: upt_conv_Cons)
  then have "rb_buffer r ! (unat c mod ?N) = x" "rb_unread r (c + 1) = xs"
    using xs u by (auto simp: rb_unread_def)
  moreover have "c \<noteq> rb_cursor r" using lt by auto
  ultimately show ?thesis
    using wf inv lt u by (auto simp: rb_pop_def rb_available_def rb_get_Done rb_inv_def)
qed

interpretation request_queue: element_queue rb_inv rb_room queue_push queue_pop
proof (unfold_locales, goal_cases)
  case (1 q xs x)
  then show ?case using rb_push_law[of "fst q" "snd q" xs x]
    by (auto simp: queue_push_def)
next
  case (2 q)
  then show ?case
    by (cases q) (auto simp: queue_pop_def rb_pop_def rb_available_def rb_inv_def rb_unread_def
        word_unat_eq_iff)
next
  case (3 q x xs)
  then show ?case using rb_pop_law[of "fst q" "snd q" x xs]
    by (auto simp: queue_pop_def)
qed

end
