(* ===== verification/Mpsc.thy ===== *)
theory Mpsc
  imports Ring_Buffer
begin

text \<open>
  The request queue under concurrency: any number of client threads execute
  \<open>reserve(); slot[0] = req; publish();\<close> while the service thread pops. A step is one
  atomic operation of one thread. \<open>publish\<close> is enabled when \<open>cursor_\<close> has reached the
  start of the slot, which is when its spin loop is left. The ghost field \<open>q_log\<close> lists
  the elements in the order in which their space was reserved.
\<close>

datatype 'a producer = Idle | Holding slot 'a | Stored slot

record 'a mpsc =
  q_ring :: "'a ring_buffer"
  q_prod :: "nat \<Rightarrow> 'a producer"
  q_next :: u64
  q_taken :: "'a list"
  q_log :: "'a list"

inductive mpsc_step :: "'a mpsc \<Rightarrow> 'a mpsc \<Rightarrow> bool" where
  reserve: "q_prod s p = Idle \<Longrightarrow> rb_reserve 1 (q_ring s) = (sl, r) \<Longrightarrow>
    mpsc_step s (s\<lparr>q_ring := r, q_prod := (q_prod s)(p := Holding sl x), q_log := q_log s @ [x]\<rparr>)"
| store: "q_prod s p = Holding sl x \<Longrightarrow> slot_set sl 0 x (q_ring s) = Done r \<Longrightarrow>
    mpsc_step s (s\<lparr>q_ring := r, q_prod := (q_prod s)(p := Stored sl)\<rparr>)"
| publish: "q_prod s p = Stored sl \<Longrightarrow> slot_publish sl [] (q_ring s) = Done (r, []) \<Longrightarrow>
    mpsc_step s (s\<lparr>q_ring := r, q_prod := (q_prod s)(p := Idle)\<rparr>)"
| pop: "rb_pop (q_ring s) (q_next s) = Done (Some x, c) \<Longrightarrow>
    mpsc_step s (s\<lparr>q_next := c, q_taken := q_taken s @ [x]\<rparr>)"

inductive_cases mpsc_stepE: "mpsc_step s t"

definition mpsc_init :: "'a list \<Rightarrow> u64 \<Rightarrow> 'a mpsc" where
  "mpsc_init mem sz = \<lparr>q_ring = rb_new mem sz, q_prod = (\<lambda>_. Idle), q_next = 0,
     q_taken = [], q_log = []\<rparr>"

text \<open>
  The ring has no check against overrun. \<open>within\<close> says that no more elements are reserved
  and not yet popped than the ring has cells; the reachable states below are those of
  executions that stay within the capacity.
\<close>

definition within :: "'a mpsc \<Rightarrow> bool" where
  "within s \<longleftrightarrow> length (q_log s) - length (q_taken s) \<le> unat (rb_size (q_ring s))
     \<and> length (q_log s) < 2 ^ 64"

inductive mpsc_reach :: "'a mpsc \<Rightarrow> 'a mpsc \<Rightarrow> bool" for i :: "'a mpsc" where
  start: "mpsc_reach i i"
| step: "mpsc_reach i s \<Longrightarrow> mpsc_step s t \<Longrightarrow> within t \<Longrightarrow> mpsc_reach i t"

section \<open>The invariant\<close>

text \<open>The position a producer has reserved, and the element it is to store there.\<close>

fun prod_pos :: "'a producer \<Rightarrow> nat option" where
  "prod_pos Idle = None"
| "prod_pos (Holding sl x) = Some (unat (sl_start sl))"
| "prod_pos (Stored sl) = Some (unat (sl_start sl))"

fun prod_slot_ok :: "'a producer \<Rightarrow> bool" where
  "prod_slot_ok Idle \<longleftrightarrow> True"
| "prod_slot_ok (Holding sl x) \<longleftrightarrow> sl_size sl = 1"
| "prod_slot_ok (Stored sl) \<longleftrightarrow> sl_size sl = 1"

definition cell :: "'a mpsc \<Rightarrow> nat \<Rightarrow> 'a" where
  "cell s i = rb_buffer (q_ring s) ! (i mod unat (rb_size (q_ring s)))"

definition cursors_ok :: "'a mpsc \<Rightarrow> bool" where
  "cursors_ok s \<longleftrightarrow> rb_wf (q_ring s) \<and> within s
     \<and> unat (q_next s) = length (q_taken s)
     \<and> unat (rb_reserved (q_ring s)) = length (q_log s)
     \<and> length (q_taken s) \<le> unat (rb_cursor (q_ring s))
     \<and> unat (rb_cursor (q_ring s)) \<le> length (q_log s)"

definition producers_ok :: "'a mpsc \<Rightarrow> bool" where
  "producers_ok s \<longleftrightarrow>
     (\<forall>p. prod_slot_ok (q_prod s p))
     \<and> (\<forall>p i. prod_pos (q_prod s p) = Some i \<longrightarrow> unat (rb_cursor (q_ring s)) \<le> i \<and> i < length (q_log s))
     \<and> (\<forall>p q i. prod_pos (q_prod s p) = Some i \<longrightarrow> prod_pos (q_prod s q) = Some i \<longrightarrow> p = q)
     \<and> (\<forall>i. unat (rb_cursor (q_ring s)) \<le> i \<longrightarrow> i < length (q_log s) \<longrightarrow>
           (\<exists>p. prod_pos (q_prod s p) = Some i))"

definition contents_ok :: "'a mpsc \<Rightarrow> bool" where
  "contents_ok s \<longleftrightarrow>
     (\<forall>i. length (q_taken s) \<le> i \<longrightarrow> i < unat (rb_cursor (q_ring s)) \<longrightarrow> cell s i = q_log s ! i)
     \<and> (\<forall>p sl x. q_prod s p = Holding sl x \<longrightarrow> q_log s ! unat (sl_start sl) = x)
     \<and> (\<forall>p sl. q_prod s p = Stored sl \<longrightarrow> cell s (unat (sl_start sl)) = q_log s ! unat (sl_start sl))"

definition mpsc_inv :: "'a mpsc \<Rightarrow> bool" where
  "mpsc_inv s \<longleftrightarrow> cursors_ok s \<and> producers_ok s \<and> contents_ok s
     \<and> q_taken s = take (length (q_taken s)) (q_log s)"

lemma mpsc_init_inv:
  assumes "is_pow2 sz" "length mem = unat sz"
  shows "mpsc_inv (mpsc_init mem sz)"
  using assms
  by (auto simp: mpsc_inv_def cursors_ok_def producers_ok_def contents_ok_def mpsc_init_def
      rb_new_def rb_wf_def within_def)

section \<open>Every step keeps it\<close>

lemma producer_pos:
  assumes "producers_ok s"
  shows "q_prod s p = Holding sl x \<Longrightarrow> sl_size sl = 1 \<and>
      unat (rb_cursor (q_ring s)) \<le> unat (sl_start sl) \<and> unat (sl_start sl) < length (q_log s)"
    and "q_prod s p = Stored sl \<Longrightarrow> sl_size sl = 1 \<and>
      unat (rb_cursor (q_ring s)) \<le> unat (sl_start sl) \<and> unat (sl_start sl) < length (q_log s)"
  using assms unfolding producers_ok_def by (metis prod_pos.simps prod_slot_ok.simps)+

lemma producer_unique:
  assumes "producers_ok s" "prod_pos (q_prod s p) = Some i" "prod_pos (q_prod s q) = Some i"
  shows "p = q"
  using assms unfolding producers_ok_def by blast

lemma reserve_inv:
  assumes inv: "mpsc_inv s" and idle: "q_prod s p = Idle"
    and res: "rb_reserve 1 (q_ring s) = (sl, r)"
    and t: "t = s\<lparr>q_ring := r, q_prod := (q_prod s)(p := Holding sl x), q_log := q_log s @ [x]\<rparr>"
    and within: "within t"
  shows "mpsc_inv t"
proof -
  let ?n = "length (q_log s)"
  from res have r: "r = (q_ring s)\<lparr>rb_reserved := rb_reserved (q_ring s) + 1\<rparr>"
    and sl: "sl = \<lparr>sl_start = rb_reserved (q_ring s), sl_size = 1, sl_discard = False\<rparr>"
    by (auto simp: rb_reserve_def)
  from inv have c: "cursors_ok s" and pr: "producers_ok s" and co: "contents_ok s"
    and tk: "q_taken s = take (length (q_taken s)) (q_log s)" by (auto simp: mpsc_inv_def)
  have n: "unat (rb_reserved (q_ring s)) = ?n" using c by (simp add: cursors_ok_def)
  have "?n + 1 < 2 ^ 64" using within by (simp add: within_def t)
  then have n1: "unat (rb_reserved (q_ring s) + 1) = ?n + 1" using n by (simp add: unat_add_bounded)
  have "cursors_ok t" using c within n1 by (simp add: cursors_ok_def t r)
  moreover have "producers_ok t"
    using pr idle n c unfolding producers_ok_def
    by (auto simp: t r sl less_Suc_eq cursors_ok_def split: if_splits)
       (metis less_irrefl_nat nat_neq_iff option.distinct(1) prod_pos.simps(1))+
  moreover have "contents_ok t"
    using co n c unfolding contents_ok_def
    by (auto simp: t r sl nth_append cell_def cursors_ok_def split: if_splits
        dest: producer_pos[OF pr])
  moreover have "q_taken t = take (length (q_taken t)) (q_log t)"
    using tk c by (simp add: t cursors_ok_def)
  ultimately show ?thesis by (simp add: mpsc_inv_def)
qed

lemma store_inv:
  assumes inv: "mpsc_inv s" and hold: "q_prod s p = Holding sl x"
    and set: "slot_set sl 0 x (q_ring s) = Done r"
    and t: "t = s\<lparr>q_ring := r, q_prod := (q_prod s)(p := Stored sl)\<rparr>"
  shows "mpsc_inv t"
proof -
  let ?N = "unat (rb_size (q_ring s))" and ?b = "rb_buffer (q_ring s)" and ?k = "unat (sl_start sl)"
  from inv have c: "cursors_ok s" and pr: "producers_ok s" and co: "contents_ok s"
    and tk: "q_taken s = take (length (q_taken s)) (q_log s)" by (auto simp: mpsc_inv_def)
  from c have wf: "rb_wf (q_ring s)" and wi: "length (q_log s) - length (q_taken s) \<le> ?N"
    and tc: "length (q_taken s) \<le> unat (rb_cursor (q_ring s))"
    by (auto simp: cursors_ok_def within_def)
  have r: "r = (q_ring s)\<lparr>rb_buffer := ?b[?k mod ?N := x]\<rparr>"
    using set wf by (simp add: slot_set_def rb_set_Done)
  note k = producer_pos(1)[OF pr hold]
  have other: "?b[?k mod ?N := x] ! (i mod ?N) = ?b ! (i mod ?N)"
    if "length (q_taken s) \<le> i" "i < length (q_log s)" "i \<noteq> ?k" for i
  proof -
    have "i < ?k \<Longrightarrow> ?k - i < ?N" "?k < i \<Longrightarrow> i - ?k < ?N" using that k tc wi by linarith+
    then have "i mod ?N \<noteq> ?k mod ?N"
      using cells_differ[of i ?k ?N] cells_differ[of ?k i ?N] that by (metis nat_neq_iff)
    then show ?thesis by simp
  qed
  have here: "?b[?k mod ?N := x] ! (?k mod ?N) = x" using wf rb_pos[OF wf] by simp
  have "cursors_ok t" using c wf by (simp add: cursors_ok_def t r within_def)
  moreover have "producers_ok t"
  proof -
    have "prod_pos ((q_prod t) q) = prod_pos (q_prod s q)" for q using hold by (simp add: t)
    moreover have "prod_slot_ok (q_prod t q)" for q using pr k by (simp add: t producers_ok_def)
    ultimately show ?thesis using pr by (simp add: producers_ok_def t r)
  qed
  moreover have "contents_ok t"
  proof -
    have "cell t i = q_log s ! i" if "length (q_taken s) \<le> i" "i < unat (rb_cursor (q_ring s))" for i
      using that co other[of i] k c by (simp add: cell_def t r contents_ok_def cursors_ok_def)
    moreover have "cell t (unat (sl_start sl')) = q_log s ! unat (sl_start sl')"
      if "q_prod t q = Stored sl'" for q sl'
    proof (cases "q = p")
      case True
      then show ?thesis using that hold co here by (simp add: t r cell_def contents_ok_def)
    next
      case False
      then have q: "q_prod s q = Stored sl'" using that by (simp add: t)
      then have "unat (sl_start sl') \<noteq> ?k"
        using producer_unique[OF pr, of q ?k p] False hold by auto
      then show ?thesis
        using producer_pos(2)[OF pr q] other tc co q by (auto simp: t r cell_def contents_ok_def)
    qed
    ultimately show ?thesis using co by (auto simp: contents_ok_def t r split: if_splits)
  qed
  ultimately show ?thesis using tk by (simp add: mpsc_inv_def t)
qed

lemma publish_inv:
  assumes inv: "mpsc_inv s" and st: "q_prod s p = Stored sl"
    and pub: "slot_publish sl [] (q_ring s) = Done (r, [])"
    and t: "t = s\<lparr>q_ring := r, q_prod := (q_prod s)(p := Idle)\<rparr>"
  shows "mpsc_inv t"
proof -
  let ?c = "unat (rb_cursor (q_ring s))"
  from inv have c: "cursors_ok s" and pr: "producers_ok s" and co: "contents_ok s"
    and tk: "q_taken s = take (length (q_taken s)) (q_log s)" by (auto simp: mpsc_inv_def)
  note k = producer_pos(2)[OF pr st]
  have at: "rb_cursor (q_ring s) = sl_start sl"
    and r: "r = (q_ring s)\<lparr>rb_cursor := rb_cursor (q_ring s) + 1\<rparr>"
    using pub k by (auto simp: slot_publish_def rb_publish_def split: if_splits)
  have "length (q_log s) < 2 ^ 64" using c by (simp add: cursors_ok_def within_def)
  then have u: "unat (rb_cursor (q_ring s) + 1) = ?c + 1"
    using k at by (simp add: unat_add_bounded)
  have "cursors_ok t" using c u k at by (simp add: cursors_ok_def t r within_def)
  moreover have "producers_ok t"
  proof -
    have pp: "prod_pos (q_prod s p) = Some ?c" using st at by simp
    have "?c + 1 \<le> i \<and> i < length (q_log s)" if "prod_pos (q_prod t q) = Some i" for q i
    proof -
      have q: "q \<noteq> p" "prod_pos (q_prod s q) = Some i"
        using that by (cases "q = p"; simp add: t)+
      then have "i \<noteq> ?c" using producer_unique[OF pr q(2), of p] pp by metis
      moreover have "?c \<le> i \<and> i < length (q_log s)"
        using pr q(2) unfolding producers_ok_def by blast
      ultimately show ?thesis by simp
    qed
    moreover have "\<exists>q. prod_pos (q_prod t q) = Some i" if i: "?c + 1 \<le> i" "i < length (q_log s)" for i
    proof -
      have "?c \<le> i" using i by simp
      then obtain q where "prod_pos (q_prod s q) = Some i"
        using pr i unfolding producers_ok_def by blast
      moreover then have "q \<noteq> p" using pp i by auto
      ultimately show ?thesis by (intro exI[of _ q]) (simp add: t)
    qed
    moreover have "q = q'" if "prod_pos (q_prod t q) = Some i" "prod_pos (q_prod t q') = Some i" for q q' i
    proof -
      have "q \<noteq> p" "q' \<noteq> p" using that by (cases "q = p"; cases "q' = p"; simp add: t)+
      then show ?thesis using that producer_unique[OF pr, of q i q'] by (simp add: t)
    qed
    moreover have "prod_slot_ok (q_prod t q)" for q using pr by (simp add: t producers_ok_def)
    moreover have "unat (rb_cursor (q_ring t)) = ?c + 1" "q_log t = q_log s"
      using u by (simp_all add: t r)
    ultimately show ?thesis unfolding producers_ok_def by metis
  qed
  moreover have "contents_ok t"
  proof -
    have "cell t i = cell s i" for i by (simp add: cell_def t r)
    moreover have "cell s ?c = q_log s ! ?c" using co st at by (simp add: contents_ok_def)
    ultimately show ?thesis
      using co u by (auto simp: contents_ok_def t r less_Suc_eq)
  qed
  ultimately show ?thesis using tk by (simp add: mpsc_inv_def t)
qed

lemma pop_inv:
  assumes inv: "mpsc_inv s" and pop: "rb_pop (q_ring s) (q_next s) = Done (Some x, c)"
    and t: "t = s\<lparr>q_next := c, q_taken := q_taken s @ [x]\<rparr>"
  shows "mpsc_inv t"
proof -
  let ?n = "length (q_taken s)"
  from inv have cu: "cursors_ok s" and pr: "producers_ok s" and co: "contents_ok s"
    and tk: "q_taken s = take ?n (q_log s)" by (auto simp: mpsc_inv_def)
  from cu have wf: "rb_wf (q_ring s)" and n: "unat (q_next s) = ?n" by (auto simp: cursors_ok_def)
  from pop wf have ne: "q_next s \<noteq> rb_cursor (q_ring s)" and c: "c = q_next s + 1"
    and x: "x = cell s ?n"
    by (auto simp: rb_pop_def rb_available_def rb_get_Done cell_def n split: if_splits)
  have lt: "?n < unat (rb_cursor (q_ring s))"
    using ne n cu by (metis cursors_ok_def le_neq_implies_less word_unat_eq_iff)
  then have u: "unat (q_next s + 1) = ?n + 1"
    using unsigned_less[of "rb_cursor (q_ring s)", where 'a = nat] n by (simp add: unat_add_bounded)
  have xl: "x = q_log s ! ?n" using x co lt by (simp add: contents_ok_def)
  have len: "?n < length (q_log s)" using lt cu by (simp add: cursors_ok_def)
  have "cursors_ok t" using cu u lt by (auto simp: cursors_ok_def t c within_def)
  moreover have "producers_ok t" using pr by (simp add: producers_ok_def t)
  moreover have "contents_ok t" using co by (simp add: contents_ok_def t cell_def)
  moreover have "q_taken t = take (length (q_taken t)) (q_log t)"
    using tk xl len by (simp add: t take_Suc_conv_app_nth)
  ultimately show ?thesis by (simp add: mpsc_inv_def)
qed

lemma mpsc_step_inv:
  assumes "mpsc_step s t" "mpsc_inv s" "within t"
  shows "mpsc_inv t"
  using assms
  by (cases rule: mpsc_step.cases) (auto intro: reserve_inv store_inv publish_inv pop_inv)

lemma mpsc_reach_inv: "mpsc_reach i s \<Longrightarrow> mpsc_inv i \<Longrightarrow> mpsc_inv s"
  by (induction rule: mpsc_reach.induct) (auto intro: mpsc_step_inv)

section \<open>Progress\<close>

lemma mpsc_reach_trans: "mpsc_reach s t \<Longrightarrow> mpsc_reach i s \<Longrightarrow> mpsc_reach i t"
  by (induction rule: mpsc_reach.induct) (auto intro: mpsc_reach.step)

lemma pop_enabled:
  assumes "mpsc_inv s" "length (q_taken s) < unat (rb_cursor (q_ring s))"
  shows "\<exists>t. mpsc_reach s t \<and> q_log t = q_log s \<and> length (q_taken t) = Suc (length (q_taken s))"
proof -
  from assms have "rb_wf (q_ring s)" "q_next s \<noteq> rb_cursor (q_ring s)" "within s"
    by (auto simp: mpsc_inv_def cursors_ok_def)
  then obtain x c where "rb_pop (q_ring s) (q_next s) = Done (Some x, c)"
    by (simp add: rb_pop_def rb_available_def rb_get_Done)
  then have "mpsc_step s (s\<lparr>q_next := c, q_taken := q_taken s @ [x]\<rparr>)" by (rule mpsc_step.pop)
  moreover have "within (s\<lparr>q_next := c, q_taken := q_taken s @ [x]\<rparr>)"
    using \<open>within s\<close> by (auto simp: within_def)
  ultimately have "mpsc_reach s (s\<lparr>q_next := c, q_taken := q_taken s @ [x]\<rparr>)"
    by (rule mpsc_reach.step[OF mpsc_reach.start])
  then show ?thesis by (intro exI conjI) (assumption, simp_all)
qed

lemma publish_enabled:
  assumes "mpsc_inv s" "q_prod s p = Stored sl" "sl_start sl = rb_cursor (q_ring s)"
  shows "\<exists>t. mpsc_reach s t \<and> q_log t = q_log s \<and> q_taken t = q_taken s
     \<and> unat (rb_cursor (q_ring t)) = Suc (unat (rb_cursor (q_ring s)))"
proof -
  from assms(1) have "within s" and pr: "producers_ok s" by (auto simp: mpsc_inv_def cursors_ok_def)
  note k = producer_pos(2)[OF pr assms(2)]
  let ?r = "(q_ring s)\<lparr>rb_cursor := rb_cursor (q_ring s) + 1\<rparr>"
  let ?t = "s\<lparr>q_ring := ?r, q_prod := (q_prod s)(p := Idle)\<rparr>"
  have "slot_publish sl [] (q_ring s) = Done (?r, [])"
    using assms(3) k by (simp add: slot_publish_def rb_publish_def)
  then have "mpsc_step s ?t" by (rule mpsc_step.publish[OF assms(2)])
  moreover have "within ?t" using \<open>within s\<close> by (simp add: within_def)
  ultimately have "mpsc_reach s ?t" by (rule mpsc_reach.step[OF mpsc_reach.start])
  moreover have "unat (rb_cursor (q_ring s) + 1) = unat (rb_cursor (q_ring s)) + 1"
    using k assms(3) \<open>within s\<close> by (simp add: within_def unat_add_bounded)
  ultimately show ?thesis by (intro exI[of _ ?t]) simp
qed

lemma store_enabled:
  assumes "mpsc_inv s" "q_prod s p = Holding sl x"
  shows "\<exists>t. mpsc_reach s t \<and> q_log t = q_log s \<and> q_taken t = q_taken s
     \<and> rb_cursor (q_ring t) = rb_cursor (q_ring s) \<and> q_prod t p = Stored sl"
proof -
  from assms(1) have wf: "rb_wf (q_ring s)" and "within s"
    by (auto simp: mpsc_inv_def cursors_ok_def)
  then obtain r where r: "slot_set sl 0 x (q_ring s) = Done r" "rb_cursor r = rb_cursor (q_ring s)"
    "rb_size r = rb_size (q_ring s)"
    by (simp add: slot_set_def rb_set_Done)
  let ?t = "s\<lparr>q_ring := r, q_prod := (q_prod s)(p := Stored sl)\<rparr>"
  have "mpsc_step s ?t" by (rule mpsc_step.store[OF assms(2) r(1)])
  moreover have "within ?t" using \<open>within s\<close> r by (simp add: within_def)
  ultimately have "mpsc_reach s ?t" by (rule mpsc_reach.step[OF mpsc_reach.start])
  then show ?thesis using r by (intro exI[of _ ?t]) simp
qed

text \<open>Whatever is reserved next can be brought to the consumer without further reservations.\<close>

lemma next_delivered:
  assumes inv: "mpsc_inv s" and more: "length (q_taken s) < length (q_log s)"
  shows "\<exists>t. mpsc_reach s t \<and> q_log t = q_log s \<and> length (q_taken t) = Suc (length (q_taken s))"
proof -
  let ?c = "rb_cursor (q_ring s)"
  consider "length (q_taken s) < unat ?c" | "unat ?c = length (q_taken s)"
    using inv by (force simp: mpsc_inv_def cursors_ok_def)
  then show ?thesis
  proof cases
    case 1
    then show ?thesis using pop_enabled[OF inv] by simp
  next
    case 2
    then obtain p where p: "prod_pos (q_prod s p) = Some (unat ?c)"
      using inv more unfolding mpsc_inv_def producers_ok_def by auto
    have "\<exists>u sl. mpsc_reach s u \<and> q_log u = q_log s \<and> q_taken u = q_taken s
       \<and> rb_cursor (q_ring u) = ?c \<and> q_prod u p = Stored sl \<and> sl_start sl = ?c"
    proof (cases "q_prod s p")
      case (Holding sl x)
      then show ?thesis using store_enabled[OF inv Holding] p by (auto simp: word_unat_eq_iff)
    next
      case (Stored sl)
      then show ?thesis using p mpsc_reach.start[of s] by (auto simp: word_unat_eq_iff)
    qed (use p in simp)
    then obtain u sl where u: "mpsc_reach s u" "q_log u = q_log s" "q_taken u = q_taken s"
      "rb_cursor (q_ring u) = ?c" "q_prod u p = Stored sl" "sl_start sl = ?c" by blast
    have iu: "mpsc_inv u" using mpsc_reach_inv[OF u(1) inv] .
    from publish_enabled[OF iu u(5)] u(4,6) obtain v where
      v: "mpsc_reach u v" "q_log v = q_log u" "q_taken v = q_taken u"
        "unat (rb_cursor (q_ring v)) = Suc (unat ?c)" by auto
    have iv: "mpsc_inv v" using mpsc_reach_inv[OF v(1) iu] .
    from pop_enabled[OF iv] v(3,4) u(3) 2 obtain t where
      t: "mpsc_reach v t" "q_log t = q_log v" "length (q_taken t) = Suc (length (q_taken v))" by auto
    have "mpsc_reach s t" using u(1) v(1) t(1) mpsc_reach_trans by blast
    then show ?thesis using t(2,3) v(2,3) u(2,3) by auto
  qed
qed

lemma all_delivered:
  assumes "mpsc_inv s"
  shows "\<exists>t. mpsc_reach s t \<and> q_log t = q_log s \<and> q_taken t = q_log s"
  using assms
proof (induction "length (q_log s) - length (q_taken s)" arbitrary: s rule: less_induct)
  case less
  have le: "length (q_taken s) \<le> length (q_log s)" and tk: "q_taken s = take (length (q_taken s)) (q_log s)"
    using less.prems by (auto simp: mpsc_inv_def cursors_ok_def)
  show ?case
  proof (cases "length (q_taken s) = length (q_log s)")
    case True
    then show ?thesis using tk mpsc_reach.start[of s] by (intro exI[of _ s]) simp
  next
    case False
    then obtain u where u: "mpsc_reach s u" "q_log u = q_log s" "length (q_taken u) = Suc (length (q_taken s))"
      using next_delivered[OF less.prems] le by auto
    have "length (q_log u) - length (q_taken u) < length (q_log s) - length (q_taken s)"
      using u(2,3) False le by simp
    then obtain t where "mpsc_reach u t" "q_log t = q_log u" "q_taken t = q_log u"
      using less.hyps[of u] mpsc_reach_inv[OF u(1) less.prems] by blast
    then show ?thesis using u mpsc_reach_trans by metis
  qed
qed

section \<open>Properties\<close>

text \<open>
  C13: with any number of clients pushing concurrently, and as long as the reservations stay
  within the capacity, the service receives exactly the requests that were reserved, each
  once and in the order of their reservation.
\<close>

theorem mpsc_fifo:
  assumes "is_pow2 sz" and "length mem = unat sz" and "mpsc_reach (mpsc_init mem sz) s"
  shows "q_taken s = take (length (q_taken s)) (q_log s)"
  using mpsc_reach_inv[OF assms(3) mpsc_init_inv[OF assms(1,2)]] by (simp add: mpsc_inv_def)

lemma two_cell_run:
  "\<exists>s. mpsc_reach (mpsc_init [0, 0 :: nat] 2) s \<and> q_log s = [7] \<and> q_taken s = [7]"
proof -
  let ?i = "mpsc_init [0, 0 :: nat] 2"
  have i: "mpsc_inv ?i" by (rule mpsc_init_inv) (simp_all add: is_pow2_def)
  obtain sl r where res: "rb_reserve 1 (q_ring ?i) = (sl, r)" "rb_size r = 2"
    by (simp add: rb_reserve_def mpsc_init_def rb_new_def)
  let ?t = "?i\<lparr>q_ring := r, q_prod := (q_prod ?i)(3 := Holding sl 7), q_log := q_log ?i @ [7]\<rparr>"
  have "mpsc_step ?i ?t" by (rule mpsc_step.reserve) (simp_all add: res(1), simp add: mpsc_init_def)
  moreover have "within ?t" using res by (simp add: within_def mpsc_init_def)
  ultimately have t: "mpsc_reach ?i ?t" by (rule mpsc_reach.step[OF mpsc_reach.start])
  have log: "q_log ?t = [7]" by (simp add: mpsc_init_def)
  obtain u where u: "mpsc_reach ?t u" "q_log u = q_log ?t" "q_taken u = q_log ?t"
    using all_delivered[OF mpsc_reach_inv[OF t i]] by blast
  have "mpsc_reach ?i u" using mpsc_reach_trans[OF u(1) t] .
  then show ?thesis using u(2,3) log by (intro exI[of _ u]) (simp only: log)
qed

theorem mpsc_fifo_witness:
  "\<exists>s. mpsc_reach (mpsc_init [0, 0 :: nat] 2) s \<and> q_taken s = [7]
     \<and> q_taken s = take (length (q_taken s)) (q_log s)"
proof -
  obtain s where s: "mpsc_reach (mpsc_init [0, 0 :: nat] 2) s" "q_taken s = [7]"
    using two_cell_run by blast
  have "q_taken s = take (length (q_taken s)) (q_log s)"
    by (rule mpsc_fifo[OF _ _ s(1)]) (simp_all add: is_pow2_def)
  with s show ?thesis by blast
qed

text \<open>
  No reserved request is stuck: from every reachable state the clients that have
  reserved space and the service can, without any further reservation, reach a state in
  which every reserved request has been received.
\<close>

theorem mpsc_drains:
  assumes "is_pow2 sz" and "length mem = unat sz" and "mpsc_reach (mpsc_init mem sz) s"
  shows "\<exists>t. mpsc_reach s t \<and> q_log t = q_log s \<and> q_taken t = q_log s"
  by (rule all_delivered[OF mpsc_reach_inv[OF assms(3) mpsc_init_inv[OF assms(1,2)]]])

theorem mpsc_drains_witness:
  "\<exists>s t. mpsc_reach (mpsc_init [0, 0 :: nat] 2) s \<and> q_log s = [7]
     \<and> mpsc_reach s t \<and> q_log t = q_log s \<and> q_taken t = q_log s"
proof -
  obtain s where s: "mpsc_reach (mpsc_init [0, 0 :: nat] 2) s" "q_log s = [7]"
    using two_cell_run by blast
  have "\<exists>t. mpsc_reach s t \<and> q_log t = q_log s \<and> q_taken t = q_log s"
    by (rule mpsc_drains[OF _ _ s(1)]) (simp_all add: is_pow2_def)
  with s show ?thesis by blast
qed

text \<open>
  C33: the ring does not check its capacity: a push into a ring whose cells all hold unread
  requests succeeds and replaces the oldest of them, which the service never receives.
\<close>

theorem full_push_overwrites:
  assumes "rb_inv (r, c) xs" and "length xs = unat (rb_size r)"
    and "unat (rb_cursor r) + 1 < 2 ^ 64"
  shows "\<exists>r'. rb_push x r = Done r' \<and> rb_pop r' c = Done (Some x, c + 1)"
proof -
  let ?N = "unat (rb_size r)" and ?w = "unat (rb_cursor r)"
  from assms have wf: "rb_wf r" and eq: "rb_reserved r = rb_cursor r" and w: "?w = unat c + ?N"
    by (auto simp: rb_inv_def rb_unread_def)
  define r' where "r' = r\<lparr>rb_reserved := rb_cursor r + 1, rb_cursor := rb_cursor r + 1,
     rb_buffer := (rb_buffer r)[?w mod ?N := x]\<rparr>"
  have "rb_push x r = Done r'"
    using wf eq by (simp add: rb_push_def rb_reserve_def slot_set_def rb_set_Done slot_publish_def
        rb_publish_def r'_def)
  moreover have "unat (rb_cursor r + 1) = ?w + 1" using assms(3) by (simp add: unat_add_bounded)
  then have "c \<noteq> rb_cursor r'" using w by (auto simp: r'_def)
  moreover have "rb_wf r'" using wf by (simp add: r'_def)
  moreover have "rb_buffer r' ! (unat c mod unat (rb_size r')) = x"
    using wf rb_pos[OF wf] w by (simp add: r'_def)
  ultimately show ?thesis by (auto simp: rb_pop_def rb_available_def rb_get_Done)
qed

theorem full_push_overwrites_witness:
  "\<exists>r'. rb_push (9 :: nat) \<lparr>rb_buffer = [7, 8], rb_size = 2, rb_mask = 1, rb_cursor = 2, rb_reserved = 2\<rparr>
      = Done r' \<and> rb_pop r' 0 = Done (Some 9, 0 + 1)"
  by (rule full_push_overwrites[where xs = "[7, 8]"])
    (simp_all add: rb_inv_def rb_wf_def is_pow2_def rb_unread_def upt_rec)

end
