(* ===== verification/Byte_Queue.thy ===== *)
theory Byte_Queue
  imports Slick_Prelude
begin

text \<open>
  The interface between the connections (websocket, raw socket, server) and the buffer they
  send through: a queue of byte strings, written in one or several parts by the sending
  thread, read by the service thread, cleared on reconnection. \<open>queue_spec\<close> says which
  observations of a sequence of calls an ideal queue allows; the locale \<open>byte_queue\<close> states
  what a provider promises, and the clients' facts are proved from it once.
\<close>

section \<open>Calls and observations\<close>

datatype queue_call = Write "byte list" u64 | Read | Reset

datatype queue_obs = Wrote bool | Got "byte list option" | Cleared

text \<open>Whole calls one after another, each leaving an observation.\<close>

fun queue_run ::
  "(byte list \<Rightarrow> u64 \<Rightarrow> 's \<Rightarrow> (bool \<times> 's) result) \<Rightarrow> ('s \<Rightarrow> (byte list option \<times> 's) result) \<Rightarrow>
   ('s \<Rightarrow> 's result) \<Rightarrow> queue_call list \<Rightarrow> 's \<Rightarrow> (queue_obs list \<times> 's) result"
where
  "queue_run wr rd clr [] s = Done ([], s)"
| "queue_run wr rd clr (Write msg remaining # cs) s =
     result_bind (wr msg remaining s)
       (\<lambda>(b, s). result_bind (queue_run wr rd clr cs s) (\<lambda>(obs, s). Done (Wrote b # obs, s)))"
| "queue_run wr rd clr (Read # cs) s =
     result_bind (rd s)
       (\<lambda>(r, s). result_bind (queue_run wr rd clr cs s) (\<lambda>(obs, s). Done (Got r # obs, s)))"
| "queue_run wr rd clr (Reset # cs) s =
     result_bind (clr s)
       (\<lambda>s. result_bind (queue_run wr rd clr cs s) (\<lambda>(obs, s). Done (Cleared # obs, s)))"

text \<open>The message being assembled, after one more part.\<close>

definition joined :: "(byte list \<times> nat) option \<Rightarrow> byte list \<Rightarrow> byte list" where
  "joined w msg = (case w of None \<Rightarrow> msg | Some (part, _) \<Rightarrow> part @ msg)"

definition next_partial ::
  "(byte list \<times> nat) option \<Rightarrow> byte list \<Rightarrow> u64 \<Rightarrow> (byte list \<times> nat) option"
where
  "next_partial w msg remaining =
     (if remaining = 0 then None else Some (joined w msg, unat remaining))"

text \<open>
  The ideal queue: every write is accepted; the last part of a message appends it; a read
  delivers the oldest message or, while it skips padding, nothing; a reset drops everything.
\<close>

fun queue_spec ::
  "queue_call list \<Rightarrow> queue_obs list \<Rightarrow> byte list list \<Rightarrow> (byte list \<times> nat) option \<Rightarrow> bool"
where
  "queue_spec [] [] q w \<longleftrightarrow> True"
| "queue_spec (Write msg remaining # cs) (Wrote b # obs) q w \<longleftrightarrow>
     b \<and> queue_spec cs obs (if remaining = 0 then q @ [joined w msg] else q)
           (next_partial w msg remaining)"
| "queue_spec (Read # cs) (Got None # obs) q w \<longleftrightarrow> queue_spec cs obs q w"
| "queue_spec (Read # cs) (Got (Some m) # obs) q w \<longleftrightarrow>
     q \<noteq> [] \<and> hd q = m \<and> queue_spec cs obs (tl q) w"
| "queue_spec (Reset # cs) (Cleared # obs) q w \<longleftrightarrow> queue_spec cs obs [] None"
| "queue_spec _ _ _ _ \<longleftrightarrow> False"

text \<open>
  The calls a client may make: no empty part, a new message only while there is room for it,
  and the parts of a message add up to the length announced with its first part.
\<close>

definition write_ok ::
  "('s \<Rightarrow> nat \<Rightarrow> bool) \<Rightarrow> byte list \<Rightarrow> u64 \<Rightarrow> 's \<Rightarrow> (byte list \<times> nat) option \<Rightarrow> bool"
where
  "write_ok room msg remaining s w \<longleftrightarrow> msg \<noteq> [] \<and>
     (case w of None \<Rightarrow> room s (length msg + unat remaining)
      | Some (_, k) \<Rightarrow> length msg + unat remaining = k)"

fun queue_legal ::
  "(byte list \<Rightarrow> u64 \<Rightarrow> 's \<Rightarrow> (bool \<times> 's) result) \<Rightarrow> ('s \<Rightarrow> (byte list option \<times> 's) result) \<Rightarrow>
   ('s \<Rightarrow> 's result) \<Rightarrow> ('s \<Rightarrow> nat \<Rightarrow> bool) \<Rightarrow> queue_call list \<Rightarrow> 's \<Rightarrow>
   (byte list \<times> nat) option \<Rightarrow> bool"
where
  "queue_legal wr rd clr room [] s w \<longleftrightarrow> True"
| "queue_legal wr rd clr room (Write msg remaining # cs) s w \<longleftrightarrow>
     write_ok room msg remaining s w \<and>
     (case wr msg remaining s of
        Done (_, t) \<Rightarrow> queue_legal wr rd clr room cs t (next_partial w msg remaining)
      | _ \<Rightarrow> True)"
| "queue_legal wr rd clr room (Read # cs) s w \<longleftrightarrow>
     (case rd s of Done (_, t) \<Rightarrow> queue_legal wr rd clr room cs t w | _ \<Rightarrow> True)"
| "queue_legal wr rd clr room (Reset # cs) s w \<longleftrightarrow>
     (case clr s of Done t \<Rightarrow> queue_legal wr rd clr room cs t None | _ \<Rightarrow> True)"

text \<open>The messages a list of observations delivers.\<close>

fun delivered :: "queue_obs list \<Rightarrow> byte list list" where
  "delivered [] = []"
| "delivered (Got (Some m) # obs) = m # delivered obs"
| "delivered (_ # obs) = delivered obs"

text \<open>The messages completed by a list of calls without a reset, starting from \<open>w\<close>.\<close>

fun sent :: "queue_call list \<Rightarrow> (byte list \<times> nat) option \<Rightarrow> byte list list" where
  "sent [] w = []"
| "sent (Write msg remaining # cs) w =
     (if remaining = 0 then [joined w msg] else []) @ sent cs (next_partial w msg remaining)"
| "sent (Read # cs) w = sent cs w"
| "sent (Reset # cs) w = sent cs None"

lemma delivered_append [simp]: "delivered (xs @ ys) = delivered xs @ delivered ys"
  by (induction xs rule: delivered.induct) auto

lemma queue_run_append:
  "queue_run wr rd clr (cs @ ds) s =
     result_bind (queue_run wr rd clr cs s)
       (\<lambda>(obs, t). result_bind (queue_run wr rd clr ds t) (\<lambda>(obs', u). Done (obs @ obs', u)))"
proof (induction cs arbitrary: s)
  case Nil
  then show ?case by (cases "queue_run wr rd clr ds s") auto
next
  case (Cons c cs)
  then show ?case
    by (cases c) (auto simp: result_bind_assoc split_beta intro!: result_bind_cong)
qed

section \<open>The contract\<close>

text \<open>
  \<open>inv s fs w\<close>: the queue \<open>s\<close> holds the unread records \<open>fs\<close> (some of which may carry no
  message) and, with \<open>w = Some (part, k)\<close>, a message of which \<open>part\<close> is written and \<open>k\<close>
  bytes are outstanding.
\<close>

locale byte_queue =
  fixes inv :: "'s \<Rightarrow> 'f list \<Rightarrow> (byte list \<times> nat) option \<Rightarrow> bool"
    and content :: "'f \<Rightarrow> byte list option"
    and room :: "'s \<Rightarrow> nat \<Rightarrow> bool"
    and wr :: "byte list \<Rightarrow> u64 \<Rightarrow> 's \<Rightarrow> (bool \<times> 's) result"
    and rd :: "'s \<Rightarrow> (byte list option \<times> 's) result"
    and clr :: "'s \<Rightarrow> 's result"
  assumes write_law: "inv s fs w \<Longrightarrow> write_ok room msg remaining s w \<Longrightarrow>
      \<exists>t new. wr msg remaining s = Done (True, t)
        \<and> List.map_filter content new = (if remaining = 0 then [joined w msg] else [])
        \<and> inv t (fs @ new) (next_partial w msg remaining)"
    and read_empty_law: "inv s [] w \<Longrightarrow> rd s = Done (None, s)"
    and read_law: "inv s (f # fs) w \<Longrightarrow> \<exists>t. rd s = Done (content f, t) \<and> inv t fs w"
    and clear_law: "inv s fs w \<Longrightarrow> \<exists>t. clr s = Done t \<and> inv t [] None"
begin

text \<open>Every legal run returns, and its observations are those of the ideal queue.\<close>

lemma run_refines:
  assumes "inv s fs w" "queue_legal wr rd clr room cs s w"
  shows "\<exists>obs t. queue_run wr rd clr cs s = Done (obs, t)
    \<and> queue_spec cs obs (List.map_filter content fs) w"
  using assms
proof (induction cs arbitrary: s fs w)
  case Nil
  then show ?case by simp
next
  case (Cons c cs)
  show ?case
  proof (cases c)
    case (Write msg remaining)
    then have "write_ok room msg remaining s w" using Cons.prems(2) by simp
    from write_law[OF Cons.prems(1) this] obtain t new where
      t: "wr msg remaining s = Done (True, t)"
      "List.map_filter content new = (if remaining = 0 then [joined w msg] else [])"
      "inv t (fs @ new) (next_partial w msg remaining)" by blast
    moreover have "queue_legal wr rd clr room cs t (next_partial w msg remaining)"
      using Cons.prems(2) Write t(1) by simp
    ultimately obtain obs u where "queue_run wr rd clr cs t = Done (obs, u)"
      "queue_spec cs obs (List.map_filter content (fs @ new)) (next_partial w msg remaining)"
      using Cons.IH by blast
    then show ?thesis using Write t(1,2)
      by (intro exI[of _ "Wrote True # obs"] exI[of _ u]) (auto simp: List.map_filter_def)
  next
    case Read
    show ?thesis
    proof (cases fs)
      case Nil
      then have r: "rd s = Done (None, s)" using Cons.prems(1) read_empty_law by simp
      then obtain obs u where "queue_run wr rd clr cs s = Done (obs, u)"
        "queue_spec cs obs (List.map_filter content fs) w"
        using Cons.IH[OF Cons.prems(1)] Cons.prems(2) Read by auto
      then show ?thesis using Read r
        by (intro exI[of _ "Got None # obs"] exI[of _ u]) auto
    next
      case (Cons f gs)
      then obtain t where t: "rd s = Done (content f, t)" "inv t gs w"
        using Cons.prems(1) read_law by blast
      then obtain obs u where "queue_run wr rd clr cs t = Done (obs, u)"
        "queue_spec cs obs (List.map_filter content gs) w"
        using Cons.IH[OF t(2)] Cons.prems(2) Read by auto
      then show ?thesis using Read t Cons
        by (intro exI[of _ "Got (content f) # obs"] exI[of _ u])
          (cases "content f"; auto simp: List.map_filter_def)
    qed
  next
    case Reset
    then obtain t where t: "clr s = Done t" "inv t [] None"
      using Cons.prems(1) clear_law by blast
    then obtain obs u where "queue_run wr rd clr cs t = Done (obs, u)"
      "queue_spec cs obs [] None"
      using Cons.IH[OF t(2)] Cons.prems(2) Reset by (auto simp: List.map_filter_def)
    then show ?thesis using Reset t
      by (intro exI[of _ "Cleared # obs"] exI[of _ u]) auto
  qed
qed

text \<open>
  Nothing is lost or reordered: what was in the queue and what is sent are what is delivered
  and what is still in the queue.
\<close>

lemma run_conserves:
  assumes "inv s fs w" "queue_legal wr rd clr room cs s w" "Reset \<notin> set cs"
  shows "\<exists>obs t fs' w'. queue_run wr rd clr cs s = Done (obs, t) \<and> inv t fs' w'
    \<and> List.map_filter content fs @ sent cs w = delivered obs @ List.map_filter content fs'"
  using assms
proof (induction cs arbitrary: s fs w)
  case Nil
  then show ?case by auto
next
  case (Cons c cs)
  show ?case
  proof (cases c)
    case (Write msg remaining)
    then have "write_ok room msg remaining s w" using Cons.prems(2) by simp
    from write_law[OF Cons.prems(1) this] obtain t new where
      t: "wr msg remaining s = Done (True, t)"
      "List.map_filter content new = (if remaining = 0 then [joined w msg] else [])"
      "inv t (fs @ new) (next_partial w msg remaining)" by blast
    moreover have "queue_legal wr rd clr room cs t (next_partial w msg remaining)"
      using Cons.prems(2) Write t(1) by simp
    ultimately obtain obs u fs' w' where "queue_run wr rd clr cs t = Done (obs, u)" "inv u fs' w'"
      "List.map_filter content (fs @ new) @ sent cs (next_partial w msg remaining)
        = delivered obs @ List.map_filter content fs'"
      using Cons.IH Cons.prems(3) by (metis list.set_intros(2))
    then show ?thesis using Write t(1,2)
      by (intro exI[of _ "Wrote True # obs"] exI[of _ u] exI[of _ fs'] exI[of _ w'])
        (auto simp: List.map_filter_def)
  next
    case Read
    show ?thesis
    proof (cases fs)
      case Nil
      then have r: "rd s = Done (None, s)" using Cons.prems(1) read_empty_law by simp
      then obtain obs u fs' w' where "queue_run wr rd clr cs s = Done (obs, u)" "inv u fs' w'"
        "List.map_filter content fs @ sent cs w = delivered obs @ List.map_filter content fs'"
        using Cons.IH[OF Cons.prems(1)] Cons.prems(2,3) Read by auto
      then show ?thesis using Read r
        by (intro exI[of _ "Got None # obs"] exI[of _ u] exI[of _ fs'] exI[of _ w']) auto
    next
      case (Cons f gs)
      then obtain t where t: "rd s = Done (content f, t)" "inv t gs w"
        using Cons.prems(1) read_law by blast
      then obtain obs u fs' w' where "queue_run wr rd clr cs t = Done (obs, u)" "inv u fs' w'"
        "List.map_filter content gs @ sent cs w = delivered obs @ List.map_filter content fs'"
        using Cons.IH[OF t(2)] Cons.prems(2,3) Read by auto
      then show ?thesis using Read t Cons
        by (intro exI[of _ "Got (content f) # obs"] exI[of _ u] exI[of _ fs'] exI[of _ w'])
          (cases "content f"; auto simp: List.map_filter_def)
    qed
  next
    case Reset
    then show ?thesis using Cons.prems(3) by simp
  qed
qed

text \<open>Enough reads deliver everything that is in the queue, in order.\<close>

lemma drain:
  assumes "inv s fs w" "length fs \<le> n"
  shows "\<exists>obs t. queue_run wr rd clr (replicate n Read) s = Done (obs, t)
    \<and> delivered obs = List.map_filter content fs \<and> inv t [] w"
  using assms
proof (induction n arbitrary: s fs)
  case 0
  then show ?case by (simp add: List.map_filter_def)
next
  case (Suc n)
  show ?case
  proof (cases fs)
    case Nil
    then have r: "rd s = Done (None, s)" using Suc.prems(1) read_empty_law by simp
    obtain obs u where "queue_run wr rd clr (replicate n Read) s = Done (obs, u)"
      "delivered obs = List.map_filter content fs" "inv u [] w"
      using Suc.IH[of s fs] Suc.prems Nil by auto
    then show ?thesis using r by (intro exI[of _ "Got None # obs"] exI[of _ u]) simp
  next
    case (Cons f gs)
    then obtain t where t: "rd s = Done (content f, t)" "inv t gs w"
      using Suc.prems(1) read_law by blast
    then obtain obs u where "queue_run wr rd clr (replicate n Read) t = Done (obs, u)"
      "delivered obs = List.map_filter content gs" "inv u [] w"
      using Suc.IH[of t gs] Suc.prems(2) Cons by auto
    then show ?thesis using t Cons
      by (intro exI[of _ "Got (content f) # obs"] exI[of _ u])
        (cases "content f"; auto simp: List.map_filter_def)
  qed
qed

text \<open>A legal run followed by enough reads delivers exactly what was sent, in order.\<close>

lemma run_then_drain:
  assumes "inv s [] None" "queue_legal wr rd clr room cs s None" "Reset \<notin> set cs"
  shows "\<exists>n0. \<forall>n \<ge> n0. \<exists>obs t. queue_run wr rd clr (cs @ replicate n Read) s = Done (obs, t)
    \<and> delivered obs = sent cs None"
proof -
  from run_conserves[OF assms] obtain obs t fs w where
    r: "queue_run wr rd clr cs s = Done (obs, t)" "inv t fs w"
    "sent cs None = delivered obs @ List.map_filter content fs"
    by (auto simp: List.map_filter_def)
  have "\<exists>obs' u. queue_run wr rd clr (cs @ replicate n Read) s = Done (obs', u)
    \<and> delivered obs' = sent cs None" if "length fs \<le> n" for n
    using drain[OF r(2) that] r by (auto simp: queue_run_append)
  then show ?thesis by blast
qed

text \<open>A message sent as a prefix and a payload arrives as one message.\<close>

lemma two_parts:
  assumes "inv s fs None" "hdr \<noteq> []" "msg \<noteq> []" "length msg < 2 ^ 64"
    and "room s (length hdr + length msg)"
  shows "\<exists>t u new. wr hdr (word_of_nat (length msg)) s = Done (True, t)
    \<and> wr msg 0 t = Done (True, u) \<and> inv u (fs @ new) None
    \<and> List.map_filter content new = [hdr @ msg]"
proof -
  let ?k = "word_of_nat (length msg) :: u64"
  have k: "unat ?k = length msg" using assms(4) by (simp add: unat_of_nat)
  then have nz: "?k \<noteq> 0" using assms(3) by (metis length_0_conv unat_0)
  have "write_ok room hdr ?k s None" using assms k by (simp add: write_ok_def)
  from write_law[OF assms(1) this] obtain t n1 where
    t: "wr hdr ?k s = Done (True, t)" "List.map_filter content n1 = []"
    "inv t (fs @ n1) (Some (hdr, length msg))"
    using nz k by (auto simp: next_partial_def joined_def)
  have "write_ok room msg 0 t (Some (hdr, length msg))"
    using assms(3) by (simp add: write_ok_def)
  from write_law[OF t(3) this] obtain u n2 where "wr msg 0 t = Done (True, u)"
    "List.map_filter content n2 = [hdr @ msg]" "inv u ((fs @ n1) @ n2) None"
    by (auto simp: next_partial_def joined_def)
  then show ?thesis using t
    by (intro exI[of _ t] exI[of _ u] exI[of _ "n1 @ n2"]) (simp add: List.map_filter_def)
qed

text \<open>A message in one part, and a read whatever the queue holds.\<close>

lemma whole_message:
  assumes "inv s fs None" "msg \<noteq> []" "room s (length msg)"
  shows "\<exists>t gs. wr msg 0 s = Done (True, t) \<and> inv t gs None
    \<and> List.map_filter content gs = List.map_filter content fs @ [msg]"
proof -
  have "write_ok room msg 0 s None" using assms by (simp add: write_ok_def)
  from write_law[OF assms(1) this] obtain t new where "wr msg 0 s = Done (True, t)"
    "List.map_filter content new = [msg]" "inv t (fs @ new) None"
    by (auto simp: next_partial_def joined_def)
  then show ?thesis by (intro exI[of _ t] exI[of _ "fs @ new"]) (simp add: List.map_filter_def)
qed

lemma read_any:
  assumes "inv s fs w"
  shows "\<exists>m t gs. rd s = Done (m, t) \<and> inv t gs w
    \<and> List.map_filter content fs = (case m of None \<Rightarrow> [] | Some b \<Rightarrow> [b]) @ List.map_filter content gs
    \<and> (gs = [] \<and> m = None \<or> length gs < length fs)"
proof (cases fs)
  case Nil
  then show ?thesis using read_empty_law[of s w] assms
    by (intro exI[of _ None] exI[of _ s] exI[of _ fs]) simp
next
  case (Cons f gs)
  then obtain t where "rd s = Done (content f, t)" "inv t gs w" using assms read_law by blast
  then show ?thesis using Cons
    by (intro exI[of _ "content f"] exI[of _ t] exI[of _ gs]) (simp add: List.map_filter_def split: option.split)
qed

end

end
