(* ===== verification/String_Ring.thy ===== *)
theory String_Ring
  imports Byte_Queue
begin

text \<open>
  \<open>ring_string_buffer\<close> of src/ring_buffer.h: the byte ring that carries the messages of a
  connection from the sending thread to the service thread. A message is stored as
  \<open>flag (1 byte) | length (4 bytes) | content\<close>; a message never wraps around the end of the
  buffer, the writer pads the rest of the buffer with a \<open>SKIP\<close> record instead.

  The record keeps every field of the class at its C++ width. \<open>write\<close>, \<open>read\<close> and
  \<open>reset\<close> are translated statement by statement; a pointer into the buffer is its offset,
  an access outside the buffer is \<open>Out_of_bounds\<close>, a spin loop takes the interference of
  the other thread from a schedule, and \<open>assert\<close> is checked unless \<open>ndebug\<close>. The
  \<open>printf\<close> diagnostics are left out.
\<close>

section \<open>State\<close>

datatype flag = FLAG_OK | FLAG_INVALID | FLAG_SKIP

fun flag_byte :: "flag \<Rightarrow> byte" where
  "flag_byte FLAG_OK = 0"
| "flag_byte FLAG_INVALID = 1"
| "flag_byte FLAG_SKIP = 2"

record string_ring =
  rs_buffer :: "byte list"
  rs_size :: u64
  rs_mask :: u64
  rs_writing_cursor :: u64
  rs_writing_begin :: u64
  rs_reading_cursor :: u64
  rs_total :: u64
  rs_remaining :: u64
  rs_reset_count :: u32
  rs_skip :: bool
  rs_cursor :: u64
  rs_reserved :: u64
  rs_reading_begin :: u64
  rs_writing :: bool
  rs_resetting :: bool

text \<open>The constructor; \<open>sz\<close> is its argument and \<open>mem\<close> what \<open>new char[size]\<close> happens to contain.\<close>

definition string_ring_new :: "byte list \<Rightarrow> u64 \<Rightarrow> string_ring" where
  "string_ring_new mem sz = \<lparr>
     rs_buffer = mem, rs_size = sz, rs_mask = sz - 1,
     rs_writing_cursor = 0, rs_writing_begin = 0, rs_reading_cursor = 0,
     rs_total = 0, rs_remaining = 0, rs_reset_count = 0, rs_skip = False,
     rs_cursor = 0, rs_reserved = 0, rs_reading_begin = 0,
     rs_writing = False, rs_resetting = False \<rparr>"

section \<open>Access to the buffer\<close>

text \<open>A store and a load at \<open>&buffer_[pos & mask_]\<close>.\<close>

definition ring_put :: "u64 \<Rightarrow> byte list \<Rightarrow> string_ring \<Rightarrow> string_ring result" where
  "ring_put pos bs s =
     result_bind (put (rs_buffer s) (unat (pos AND rs_mask s)) bs)
       (\<lambda>b. Done (s\<lparr>rs_buffer := b\<rparr>))"

definition ring_get :: "u64 \<Rightarrow> nat \<Rightarrow> string_ring \<Rightarrow> byte list result" where
  "ring_get pos n s = get (rs_buffer s) (unat (pos AND rs_mask s)) n"

section \<open>write\<close>

text \<open>\<open>_notify\<close>: wait until everything before this record is published, then publish it.\<close>

definition notify ::
  "u64 \<Rightarrow> string_ring schedule \<Rightarrow> string_ring \<Rightarrow> (string_ring \<times> string_ring schedule) result"
where
  "notify num sched s =
     result_bind (spin_while (\<lambda>t. rs_cursor t \<noteq> rs_writing_begin t) sched s)
       (\<lambda>(s, sched). Done (s\<lparr>rs_cursor := rs_cursor s + num,
                              rs_writing_begin := rs_writing_begin s + num\<rparr>, sched))"

text \<open>Reserve the space of the record, padding to the end of the buffer where it does not fit.\<close>

definition write_reserve ::
  "string_ring schedule \<Rightarrow> string_ring \<Rightarrow> (string_ring \<times> string_ring schedule) result"
where
  "write_reserve sched s =
     (let s = s\<lparr>rs_writing_begin := rs_reserved s, rs_writing_cursor := rs_reserved s,
                rs_reserved := rs_reserved s + rs_total s\<rparr>;
          index = rs_writing_begin s AND rs_mask s
      in if index + rs_total s \<ge> rs_size s
         then let padding_sz = rs_size s - index;
                  s = s\<lparr>rs_reserved := rs_reserved s + padding_sz\<rparr>
              in result_bind (ring_put (rs_writing_cursor s) [flag_byte FLAG_SKIP] s)
                   (\<lambda>s. result_bind (notify padding_sz sched s)
                   (\<lambda>(s, sched). Done (s\<lparr>rs_writing_cursor := rs_writing_begin s\<rparr>, sched)))
         else Done (s, sched))"

text \<open>The condition of the loop that waits for a slow consumer.\<close>

definition overlap :: "u64 \<Rightarrow> u64 \<Rightarrow> string_ring \<Rightarrow> bool" where
  "overlap begin_ix end_ix t \<longleftrightarrow>
     \<not> rs_resetting t \<and> begin_ix < rs_reading_begin t \<and> end_ix > rs_reading_begin t"

definition write_wait ::
  "string_ring schedule \<Rightarrow> string_ring \<Rightarrow> (string_ring \<times> string_ring schedule) result"
where
  "write_wait sched s =
     (let begin_ix = rs_writing_cursor s AND rs_mask s;
          end_ix = (rs_writing_cursor s + rs_total s) AND rs_mask s
      in spin_while (overlap begin_ix end_ix) sched s)"

definition write_header :: "string_ring \<Rightarrow> string_ring result" where
  "write_header s =
     result_bind (ring_put (rs_writing_cursor s) [flag_byte FLAG_OK] s)
       (\<lambda>s. let s = s\<lparr>rs_writing_cursor := rs_writing_cursor s + 1\<rparr>
            in result_bind
                 (ring_put (rs_writing_cursor s) (bytes_of_u32 (ucast (rs_total s) - 5)) s)
                 (\<lambda>s. Done (s\<lparr>rs_writing_cursor := rs_writing_cursor s + 4\<rparr>)))"

text \<open>
  The block \<open>if (writing_cursor_ == 0)\<close>, which starts a new string. The first component of
  the value is \<open>Some b\<close> when the block returns \<open>b\<close> from \<open>write\<close> and \<open>None\<close> when control
  goes on behind the block.
\<close>

definition write_open ::
  "bool \<Rightarrow> u32 \<Rightarrow> u64 \<Rightarrow> u64 \<Rightarrow> string_ring schedule \<Rightarrow> string_ring \<Rightarrow>
   (bool option \<times> string_ring \<times> string_ring schedule) result"
where
  "write_open ndebug reset_count len remaining sched s =
     (let s = s\<lparr>rs_total := len + remaining + 5, rs_remaining := len + remaining\<rparr>
      in if rs_total s \<ge> rs_size s
         then check_assert ndebug False
                (Done (Some False,
                       s\<lparr>rs_writing_cursor := 1, rs_remaining := rs_remaining s - len,
                         rs_skip := True\<rparr>, sched))
         else result_bind (write_reserve sched s)
           (\<lambda>(s, sched). result_bind (write_wait sched s)
           (\<lambda>(s, sched).
              if reset_count \<noteq> rs_reset_count s
              then Done (Some False, s\<lparr>rs_writing_cursor := 0, rs_skip := False\<rparr>, sched)
              else result_bind (write_header s) (\<lambda>s. Done (None, s, sched)))))"

text \<open>The part behind the block: copy the bytes and, with the last part, publish the string.\<close>

definition write_body ::
  "bool \<Rightarrow> byte list \<Rightarrow> u64 \<Rightarrow> u64 \<Rightarrow> string_ring schedule \<Rightarrow> string_ring \<Rightarrow>
   (string_ring \<times> string_ring schedule) result"
where
  "write_body ndebug msg len remaining sched s =
     (let s = s\<lparr>rs_remaining := rs_remaining s - len\<rparr>
      in check_assert ndebug (rs_remaining s = remaining)
       (result_bind
         (if rs_remaining s = remaining \<and> \<not> rs_skip s
          then result_bind (ring_put (rs_writing_cursor s) msg s)
                 (\<lambda>s. Done (s\<lparr>rs_writing_cursor := rs_writing_cursor s + len\<rparr>))
          else Done s)
         (\<lambda>s. if remaining = 0
              then result_bind
                (if \<not> rs_skip s
                 then result_bind
                        (if rs_remaining s \<noteq> remaining
                         then ring_put (rs_writing_begin s) [flag_byte FLAG_INVALID] s
                         else Done s)
                        (\<lambda>s. notify (rs_total s) sched s)
                 else Done (s, sched))
                (\<lambda>(s, sched). Done (s\<lparr>rs_writing_cursor := 0, rs_skip := False\<rparr>, sched))
              else Done (s, sched))))"

text \<open>
  \<open>write(msg, len, remaining)\<close>: \<open>msg\<close> holds the bytes the pointer argument points to and
  \<open>len\<close> is their number. The scoped flag sets \<open>writing_\<close> for the time of the call.
\<close>

definition write_string ::
  "bool \<Rightarrow> byte list \<Rightarrow> u64 \<Rightarrow> string_ring schedule \<Rightarrow> string_ring \<Rightarrow>
   (bool \<times> string_ring \<times> string_ring schedule) result"
where
  "write_string ndebug msg remaining sched s =
     (let len = word_of_nat (length msg)
      in if rs_resetting s \<or> len = 0 then Done (False, s, sched)
         else let s = s\<lparr>rs_writing := True\<rparr>; reset_count = rs_reset_count s
          in result_bind
               (if rs_writing_cursor s = 0 then write_open ndebug reset_count len remaining sched s
                else Done (None, s, sched))
               (\<lambda>(r, s, sched).
                  case r of
                    Some b \<Rightarrow> Done (b, s\<lparr>rs_writing := False\<rparr>, sched)
                  | None \<Rightarrow> result_bind (write_body ndebug msg len remaining sched s)
                      (\<lambda>(s, sched). Done (True, s\<lparr>rs_writing := False\<rparr>, sched))))"

section \<open>read\<close>

text \<open>
  The result pair \<open>(const char*, size_t)\<close>: \<open>None\<close> is the null pointer, \<open>Some off\<close> the
  address \<open>buffer_ + off\<close>. The \<open>switch\<close> has no default, so a flag byte that is none of the
  three is treated as \<open>OK\<close>.
\<close>

definition read_string ::
  "string_ring \<Rightarrow> ((u64 option \<times> u64) \<times> string_ring) result"
where
  "read_string s =
     (if \<not> rs_resetting s \<and> rs_reading_begin s \<noteq> rs_cursor s AND rs_mask s
      then result_bind (ring_get (rs_reading_cursor s) 1 s)
        (\<lambda>flg. let s = s\<lparr>rs_reading_cursor := rs_reading_cursor s + 1\<rparr> in
          if flg = [flag_byte FLAG_SKIP] then
            let index = rs_reading_cursor s AND rs_mask s;
                s = s\<lparr>rs_reading_cursor := rs_reading_cursor s
                        + (if index \<noteq> 0 then rs_size s - index else 0)\<rparr>;
                s = s\<lparr>rs_reading_begin := rs_reading_cursor s AND rs_mask s\<rparr>
            in Done ((None, 0), s)
          else if flg = [flag_byte FLAG_INVALID] then
            result_bind (ring_get (rs_reading_cursor s) 4 s)
              (\<lambda>b. let len = u32_of_bytes b;
                       s = s\<lparr>rs_reading_cursor := rs_reading_cursor s + ucast (len + 4)\<rparr>;
                       s = s\<lparr>rs_reading_begin := rs_reading_cursor s AND rs_mask s\<rparr>
                   in Done ((None, 0), s))
          else
            result_bind (ring_get (rs_reading_cursor s) 4 s)
              (\<lambda>b. let len = u32_of_bytes b;
                       cur = rs_reading_cursor s + 4;
                       s = s\<lparr>rs_reading_cursor := rs_reading_cursor s + ucast (len + 4)\<rparr>;
                       str = cur AND rs_mask s;
                       s = s\<lparr>rs_reading_begin := rs_reading_cursor s AND rs_mask s\<rparr>
                   in Done ((Some str, ucast len), s)))
      else Done ((None, 0), s))"

text \<open>The bytes a returned pointer and length denote, at the time they are looked at.\<close>

definition string_at :: "string_ring \<Rightarrow> u64 option \<times> u64 \<Rightarrow> byte list" where
  "string_at s r = (case fst r of None \<Rightarrow> [] | Some off \<Rightarrow>
     chunk (rs_buffer s) (unat off) (unat (snd r)))"

text \<open>The caller's access to them: every byte of the returned range is read.\<close>

definition string_fetch :: "string_ring \<Rightarrow> u64 option \<times> u64 \<Rightarrow> byte list option result" where
  "string_fetch s r = (case fst r of None \<Rightarrow> Done None | Some off \<Rightarrow>
     result_bind (get (rs_buffer s) (unat off) (unat (snd r))) (\<lambda>bs. Done (Some bs)))"

section \<open>reset\<close>

definition reset_enter :: "string_ring \<Rightarrow> string_ring" where
  "reset_enter s = s\<lparr>rs_reset_count := rs_reset_count s + 1, rs_resetting := True\<rparr>"

definition reset_leave :: "string_ring \<Rightarrow> string_ring" where
  "reset_leave s =
     (let s = s\<lparr>rs_reserved := 0\<rparr>; s = s\<lparr>rs_cursor := 0\<rparr>;
          s = s\<lparr>rs_reading_cursor := rs_cursor s\<rparr>;
          s = s\<lparr>rs_writing_begin := 0\<rparr>; s = s\<lparr>rs_writing_cursor := 0\<rparr>;
          s = s\<lparr>rs_reading_begin := rs_reading_cursor s AND rs_mask s\<rparr>
      in s\<lparr>rs_resetting := False\<rparr>)"

definition reset_string ::
  "string_ring schedule \<Rightarrow> string_ring \<Rightarrow> (string_ring \<times> string_ring schedule) result"
where
  "reset_string sched s =
     result_bind (spin_while rs_writing sched (reset_enter s))
       (\<lambda>(s, sched). Done (reset_leave s, sched))"

section \<open>Whole calls\<close>

text \<open>
  A call during which no other thread changes the ring: the schedules are empty. \<open>ring_read\<close>
  delivers the bytes behind the returned pointer, \<open>None\<close> for the null pointer.
\<close>

definition ring_write :: "bool \<Rightarrow> byte list \<Rightarrow> u64 \<Rightarrow> string_ring \<Rightarrow> (bool \<times> string_ring) result" where
  "ring_write ndebug msg remaining s =
     result_bind (write_string ndebug msg remaining [] s) (\<lambda>(b, s, _). Done (b, s))"

definition ring_read :: "string_ring \<Rightarrow> (byte list option \<times> string_ring) result" where
  "ring_read s = result_bind (read_string s)
     (\<lambda>(r, s). result_bind (string_fetch s r) (\<lambda>m. Done (m, s)))"

definition ring_reset :: "string_ring \<Rightarrow> string_ring result" where
  "ring_reset s = result_bind (reset_string [] s) (\<lambda>(s, _). Done s)"

text \<open>Whole calls one after another.\<close>

definition ring_run ::
  "bool \<Rightarrow> queue_call list \<Rightarrow> string_ring \<Rightarrow> (queue_obs list \<times> string_ring) result"
where
  "ring_run ndebug = queue_run (ring_write ndebug) ring_read ring_reset"

text \<open>Only the observations, for evaluating closed runs.\<close>

definition ring_trace :: "bool \<Rightarrow> queue_call list \<Rightarrow> string_ring \<Rightarrow> queue_obs list result" where
  "ring_trace ndebug cs s = result_bind (ring_run ndebug cs s) (\<lambda>(obs, _). Done obs)"

end
