(* ===== verification/String_Ring_Fifo.thy ===== *)
theory String_Ring_Fifo
  imports String_Ring
begin

text \<open>
  What \<open>ring_string_buffer\<close> promises: a bounded FIFO of byte strings. The unread part of
  the ring is a list of frames (padding, messages, invalidated records); the invariant
  \<open>fifo_inv\<close> ties it to the cursors and the bytes, for a quiescent ring and for one with a
  partly written message. Under the capacity condition \<open>room\<close> the operations implement
  enqueue and dequeue, never spin, never leave the buffer and never fail an assertion.
\<close>

section \<open>Frames\<close>

datatype frame = Pad nat | Msg "byte list" | Bad nat

fun frame_size :: "frame \<Rightarrow> nat" where
  "frame_size (Pad n) = n"
| "frame_size (Msg bs) = 5 + length bs"
| "frame_size (Bad n) = 5 + n"

fun frames_size :: "frame list \<Rightarrow> nat" where
  "frames_size [] = 0"
| "frames_size (f # fs) = frame_size f + frames_size fs"

fun frame_at :: "byte list \<Rightarrow> nat \<Rightarrow> nat \<Rightarrow> frame \<Rightarrow> bool" where
  "frame_at buf N p (Pad n) \<longleftrightarrow> 0 < n \<and> p mod N + n = N
     \<and> chunk buf (p mod N) 1 = [flag_byte FLAG_SKIP]"
| "frame_at buf N p (Msg bs) \<longleftrightarrow> bs \<noteq> [] \<and> p mod N + (5 + length bs) < N
     \<and> chunk buf (p mod N) 1 = [flag_byte FLAG_OK]
     \<and> chunk buf (p mod N + 1) 4 = bytes_of_u32 (word_of_nat (length bs))
     \<and> chunk buf (p mod N + 5) (length bs) = bs"
| "frame_at buf N p (Bad n) \<longleftrightarrow> p mod N + (5 + n) < N
     \<and> chunk buf (p mod N) 1 = [flag_byte FLAG_INVALID]
     \<and> chunk buf (p mod N + 1) 4 = bytes_of_u32 (word_of_nat n)"

fun frames_at :: "byte list \<Rightarrow> nat \<Rightarrow> nat \<Rightarrow> frame list \<Rightarrow> bool" where
  "frames_at buf N p [] \<longleftrightarrow> True"
| "frames_at buf N p (f # fs) \<longleftrightarrow> frame_at buf N p f \<and> frames_at buf N (p + frame_size f) fs"

text \<open>The messages among the frames: the abstract queue.\<close>

fun frame_content :: "frame \<Rightarrow> byte list option" where
  "frame_content (Msg bs) = Some bs"
| "frame_content (Pad n) = None"
| "frame_content (Bad n) = None"

definition messages :: "frame list \<Rightarrow> byte list list" where
  "messages fs = List.map_filter frame_content fs"

lemma messages_simps [simp]:
  "messages [] = []"
  "messages (Pad n # fs) = messages fs"
  "messages (Bad n # fs) = messages fs"
  "messages (Msg bs # fs) = bs # messages fs"
  by (simp_all add: messages_def List.map_filter_def)

lemma messages_append [simp]: "messages (fs @ gs) = messages fs @ messages gs"
  by (simp add: messages_def List.map_filter_def)

lemma frames_size_append [simp]: "frames_size (fs @ gs) = frames_size fs + frames_size gs"
  by (induction fs) auto

lemma frames_at_append [simp]:
  "frames_at buf N p (fs @ gs) \<longleftrightarrow> frames_at buf N p fs \<and> frames_at buf N (p + frames_size fs) gs"
  by (induction fs arbitrary: p) (auto simp: add.assoc)

text \<open>Two ranges of positions at most one lap apart do not meet in the buffer.\<close>

lemma ranges_disjoint:
  fixes a q n m N :: nat
  assumes "a + n \<le> q" "q + m \<le> a + N" "a mod N + n \<le> N" "q mod N + m \<le> N" "0 < N"
  shows "a mod N + n \<le> q mod N \<or> q mod N + m \<le> a mod N"
proof (cases "a div N = q div N")
  case True
  then show ?thesis using assms(1) by (metis add.assoc add_le_cancel_left div_mult_mod_eq)
next
  case False
  moreover have "a div N \<le> q div N" using assms(1) by (simp add: div_le_mono)
  ultimately have "Suc (a div N) \<le> q div N" by simp
  then have "(a div N) * N + N \<le> (q div N) * N" by (metis mult_Suc add.commute mult_le_mono1)
  moreover have "q = (q div N) * N + q mod N" "a = (a div N) * N + a mod N" by simp_all
  ultimately have "q mod N + m \<le> a mod N" using assms(2) by linarith
  then show ?thesis ..
qed

lemma frame_at_within: "frame_at buf N p f \<Longrightarrow> p mod N + frame_size f \<le> N"
  by (cases f) auto

lemma frame_at_blit:
  assumes "frame_at buf N p f" "length buf = N" "0 < N"
    and "p + frame_size f \<le> q" "q + length bs \<le> p + N" "q mod N + length bs \<le> N"
  shows "frame_at (blit buf (q mod N) bs) N p f"
proof -
  from assms have "p mod N + frame_size f \<le> q mod N \<or> q mod N + length bs \<le> p mod N"
    by (intro ranges_disjoint frame_at_within) auto
  with assms show ?thesis by (cases f) (auto simp: chunk_blit_other)
qed

lemma frames_at_blit:
  assumes "frames_at buf N p fs" "length buf = N" "0 < N"
    and "p + frames_size fs \<le> q" "q + length bs \<le> p + N" "q mod N + length bs \<le> N"
  shows "frames_at (blit buf (q mod N) bs) N p fs"
  using assms
proof (induction fs arbitrary: p)
  case (Cons f fs)
  then have "frame_at (blit buf (q mod N) bs) N p f" by (intro frame_at_blit) auto
  moreover have "frames_at (blit buf (q mod N) bs) N (p + frame_size f) fs"
    using Cons.prems by (intro Cons.IH) auto
  ultimately show ?case by simp
qed simp

section \<open>The invariant\<close>

abbreviation ring_cap :: "string_ring \<Rightarrow> nat" where
  "ring_cap s \<equiv> unat (rs_size s)"

definition ring_wf :: "string_ring \<Rightarrow> bool" where
  "ring_wf s \<longleftrightarrow> is_pow2 (rs_size s) \<and> rs_mask s = rs_size s - 1
     \<and> length (rs_buffer s) = ring_cap s \<and> ring_cap s \<le> 2 ^ 32"

text \<open>The published, unread part of the ring holds the frames \<open>fs\<close>.\<close>

definition ring_frames :: "string_ring \<Rightarrow> frame list \<Rightarrow> bool" where
  "ring_frames s fs \<longleftrightarrow>
     rs_reading_begin s = rs_reading_cursor s AND rs_mask s
     \<and> unat (rs_cursor s) = unat (rs_reading_cursor s) + frames_size fs
     \<and> frames_size fs < ring_cap s
     \<and> frames_at (rs_buffer s) (ring_cap s) (unat (rs_reading_cursor s)) fs"

text \<open>
  The space \<open>[cursor_, reserved_)\<close> belongs to a message of \<open>length part + rem\<close> bytes, whose
  header and first bytes \<open>part\<close> have been stored.
\<close>

definition ring_reserved :: "string_ring \<Rightarrow> frame list \<Rightarrow> nat \<Rightarrow> bool" where
  "ring_reserved s fs tot \<longleftrightarrow>
     unat (rs_total s) = tot
     \<and> rs_writing_begin s = rs_cursor s
     \<and> unat (rs_reserved s) = unat (rs_cursor s) + tot
     \<and> unat (rs_cursor s) mod ring_cap s + tot < ring_cap s
     \<and> frames_size fs + tot < ring_cap s"

definition ring_partial :: "string_ring \<Rightarrow> frame list \<Rightarrow> byte list \<Rightarrow> nat \<Rightarrow> bool" where
  "ring_partial s fs part rem \<longleftrightarrow>
     (let p = unat (rs_cursor s) mod ring_cap s in
       ring_reserved s fs (5 + length part + rem)
       \<and> unat (rs_remaining s) = rem
       \<and> unat (rs_writing_cursor s) = unat (rs_cursor s) + 5 + length part
       \<and> chunk (rs_buffer s) p 1 = [flag_byte FLAG_OK]
       \<and> chunk (rs_buffer s) (p + 1) 4 = bytes_of_u32 (word_of_nat (length part + rem))
       \<and> chunk (rs_buffer s) (p + 5) (length part) = part)"

definition fifo_inv :: "string_ring \<Rightarrow> frame list \<Rightarrow> (byte list \<times> nat) option \<Rightarrow> bool" where
  "fifo_inv s fs w \<longleftrightarrow>
     ring_wf s \<and> \<not> rs_skip s \<and> \<not> rs_resetting s \<and> \<not> rs_writing s \<and> ring_frames s fs
     \<and> (case w of
          None \<Rightarrow> rs_reserved s = rs_cursor s \<and> rs_writing_cursor s = 0
        | Some (part, rem) \<Rightarrow> part \<noteq> [] \<and> 0 < rem \<and> ring_partial s fs part rem)"

text \<open>The bytes skipped at the end of the buffer, and room for a message of \<open>n\<close> bytes.\<close>

definition padding :: "string_ring \<Rightarrow> nat \<Rightarrow> nat" where
  "padding s n = (let i = unat (rs_reserved s) mod ring_cap s in
     if i + (n + 5) \<ge> ring_cap s then ring_cap s - i else 0)"

definition room :: "string_ring \<Rightarrow> nat \<Rightarrow> bool" where
  "room s n \<longleftrightarrow>
     unat (rs_reserved s) - unat (rs_reading_cursor s) + padding s n + (n + 5) < ring_cap s
     \<and> unat (rs_reserved s) + padding s n + (n + 5) < 2 ^ 64"

text \<open>Evaluation of \<open>room\<close> with binary numbers.\<close>

lemma room_code [code]:
  "room s n \<longleftrightarrow>
     unat (rs_reserved s) - unat (rs_reading_cursor s) + padding s n + (n + 5) < ring_cap s
     \<and> int (unat (rs_reserved s) + padding s n + (n + 5)) < 18446744073709551616"
proof -
  have "int m < 18446744073709551616 \<longleftrightarrow> m < 2 ^ 64" for m by simp
  then show ?thesis by (simp only: room_def)
qed

lemma ring_wf_pos: "ring_wf s \<Longrightarrow> 0 < ring_cap s"
  by (simp add: ring_wf_def is_pow2_pos)

lemma ring_index [ring_arith]:
  "ring_wf s \<Longrightarrow> unat (x AND rs_mask s) = unat x mod ring_cap s"
  by (simp add: ring_wf_def unat_mask)

lemma ring_wf_length [simp]: "ring_wf s \<Longrightarrow> length (rs_buffer s) = ring_cap s"
  by (simp add: ring_wf_def)

lemma ring_put_Done:
  "ring_wf s \<Longrightarrow> unat pos mod ring_cap s + length bs \<le> ring_cap s \<Longrightarrow>
   ring_put pos bs s = Done (s\<lparr>rs_buffer := blit (rs_buffer s) (unat pos mod ring_cap s) bs\<rparr>)"
  by (simp add: ring_put_def ring_index put_Done)

lemma ring_get_Done:
  "ring_wf s \<Longrightarrow> unat pos mod ring_cap s + n \<le> ring_cap s \<Longrightarrow>
   ring_get pos n s = Done (chunk (rs_buffer s) (unat pos mod ring_cap s) n)"
  by (simp add: ring_get_def ring_index get_Done)

lemma new_ring_inv:
  assumes "is_pow2 sz" "length mem = unat sz" "unat sz \<le> 2 ^ 32"
  shows "fifo_inv (string_ring_new mem sz) [] None"
  using assms is_pow2_pos[OF assms(1)]
  by (simp add: fifo_inv_def string_ring_new_def ring_wf_def ring_frames_def)


section \<open>The steps of write\<close>

text \<open>Every step leaves the shape of the ring alone.\<close>

lemma ring_wf_frame [simp]:
  "ring_wf (s\<lparr>rs_writing_begin := a\<rparr>) = ring_wf s"
  "ring_wf (s\<lparr>rs_writing_cursor := a\<rparr>) = ring_wf s"
  "ring_wf (s\<lparr>rs_reading_cursor := a\<rparr>) = ring_wf s"
  "ring_wf (s\<lparr>rs_reading_begin := a\<rparr>) = ring_wf s"
  "ring_wf (s\<lparr>rs_total := a\<rparr>) = ring_wf s"
  "ring_wf (s\<lparr>rs_remaining := a\<rparr>) = ring_wf s"
  "ring_wf (s\<lparr>rs_reset_count := c\<rparr>) = ring_wf s"
  "ring_wf (s\<lparr>rs_skip := b\<rparr>) = ring_wf s"
  "ring_wf (s\<lparr>rs_cursor := a\<rparr>) = ring_wf s"
  "ring_wf (s\<lparr>rs_reserved := a\<rparr>) = ring_wf s"
  "ring_wf (s\<lparr>rs_writing := b\<rparr>) = ring_wf s"
  "ring_wf (s\<lparr>rs_resetting := b\<rparr>) = ring_wf s"
  by (simp_all add: ring_wf_def)

lemma ring_wf_buffer [simp]:
  "ring_wf s \<Longrightarrow> length b = ring_cap s \<Longrightarrow> ring_wf (s\<lparr>rs_buffer := b\<rparr>)"
  by (simp add: ring_wf_def)

lemma notify_Done:
  "rs_cursor s = rs_writing_begin s \<Longrightarrow>
   notify num sched s = Done (s\<lparr>rs_cursor := rs_cursor s + num,
     rs_writing_begin := rs_writing_begin s + num\<rparr>, sched)"
  by (simp add: notify_def spin_while_exit)

text \<open>A state in which the space of a new message is being laid out, header not yet stored.\<close>

definition ring_laid_out :: "string_ring \<Rightarrow> frame list \<Rightarrow> nat \<Rightarrow> bool" where
  "ring_laid_out s fs tot \<longleftrightarrow> ring_wf s \<and> \<not> rs_skip s \<and> \<not> rs_resetting s
     \<and> ring_frames s fs \<and> ring_reserved s fs tot \<and> rs_writing_cursor s = rs_cursor s"

definition all_pads :: "frame list \<Rightarrow> bool" where
  "all_pads fs \<longleftrightarrow> (\<forall>f \<in> set fs. \<exists>n. f = Pad n)"

lemma all_pads_simps [simp]: "all_pads []" "all_pads [Pad n]"
  by (simp_all add: all_pads_def)

lemma all_pads_messages [simp]: "all_pads fs \<Longrightarrow> messages fs = []"
  by (induction fs) (auto simp: all_pads_def)

text \<open>The record that the padding of a message is, if it needs one.\<close>

definition pad_frames :: "nat \<Rightarrow> frame list" where
  "pad_frames k = (if k = 0 then [] else [Pad k])"

lemma all_pads_frames [simp]: "all_pads (pad_frames k)"
  by (simp add: pad_frames_def)

definition only_messages :: "frame list \<Rightarrow> bool" where
  "only_messages fs \<longleftrightarrow> (\<forall>f \<in> set fs. \<exists>bs. f = Msg bs)"

lemma only_messages_simps [simp]:
  "only_messages []" "only_messages (f # fs) \<longleftrightarrow> (\<exists>bs. f = Msg bs) \<and> only_messages fs"
  "only_messages (fs @ gs) \<longleftrightarrow> only_messages fs \<and> only_messages gs"
  by (auto simp: only_messages_def)

lemma room_reserved:
  assumes "ring_frames s fs" "rs_reserved s = rs_cursor s" "room s n"
  shows "frames_size fs + padding s n + (n + 5) < ring_cap s"
    and "unat (rs_cursor s) + padding s n + (n + 5) < 2 ^ 64"
  using assms by (auto simp: ring_frames_def room_def)

lemma write_reserve_Done:
  assumes wf: "ring_wf s" and flags: "\<not> rs_skip s" "\<not> rs_resetting s"
    and fr: "ring_frames s fs" and idle: "rs_reserved s = rs_cursor s"
    and room: "room s n" and tot: "unat (rs_total s) = n + 5"
  shows "\<exists>t. write_reserve sched s = Done (t, sched)
     \<and> ring_laid_out t (fs @ pad_frames (padding s n)) (n + 5)
     \<and> rs_remaining t = rs_remaining s \<and> rs_reset_count t = rs_reset_count s
     \<and> rs_writing t = rs_writing s \<and> rs_size t = rs_size s"
proof -
  let ?N = "ring_cap s" and ?c = "unat (rs_cursor s)"
  note r = room_reserved[OF fr idle room]
  have N: "0 < ?N" "?N \<le> 2 ^ 32" using wf by (simp_all add: ring_wf_pos) (simp add: ring_wf_def)
  have cN: "?c mod ?N < ?N" using N(1) by simp
  have ix: "unat (rs_cursor s AND rs_mask s) = ?c mod ?N" using wf by (rule ring_index)
  have "(2::nat) ^ 32 + 2 ^ 32 < 2 ^ 64" by simp
  then have "?c mod ?N + (n + 5) < 2 ^ 64" using cN N r(1) by linarith
  then have sum: "unat ((rs_cursor s AND rs_mask s) + rs_total s) = ?c mod ?N + (n + 5)"
    using ix tot by (simp add: unat_add_bounded)
  have rtot: "unat (rs_cursor s + rs_total s) = ?c + (n + 5)"
    using r(2) tot by (simp add: unat_add_bounded)
  show ?thesis
  proof (cases "?c mod ?N + (n + 5) \<ge> ?N")
    case False
    let ?t = "s\<lparr>rs_writing_begin := rs_reserved s, rs_writing_cursor := rs_reserved s,
                rs_reserved := rs_reserved s + rs_total s\<rparr>"
    have "write_reserve sched s = Done (?t, sched)"
      using False sum idle by (simp add: write_reserve_def Let_def word_le_nat_alt)
    moreover have "ring_laid_out ?t (fs @ []) (n + 5)"
      using wf flags fr idle r(1) rtot tot False
      by (simp add: ring_laid_out_def ring_frames_def ring_reserved_def)
    moreover have "padding s n = 0" using False idle by (simp add: padding_def Let_def)
    ultimately show ?thesis by (intro exI[of _ ?t]) (simp add: pad_frames_def)
  next
    case True
    define k where "k = ?N - ?c mod ?N"
    define pad where "pad = rs_size s - (rs_cursor s AND rs_mask s)"
    have pad: "unat pad = k" using ix cN by (simp add: pad_def k_def unat_sub_bounded)
    have kp: "padding s n = k" using True idle by (simp add: padding_def Let_def k_def)
    have k: "0 < k" "?c mod ?N + k = ?N" using cN by (simp_all add: k_def)
    define b where "b = blit (rs_buffer s) (?c mod ?N) [flag_byte FLAG_SKIP]"
    define t where "t = s\<lparr>rs_writing_begin := rs_cursor s + pad, rs_writing_cursor := rs_cursor s + pad,
      rs_reserved := rs_cursor s + rs_total s + pad, rs_buffer := b, rs_cursor := rs_cursor s + pad\<rparr>"
    have "write_reserve sched s = Done (t, sched)"
      using True sum idle wf cN
      by (simp add: write_reserve_def Let_def word_le_nat_alt ring_put_Done notify_Done
          t_def b_def pad_def)
    moreover have "ring_laid_out t (fs @ [Pad k]) (n + 5)"
    proof -
      have cur: "unat (rs_cursor t) = ?c + k"
        using r(2) kp pad by (simp add: t_def unat_add_bounded)
      have res: "unat (rs_reserved t) = ?c + k + (n + 5)"
        using r(2) kp pad rtot by (simp add: t_def unat_add_bounded)
      have bl: "length b = ?N" using wf cN by (simp add: b_def)
      have "frames_at b ?N (unat (rs_reading_cursor s)) fs"
        unfolding b_def using fr wf r(1) N cN
        by (intro frames_at_blit) (auto simp: ring_frames_def Suc_le_eq ring_wf_pos)
      moreover have "frame_at b ?N ?c (Pad k)"
        using k wf cN chunk_blit_same[of "?c mod ?N" "[flag_byte FLAG_SKIP]" "rs_buffer s"]
        by (simp add: b_def)
      ultimately have "ring_frames t (fs @ [Pad k])"
        using fr r(1) kp cur by (simp add: ring_frames_def t_def)
      moreover have "ring_reserved t (fs @ [Pad k]) (n + 5)"
        using r(1) kp cur res tot mod_add_pad[OF k(2)]
        by (simp add: ring_reserved_def t_def)
      ultimately show ?thesis
        using wf flags bl by (simp add: ring_laid_out_def t_def)
    qed
    ultimately show ?thesis using k(1) by (intro exI[of _ t]) (simp add: t_def pad_frames_def kp)
  qed
qed

text \<open>When the message fits, the loop that waits for a slow consumer is left at once.\<close>

lemma no_overlap:
  assumes "ring_laid_out s fs tot"
  shows "\<not> overlap (rs_writing_cursor s AND rs_mask s)
            ((rs_writing_cursor s + rs_total s) AND rs_mask s) s"
proof -
  let ?N = "ring_cap s" and ?c = "unat (rs_cursor s)" and ?r = "unat (rs_reading_cursor s)"
  from assms have wf: "ring_wf s" and fr: "ring_frames s fs" and res: "ring_reserved s fs tot"
    and wc: "rs_writing_cursor s = rs_cursor s" by (auto simp: ring_laid_out_def)
  have N: "0 < ?N" using wf by (rule ring_wf_pos)
  from fr res have cr: "?r \<le> ?c" "?c + tot \<le> ?r + ?N" "?c mod ?N + tot < ?N"
    by (auto simp: ring_frames_def ring_reserved_def)
  have "unat (rs_cursor s + rs_total s) = ?c + tot"
    using res unsigned_less[of "rs_reserved s", where 'a = nat]
    by (simp add: ring_reserved_def unat_add_bounded)
  then have "unat ((rs_cursor s + rs_total s) AND rs_mask s) = ?c mod ?N + tot"
    using wf cr(3) by (simp add: ring_index mod_add_within)
  moreover have "unat (rs_cursor s AND rs_mask s) = ?c mod ?N" using wf by (rule ring_index)
  moreover have "unat (rs_reading_begin s) = ?r mod ?N"
    using wf fr by (simp add: ring_frames_def ring_index)
  moreover have "?r mod ?N \<le> ?c mod ?N \<or> ?c mod ?N + tot \<le> ?r mod ?N"
    using ranges_disjoint[of ?r 0 ?c tot ?N] cr N by simp
  ultimately show ?thesis by (auto simp: overlap_def wc word_less_nat_alt)
qed

lemma write_wait_Done: "ring_laid_out s fs tot \<Longrightarrow> write_wait sched s = Done (s, sched)"
  by (simp add: write_wait_def Let_def spin_while_exit no_overlap)

lemma length_field:
  assumes "unat (w :: u64) = n + 5"
  shows "(ucast w - 5 :: u32) = word_of_nat n"
proof -
  have "(ucast w :: u32) = word_of_nat (n + 5)" by (metis assms of_nat_unat)
  then show ?thesis by simp
qed

lemma write_header_Done:
  assumes "ring_laid_out s fs (n + 5)"
  shows "\<exists>t. write_header s = Done t \<and> ring_wf t \<and> \<not> rs_skip t \<and> \<not> rs_resetting t
    \<and> ring_frames t fs
    \<and> (rs_remaining t = rs_remaining s \<and> rs_size t = rs_size s \<and> rs_cursor t = rs_cursor s
       \<and> rs_reading_cursor t = rs_reading_cursor s \<and> rs_reset_count t = rs_reset_count s)
    \<and> (unat (rs_remaining s) = n \<longrightarrow> ring_partial t fs [] n)"
proof -
  let ?N = "ring_cap s" and ?c = "unat (rs_cursor s)"
  let ?h = "bytes_of_u32 (ucast (rs_total s) - 5)"
  from assms have wf: "ring_wf s" and fr: "ring_frames s fs" and res: "ring_reserved s fs (n + 5)"
    and wc: "rs_writing_cursor s = rs_cursor s" and fl: "\<not> rs_skip s" "\<not> rs_resetting s"
    by (auto simp: ring_laid_out_def)
  have N: "0 < ?N" using wf by (rule ring_wf_pos)
  from res have cN: "?c mod ?N + (n + 5) < ?N" and tot: "unat (rs_total s) = n + 5"
    and small: "?c + (n + 5) < 2 ^ 64"
    using unsigned_less[of "rs_reserved s", where 'a = nat] by (auto simp: ring_reserved_def)
  define b1 where "b1 = blit (rs_buffer s) (?c mod ?N) [flag_byte FLAG_OK]"
  define b2 where "b2 = blit b1 (?c mod ?N + 1) ?h"
  define t where "t = s\<lparr>rs_writing_cursor := rs_cursor s + 1 + 4, rs_buffer := b2\<rparr>"
  have b1: "length b1 = ?N" using wf cN by (simp add: b1_def)
  have u1: "unat (rs_cursor s + 1) = ?c + 1" using small by (simp add: unat_add_bounded)
  then have m1: "unat (rs_cursor s + 1) mod ?N = ?c mod ?N + 1" 
    using cN mod_add_within[of ?c ?N 1] by simp
  have u5: "unat (rs_cursor s + 1 + 4) = ?c + 5" using small u1 by (simp add: unat_add_bounded)
  have "write_header s = Done t"
    using wf cN m1 b1
    by (simp add: write_header_def wc ring_put_Done Let_def b1_def b2_def t_def)
  moreover have "ring_frames t fs"
  proof -
    have "frames_at b1 ?N (unat (rs_reading_cursor s)) fs"
      unfolding b1_def using fr wf res cN N
      by (intro frames_at_blit) (auto simp: ring_frames_def ring_reserved_def Suc_le_eq)
    then have "frames_at b2 ?N (unat (rs_reading_cursor s)) fs"
      unfolding b2_def using fr res cN b1 N mod_add_within[of ?c ?N 1]
        frames_at_blit[of b1 ?N "unat (rs_reading_cursor s)" fs "?c + 1" ?h]
      by (auto simp: ring_frames_def ring_reserved_def)
    then show ?thesis using fr by (simp add: ring_frames_def t_def)
  qed
  moreover have "ring_partial t fs [] n" if "unat (rs_remaining s) = n"
  proof -
    have "chunk b1 (?c mod ?N) 1 = [flag_byte FLAG_OK]"
      using wf cN chunk_blit_same[of "?c mod ?N" "[flag_byte FLAG_OK]" "rs_buffer s"]
      by (simp add: b1_def)
    then show ?thesis
      using that wf res tot u5 cN b1 length_field[OF tot] chunk_blit_same[of "?c mod ?N + 1" ?h b1]
      by (simp add: ring_partial_def ring_reserved_def t_def b2_def chunk_blit_other add.commute)
  qed
  moreover have "ring_wf t" using wf b1 cN by (simp add: t_def b2_def)
  ultimately show ?thesis using fl by (intro exI[of _ t]) (auto simp: t_def)
qed

text \<open>
  Copying the next bytes of a message whose space is reserved; with the last bytes the
  message is published.
\<close>

lemma write_body_Done:
  assumes wf: "ring_wf s" and flags: "\<not> rs_skip s" "\<not> rs_resetting s"
    and fr: "ring_frames s fs" and par: "ring_partial s fs part (length msg + unat remaining)"
    and msg: "msg \<noteq> []"
  shows "\<exists>t. write_body ndebug msg (word_of_nat (length msg)) remaining sched s = Done (t, sched)
     \<and> (if remaining = 0 then fifo_inv (t\<lparr>rs_writing := False\<rparr>) (fs @ [Msg (part @ msg)]) None
        else fifo_inv (t\<lparr>rs_writing := False\<rparr>) fs (Some (part @ msg, unat remaining)))"
proof -
  let ?N = "ring_cap s" and ?c = "unat (rs_cursor s)" and ?l = "length msg" and ?k = "length part"
  let ?len = "word_of_nat ?l :: u64"
  have N: "0 < ?N" "?N \<le> 2 ^ 32" using wf by (simp_all add: ring_wf_pos) (simp add: ring_wf_def)
  from par have res: "ring_reserved s fs (5 + ?k + (?l + unat remaining))"
    and rem: "unat (rs_remaining s) = ?l + unat remaining"
    and wcur: "unat (rs_writing_cursor s) = ?c + 5 + ?k"
    and hdr: "chunk (rs_buffer s) (?c mod ?N) 1 = [flag_byte FLAG_OK]"
      "chunk (rs_buffer s) (?c mod ?N + 1) 4 = bytes_of_u32 (word_of_nat (?k + (?l + unat remaining)))"
      "chunk (rs_buffer s) (?c mod ?N + 5) ?k = part"
    by (auto simp: ring_partial_def Let_def)
  from res have cN: "?c mod ?N + (5 + ?k + (?l + unat remaining)) < ?N"
    and cap: "frames_size fs + (5 + ?k + (?l + unat remaining)) < ?N"
    and small: "?c + (5 + ?k + (?l + unat remaining)) < 2 ^ 64"
    using unsigned_less[of "rs_reserved s", where 'a = nat] by (auto simp: ring_reserved_def)
  have len: "unat ?len = ?l" using small by (simp add: unat_of_nat)
  have rem': "rs_remaining s - ?len = remaining"
    using rem len by (simp add: word_unat_eq_iff unat_sub_bounded)
  have wm: "unat (rs_writing_cursor s) mod ?N = ?c mod ?N + 5 + ?k"
    using cN mod_add_within[of ?c ?N "5 + ?k"] by (simp add: wcur add.assoc)
  define b where "b = blit (rs_buffer s) (?c mod ?N + 5 + ?k) msg"
  define t1 where "t1 = s\<lparr>rs_remaining := remaining, rs_buffer := b,
      rs_writing_cursor := rs_writing_cursor s + ?len\<rparr>"
  have bl: "length b = ?N" using wf cN by (simp add: b_def)
  have put: "ring_put (rs_writing_cursor s) msg (s\<lparr>rs_remaining := remaining\<rparr>)
      = Done (s\<lparr>rs_remaining := remaining, rs_buffer := b\<rparr>)"
    using wf cN by (simp add: ring_put_Done wm b_def)
  have fb: "frames_at b ?N (unat (rs_reading_cursor s)) fs"
    unfolding b_def wm[symmetric] using fr wf cap cN N wcur wm
    by (intro frames_at_blit) (auto simp: ring_frames_def)
  have hb: "chunk b (?c mod ?N) 1 = [flag_byte FLAG_OK]"
      "chunk b (?c mod ?N + 1) 4 = bytes_of_u32 (word_of_nat (?k + (?l + unat remaining)))"
    using hdr(1,2) wf cN by (simp_all add: b_def chunk_blit_other)
  have "chunk b (?c mod ?N + 5) (?k + ?l) = chunk b (?c mod ?N + 5) ?k @ chunk b (?c mod ?N + 5 + ?k) ?l"
    using bl cN by (intro chunk_add) auto
  also have "\<dots> = part @ msg"
    using hdr(3) wf cN chunk_blit_same[of "?c mod ?N + 5 + ?k" msg "rs_buffer s"]
    by (simp add: b_def chunk_blit_other)
  finally have cb: "chunk b (?c mod ?N + 5) (?k + ?l) = part @ msg" .
  show ?thesis
  proof (cases "remaining = 0")
    case False
    have "write_body ndebug msg ?len remaining sched s = Done (t1, sched)"
      using False flags by (simp add: write_body_def Let_def rem' put t1_def)
    moreover have "unat (rs_writing_cursor s + ?len) = ?c + 5 + (?k + ?l)"
      using small wcur len by (simp add: unat_add_bounded)
    then have "ring_partial t1 fs (part @ msg) (unat remaining)"
      using res hb cb wcur by (simp add: ring_partial_def ring_reserved_def t1_def add.assoc)
    moreover have "ring_frames t1 fs" using fr fb by (simp add: ring_frames_def t1_def)
    moreover have "0 < unat remaining" using False by (simp add: unat_gt_0)
    ultimately show ?thesis
      using False flags wf bl msg
      by (intro exI[of _ t1]) (simp add: fifo_inv_def t1_def ring_partial_def ring_reserved_def ring_frames_def)
  next
    case True
    define t where "t = s\<lparr>rs_remaining := 0, rs_buffer := b, rs_writing_cursor := 0,
      rs_cursor := rs_cursor s + rs_total s, rs_writing_begin := rs_cursor s + rs_total s, rs_skip := False\<rparr>"
    have "write_body ndebug msg ?len remaining sched s = Done (t, sched)"
      using True flags res rem' put
      by (simp add: write_body_def Let_def notify_Done ring_reserved_def t_def)
    moreover have tot: "unat (rs_total s) = 5 + ?k + ?l" using res True by (simp add: ring_reserved_def)
    moreover have cur: "unat (rs_cursor s + rs_total s) = ?c + (5 + ?k + ?l)"
      using small tot True by (simp add: unat_add_bounded)
    moreover have "rs_reserved s = rs_cursor s + rs_total s"
      using res cur True by (simp add: ring_reserved_def word_unat_eq_iff)
    moreover have "frame_at b ?N ?c (Msg (part @ msg))"
      using msg cN hb cb True by (simp add: add.assoc)
    then have "ring_frames t (fs @ [Msg (part @ msg)])"
      using fr fb cap cur True by (simp add: ring_frames_def t_def)
    ultimately show ?thesis
      using True flags wf bl
      by (intro exI[of _ t]) (simp add: fifo_inv_def t_def ring_frames_def)
  qed
qed

section \<open>The operations\<close>

lemma write_first_frames:
  assumes inv: "fifo_inv s fs None" and msg: "msg \<noteq> []"
    and room: "room s (length msg + unat remaining)"
  defines "pre \<equiv> pad_frames (padding s (length msg + unat remaining))"
  shows "\<exists>t. write_string ndebug msg remaining sched s = Done (True, t, sched)
     \<and> (if remaining = 0 then fifo_inv t (fs @ pre @ [Msg msg]) None
        else fifo_inv t (fs @ pre) (Some (msg, unat remaining)))"
proof -
  let ?len = "word_of_nat (length msg) :: u64" and ?n = "length msg + unat remaining"
  from inv have wf: "ring_wf s" and fl: "\<not> rs_skip s" "\<not> rs_resetting s" and fr: "ring_frames s fs"
    and idle: "rs_reserved s = rs_cursor s" "rs_writing_cursor s = 0" by (auto simp: fifo_inv_def)
  note r = room_reserved[OF fr idle(1) room]
  have N: "ring_cap s \<le> 2 ^ 32" using wf by (simp add: ring_wf_def)
  have len: "unat ?len = length msg" using r(2) by (simp add: unat_of_nat)
  have n: "unat (?len + remaining) = ?n" using r(2) len by (simp add: unat_add_bounded)
  have n5: "unat (?len + remaining + 5) = ?n + 5" using r(2) n by (simp add: unat_add_bounded)
  have nz: "?len \<noteq> 0" using len msg by (metis length_0_conv unat_0)
  define s0 where "s0 = s\<lparr>rs_writing := True, rs_total := ?len + remaining + 5,
      rs_remaining := ?len + remaining\<rparr>"
  have "\<exists>t. write_reserve sched s0 = Done (t, sched)
     \<and> ring_laid_out t (fs @ pad_frames (padding s0 ?n)) (?n + 5) \<and> rs_remaining t = rs_remaining s0
     \<and> rs_reset_count t = rs_reset_count s0 \<and> rs_writing t = rs_writing s0 \<and> rs_size t = rs_size s0"
    using wf fl fr idle room n5
    by (intro write_reserve_Done) (auto simp: s0_def ring_frames_def room_def padding_def Let_def)
  moreover have "padding s0 ?n = padding s ?n" by (simp add: s0_def padding_def Let_def)
  ultimately obtain t1 where t1: "write_reserve sched s0 = Done (t1, sched)"
    "ring_laid_out t1 (fs @ pre) (?n + 5)" "rs_remaining t1 = ?len + remaining"
    "rs_reset_count t1 = rs_reset_count s"
    by (auto simp: s0_def pre_def)
  from write_header_Done[OF t1(2)] obtain t2 where t2: "write_header t1 = Done t2"
    "ring_wf t2" "\<not> rs_skip t2" "\<not> rs_resetting t2" "ring_frames t2 (fs @ pre)"
    "ring_partial t2 (fs @ pre) [] ?n"
    using t1(3) n by auto
  have "\<not> rs_size s0 \<le> rs_total s0" using r(1) n5 by (simp add: word_le_nat_alt s0_def)
  then have op: "write_open ndebug (rs_reset_count s) ?len remaining sched (s\<lparr>rs_writing := True\<rparr>)
      = Done (None, t2, sched)"
    using t1 t2 by (simp add: write_open_def Let_def s0_def[symmetric] write_wait_Done)
  obtain t3 where t3: "write_body ndebug msg ?len remaining sched t2 = Done (t3, sched)"
    "if remaining = 0 then fifo_inv (t3\<lparr>rs_writing := False\<rparr>) ((fs @ pre) @ [Msg ([] @ msg)]) None
        else fifo_inv (t3\<lparr>rs_writing := False\<rparr>) (fs @ pre) (Some ([] @ msg, unat remaining))"
    using write_body_Done[OF t2(2,3,4,5), of "[]" msg remaining ndebug sched] t2(6) msg by auto
  have "write_string ndebug msg remaining sched s = Done (True, t3\<lparr>rs_writing := False\<rparr>, sched)"
    using fl nz idle(2) op t3(1) by (simp add: write_string_def Let_def)
  with t3(2) show ?thesis by (intro exI[of _ "t3\<lparr>rs_writing := False\<rparr>"]) auto
qed

lemma write_first:
  assumes "fifo_inv s fs None" "msg \<noteq> []" "room s (length msg + unat remaining)"
  shows "\<exists>t pre. write_string ndebug msg remaining sched s = Done (True, t, sched) \<and> all_pads pre
     \<and> (if remaining = 0 then fifo_inv t (fs @ pre @ [Msg msg]) None
        else fifo_inv t (fs @ pre) (Some (msg, unat remaining)))"
  using write_first_frames[OF assms] all_pads_frames by blast

lemma write_more:
  assumes inv: "fifo_inv s fs (Some (part, rem))" and msg: "msg \<noteq> []"
    and fit: "length msg + unat remaining = rem"
  shows "\<exists>t. write_string ndebug msg remaining sched s = Done (True, t, sched)
     \<and> (if remaining = 0 then fifo_inv t (fs @ [Msg (part @ msg)]) None
        else fifo_inv t fs (Some (part @ msg, unat remaining)))"
proof -
  let ?len = "word_of_nat (length msg) :: u64" and ?s = "s\<lparr>rs_writing := True\<rparr>"
  from inv have wf: "ring_wf ?s" and fl: "\<not> rs_skip ?s" "\<not> rs_resetting ?s"
    and fr: "ring_frames ?s fs" and par: "ring_partial ?s fs part (length msg + unat remaining)"
    by (auto simp: fifo_inv_def fit ring_frames_def ring_partial_def ring_reserved_def)
  from par have "unat (rs_reserved s) = unat (rs_cursor s) + (5 + length part + (length msg + unat remaining))"
    "unat (rs_writing_cursor s) = unat (rs_cursor s) + 5 + length part"
    by (auto simp: ring_partial_def ring_reserved_def Let_def)
  then have len: "unat ?len = length msg" and wc: "rs_writing_cursor s \<noteq> 0"
    using unsigned_less[of "rs_reserved s", where 'a = nat] by (auto simp: unat_of_nat)
  have nz: "?len \<noteq> 0" using len msg by (metis length_0_conv unat_0)
  from write_body_Done[OF wf fl fr par msg, of ndebug sched] obtain t where
    t: "write_body ndebug msg ?len remaining sched ?s = Done (t, sched)"
    "if remaining = 0 then fifo_inv (t\<lparr>rs_writing := False\<rparr>) (fs @ [Msg (part @ msg)]) None
        else fifo_inv (t\<lparr>rs_writing := False\<rparr>) fs (Some (part @ msg, unat remaining))" by blast
  then show ?thesis
    using fl nz wc by (intro exI[of _ "t\<lparr>rs_writing := False\<rparr>"]) (simp add: write_string_def Let_def)
qed

lemma reset_Done:
  assumes "fifo_inv s fs w"
  shows "reset_string sched s = Done (reset_leave (reset_enter s), sched)"
    and "fifo_inv (reset_leave (reset_enter s)) [] None"
  using assms
  by (auto simp: reset_string_def reset_enter_def reset_leave_def spin_while_exit fifo_inv_def
      ring_frames_def ring_wf_pos)

lemma read_nil:
  assumes "fifo_inv s [] w"
  shows "read_string s = Done ((None, 0), s)"
proof -
  from assms have "rs_cursor s = rs_reading_cursor s" "rs_reading_begin s = rs_reading_cursor s AND rs_mask s"
    by (auto simp: fifo_inv_def ring_frames_def word_unat_eq_iff)
  then show ?thesis by (simp add: read_string_def)
qed

text \<open>Reading the record at the front.\<close>

lemma ring_front:
  assumes "ring_frames s (f # fs)" "ring_wf s"
  shows "frame_at (rs_buffer s) (ring_cap s) (unat (rs_reading_cursor s)) f"
    and "0 < frame_size f"
    and "unat (rs_reading_cursor s) + frame_size f \<le> unat (rs_cursor s)"
    and "unat (rs_reading_cursor s) + frame_size f < 2 ^ 64"
    and "rs_reading_begin s \<noteq> rs_cursor s AND rs_mask s"
    and "unat (rs_reading_cursor s) mod ring_cap s + frame_size f \<le> ring_cap s"
proof -
  let ?r = "unat (rs_reading_cursor s)" and ?c = "unat (rs_cursor s)" and ?N = "ring_cap s"
  from assms show fa: "frame_at (rs_buffer s) ?N ?r f" by (simp add: ring_frames_def)
  then show pos: "0 < frame_size f" by (cases f) auto
  from fa show "?r mod ?N + frame_size f \<le> ?N" by (rule frame_at_within)
  from assms show le: "?r + frame_size f \<le> ?c" by (simp add: ring_frames_def)
  then show "?r + frame_size f < 2 ^ 64"
    using unsigned_less[of "rs_cursor s", where 'a = nat] by simp
  have "?c - ?r < ?N" using assms by (simp add: ring_frames_def)
  then have "?r mod ?N \<noteq> ?c mod ?N" using mod_eq_close[of ?r ?N ?c] le pos by auto
  moreover have "unat (rs_reading_begin s) = ?r mod ?N"
    using assms by (simp add: ring_frames_def ring_index)
  moreover have "unat (rs_cursor s AND rs_mask s) = ?c mod ?N" using assms(2) by (rule ring_index)
  ultimately show "rs_reading_begin s \<noteq> rs_cursor s AND rs_mask s" by metis
qed

text \<open>After the record the reader stands on the next frame, and the writer is undisturbed.\<close>

lemma advance_inv:
  assumes inv: "fifo_inv s (f # fs) w"
    and c: "unat c = unat (rs_reading_cursor s) + frame_size f"
  shows "fifo_inv (s\<lparr>rs_reading_cursor := c, rs_reading_begin := c AND rs_mask s\<rparr>) fs w"
  using inv c
  by (auto simp: fifo_inv_def ring_frames_def ring_partial_def ring_reserved_def Let_def
      split: option.splits)

lemma record_step:
  assumes "unat (p :: u64) + (5 + n) < 2 ^ 64" "5 + n < (2::nat) ^ 32"
  shows "unat (p + 1 + ucast (word_of_nat n + 4 :: u32)) = unat p + (5 + n)"
    and "unat (ucast (word_of_nat n :: u32) :: u64) = n"
proof -
  have n: "unat (word_of_nat n :: u32) = n" using assms(2) by (simp add: unat_of_nat)
  then show "unat (ucast (word_of_nat n :: u32) :: u64) = n" by simp
  have "unat (word_of_nat n + 4 :: u32) = n + 4"
    using n assms(2) by (simp add: unat_word_ariths)
  then have "unat (ucast (word_of_nat n + 4 :: u32) :: u64) = n + 4"
    by simp
  moreover have "unat (p + 1) = unat p + 1" using assms(1) by (simp add: unat_add_bounded)
  ultimately show "unat (p + 1 + ucast (word_of_nat n + 4 :: u32)) = unat p + (5 + n)"
    using assms(1) by (simp add: unat_add_bounded)
qed

lemma read_cons:
  assumes inv: "fifo_inv s (f # fs) w"
  shows "\<exists>r t. read_string s = Done (r, t) \<and> fifo_inv t fs w \<and> rs_buffer t = rs_buffer s
     \<and> map_option (\<lambda>_. string_at t r) (fst r) = frame_content f
     \<and> string_fetch t r = Done (frame_content f)
     \<and> (fst r = None \<longrightarrow> r = (None, 0))"
proof -
  let ?r = "unat (rs_reading_cursor s)" and ?N = "ring_cap s"
  from inv have wf: "ring_wf s" and fr: "ring_frames s (f # fs)" and nr: "\<not> rs_resetting s"
    by (auto simp: fifo_inv_def)
  note F = ring_front[OF fr wf]
  have N: "?N \<le> 2 ^ 32" using wf by (simp add: ring_wf_def)
  have r1: "unat (rs_reading_cursor s + 1) = ?r + 1" using F(2,4) by (simp add: unat_add_bounded)
  show ?thesis
  proof (cases f)
    case (Pad n)
    define idx where "idx = (rs_reading_cursor s + 1) AND rs_mask s"
    define c where "c = rs_reading_cursor s + 1 + (if idx \<noteq> 0 then rs_size s - idx else 0)"
    have fa: "?r mod ?N + n = ?N" "0 < n" "chunk (rs_buffer s) (?r mod ?N) 1 = [flag_byte FLAG_SKIP]"
      using F(1) Pad by auto
    have "unat c = ?r + n"
    proof (cases "n = 1")
      case True
      then have "(?r + 1) mod ?N = 0" using fa(1) mod_add_pad[of ?r ?N 1] by simp
      then have "idx = 0" using wf r1 by (simp add: idx_def word_unat_eq_iff ring_index)
      then show ?thesis using True r1 by (simp add: c_def)
    next
      case False
      then have "?r mod ?N + 1 < ?N" using fa by linarith
      then have ix: "unat idx = ?r mod ?N + 1"
        using wf r1 mod_add_within[of ?r ?N 1] by (simp add: idx_def ring_index)
      moreover have "unat (rs_size s - idx) = ?N - (?r mod ?N + 1)"
        using ix fa by (subst unat_sub_bounded) auto
      ultimately show ?thesis
        using fa F(4) r1 Pad by (simp add: c_def unat_add_bounded unat_eq_0 flip: unat_gt_0)
    qed
    then have "fifo_inv (s\<lparr>rs_reading_cursor := c, rs_reading_begin := c AND rs_mask s\<rparr>) fs w"
      using inv Pad by (intro advance_inv) auto
    moreover have "read_string s = Done ((None, 0),
        s\<lparr>rs_reading_cursor := c, rs_reading_begin := c AND rs_mask s\<rparr>)"
      using nr F(5,6) fa wf Pad
      by (simp add: read_string_def ring_get_Done Let_def c_def idx_def)
    ultimately show ?thesis using Pad by (auto simp: string_fetch_def)
  next
    case (Msg bs)
    let ?n = "length bs"
    define c where "c = rs_reading_cursor s + 1 + ucast (word_of_nat ?n + 4 :: u32)"
    define str where "str = (rs_reading_cursor s + 1 + 4) AND rs_mask s"
    have fa: "?r mod ?N + (5 + ?n) < ?N" "chunk (rs_buffer s) (?r mod ?N) 1 = [flag_byte FLAG_OK]"
      "chunk (rs_buffer s) (?r mod ?N + 1) 4 = bytes_of_u32 (word_of_nat ?n)"
      "chunk (rs_buffer s) (?r mod ?N + 5) ?n = bs"
      using F(1) Msg by auto
    have small: "5 + ?n < (2::nat) ^ 32" using fa(1) N by linarith
    note st = record_step[of "rs_reading_cursor s" ?n, OF _ small]
    have c: "unat c = ?r + (5 + ?n)" and n: "unat (ucast (word_of_nat ?n :: u32) :: u64) = ?n"
      using st F(4) Msg by (simp_all add: c_def)
    let ?t = "s\<lparr>rs_reading_cursor := c, rs_reading_begin := c AND rs_mask s\<rparr>"
    have rd: "read_string s = Done ((Some str, ucast (word_of_nat ?n :: u32)), ?t)"
      using nr F(5) fa wf r1 mod_add_within[of ?r ?N 1]
      by (simp add: read_string_def ring_get_Done Let_def c_def str_def)
    have "unat (rs_reading_cursor s + 1 + 4) = ?r + 5"
      using r1 F(4) Msg by (simp add: unat_add_bounded)
    then have "unat str = ?r mod ?N + 5"
      using wf fa(1) mod_add_within[of ?r ?N 5] by (simp add: str_def ring_index)
    then have at: "string_at ?t (Some str, ucast (word_of_nat ?n :: u32)) = bs"
      and "string_fetch ?t (Some str, ucast (word_of_nat ?n :: u32)) = Done (Some bs)"
      using n fa(1,4) wf by (simp_all add: string_at_def string_fetch_def get_Done ring_wf_def)
    moreover have "fifo_inv ?t fs w" using inv Msg c by (intro advance_inv) auto
    ultimately show ?thesis using rd Msg at by (intro exI[of _ "(Some str, ucast (word_of_nat ?n :: u32))"] exI[of _ ?t]) simp
  next
    case (Bad n)
    define c where "c = rs_reading_cursor s + 1 + ucast (word_of_nat n + 4 :: u32)"
    have fa: "?r mod ?N + (5 + n) < ?N" "chunk (rs_buffer s) (?r mod ?N) 1 = [flag_byte FLAG_INVALID]"
      "chunk (rs_buffer s) (?r mod ?N + 1) 4 = bytes_of_u32 (word_of_nat n)"
      using F(1) Bad by auto
    have small: "5 + n < (2::nat) ^ 32" using fa(1) N by linarith
    have c: "unat c = ?r + (5 + n)"
      using record_step(1)[of "rs_reading_cursor s" n, OF _ small] F(4) Bad by (simp add: c_def)
    let ?t = "s\<lparr>rs_reading_cursor := c, rs_reading_begin := c AND rs_mask s\<rparr>"
    have "read_string s = Done ((None, 0), ?t)"
      using nr F(5) fa wf r1 mod_add_within[of ?r ?N 1]
      by (simp add: read_string_def ring_get_Done Let_def c_def)
    moreover have "fifo_inv ?t fs w" using inv Bad c by (intro advance_inv) auto
    ultimately show ?thesis using Bad
      by (intro exI[of _ "(None, 0)"] exI[of _ ?t]) (simp add: string_fetch_def)
  qed
qed

section \<open>The contract of the connections' send buffer\<close>

lemma all_pads_content: "all_pads pre \<Longrightarrow> List.map_filter frame_content pre = []"
  using all_pads_messages by (simp add: messages_def)

lemma ring_write_law:
  assumes inv: "fifo_inv s fs w" and ok: "write_ok room msg remaining s w"
  shows "\<exists>t new. ring_write ndebug msg remaining s = Done (True, t)
    \<and> List.map_filter frame_content new = (if remaining = 0 then [joined w msg] else [])
    \<and> fifo_inv t (fs @ new) (next_partial w msg remaining)"
proof (cases w)
  case None
  then obtain t pre where "write_string ndebug msg remaining [] s = Done (True, t, [])"
    "all_pads pre" "if remaining = 0 then fifo_inv t (fs @ pre @ [Msg msg]) None
        else fifo_inv t (fs @ pre) (Some (msg, unat remaining))"
    using write_first[of s fs msg remaining ndebug "[]"] inv ok by (auto simp: write_ok_def)
  then show ?thesis using None
    by (intro exI[of _ t] exI[of _ "if remaining = 0 then pre @ [Msg msg] else pre"])
      (auto simp: ring_write_def joined_def next_partial_def all_pads_content messages_def[symmetric])
next
  case (Some p)
  obtain part rem where p: "p = (part, rem)" by (cases p)
  then obtain t where "write_string ndebug msg remaining [] s = Done (True, t, [])"
    "if remaining = 0 then fifo_inv t (fs @ [Msg (part @ msg)]) None
        else fifo_inv t fs (Some (part @ msg, unat remaining))"
    using write_more[of s fs part rem msg remaining ndebug "[]"] inv ok Some by (auto simp: write_ok_def)
  then show ?thesis using Some p
    by (intro exI[of _ t] exI[of _ "if remaining = 0 then [Msg (part @ msg)] else []"])
      (auto simp: ring_write_def joined_def next_partial_def messages_def[symmetric])
qed

text \<open>The records that a message becomes, in one part or behind a header.\<close>

lemma ring_one_part_frames:
  assumes "fifo_inv s fs None" "msg \<noteq> []" "room s (length msg)"
  shows "\<exists>t. ring_write ndebug msg 0 s = Done (True, t)
    \<and> fifo_inv t (fs @ pad_frames (padding s (length msg)) @ [Msg msg]) None"
  using write_first_frames[of s fs msg 0 ndebug "[]"] assms by (auto simp: ring_write_def)

lemma ring_two_parts_frames:
  assumes "fifo_inv s fs None" "hdr \<noteq> []" "msg \<noteq> []" "length msg < 2 ^ 64"
    and "room s (length hdr + length msg)"
  shows "\<exists>t u. ring_write ndebug hdr (word_of_nat (length msg)) s = Done (True, t)
    \<and> ring_write ndebug msg 0 t = Done (True, u)
    \<and> fifo_inv u (fs @ pad_frames (padding s (length hdr + length msg)) @ [Msg (hdr @ msg)]) None"
proof -
  let ?k = "word_of_nat (length msg) :: u64" and ?p = "pad_frames (padding s (length hdr + length msg))"
  have k: "unat ?k = length msg" using assms(4) by (simp add: unat_of_nat)
  then have "?k \<noteq> 0" using assms(3) by (metis length_0_conv unat_0)
  then obtain t where t: "write_string ndebug hdr ?k [] s = Done (True, t, [])"
    "fifo_inv t (fs @ ?p) (Some (hdr, length msg))"
    using write_first_frames[of s fs hdr ?k ndebug "[]"] assms k by auto
  from write_more[OF t(2) assms(3), of 0 ndebug "[]"] obtain u where
    "write_string ndebug msg 0 [] t = Done (True, u, [])" "fifo_inv u ((fs @ ?p) @ [Msg (hdr @ msg)]) None"
    by auto
  with t(1) show ?thesis by (auto simp: ring_write_def)
qed

interpretation ring: byte_queue fifo_inv frame_content room "ring_write ndebug" ring_read ring_reset
  for ndebug
proof (unfold_locales, goal_cases)
  case (1 s fs w msg remaining)
  then show ?case by (rule ring_write_law)
next
  case (2 s w)
  then show ?case by (simp add: ring_read_def read_nil string_fetch_def)
next
  case (3 s f fs w)
  then show ?case using read_cons[OF 3] by (auto simp: ring_read_def)
next
  case (4 s fs w)
  then show ?case using reset_Done(1)[OF 4, of "[]"] reset_Done(2)[OF 4] by (simp add: ring_reset_def)
qed

section \<open>Properties\<close>

text \<open>A small ring for the witnesses.\<close>

lemmas ring_whole_message = ring.whole_message[folded messages_def]
  and ring_read_any = ring.read_any[folded messages_def]

definition ring16 :: string_ring where
  "ring16 = string_ring_new (replicate 16 0) 16"

lemma ring16_inv: "fifo_inv ring16 [] None"
proof -
  have "is_pow2 16" by (simp add: is_pow2_def)
  then show ?thesis unfolding ring16_def by (intro new_ring_inv) simp_all
qed

lemma ring16_room: "room ring16 (length [7 :: byte, 8, 9])"
  by (simp add: room_def padding_def ring16_def string_ring_new_def)

text \<open>
  C2: in every sequence of calls in which new messages are only started while there is room
  for them, \<open>ring_string_buffer\<close> returns from every call (no spinning, no access outside the
  buffer, no failed assertion) and behaves as the ideal FIFO queue of byte strings.
\<close>

theorem ring_run_refines_queue:
  assumes "is_pow2 sz" and "length mem = unat sz" and "unat sz \<le> 2 ^ 32"
    and "queue_legal (ring_write ndebug) ring_read ring_reset room cs (string_ring_new mem sz) None"
  shows "\<exists>obs t. ring_run ndebug cs (string_ring_new mem sz) = Done (obs, t) \<and> queue_spec cs obs [] None"
  using ring.run_refines[OF new_ring_inv[OF assms(1-3)] assms(4)]
  by (simp add: ring_run_def List.map_filter_def)

theorem ring_run_refines_queue_witness:
  "\<exists>obs t. ring_run False [Write [1] 2, Write [2, 3] 0, Read, Reset, Write [9] 0, Read]
       (string_ring_new (replicate 16 0) 16) = Done (obs, t)
     \<and> queue_spec [Write [1] 2, Write [2, 3] 0, Read, Reset, Write [9] 0, Read] obs [] None"
proof (rule ring_run_refines_queue)
  show "is_pow2 16" by (simp add: is_pow2_def)
  show "length (replicate 16 (0 :: byte)) = unat (16 :: u64)" by simp
  show "unat (16 :: u64) \<le> 2 ^ 32" by simp
  show "queue_legal (ring_write False) ring_read ring_reset room
     [Write [1] 2, Write [2, 3] 0, Read, Reset, Write [9] 0, Read]
     (string_ring_new (replicate 16 0) 16) None"
    by code_simp
qed

text \<open>
  No message is lost, duplicated or reordered: after a legal sequence of calls without
  \<open>reset\<close>, enough further reads deliver exactly the messages that were completed, in order.
\<close>

theorem ring_delivers_everything:
  assumes "is_pow2 sz" and "length mem = unat sz" and "unat sz \<le> 2 ^ 32"
    and "queue_legal (ring_write ndebug) ring_read ring_reset room cs (string_ring_new mem sz) None"
    and "Reset \<notin> set cs"
  shows "\<exists>n0. \<forall>n \<ge> n0. \<exists>obs t.
     ring_run ndebug (cs @ replicate n Read) (string_ring_new mem sz) = Done (obs, t)
     \<and> delivered obs = sent cs None"
  using ring.run_then_drain[OF new_ring_inv[OF assms(1-3)] assms(4,5)]
  by (simp add: ring_run_def)

theorem ring_delivers_everything_witness:
  "\<exists>n0. \<forall>n \<ge> n0. \<exists>obs t.
     ring_run False ([Write [1, 2] 0, Read, Write [3] 1, Write [4] 0] @ replicate n Read)
       (string_ring_new (replicate 16 0) 16) = Done (obs, t)
     \<and> delivered obs = sent [Write [1, 2] 0, Read, Write [3] 1, Write [4] 0] None"
proof (rule ring_delivers_everything)
  show "is_pow2 16" by (simp add: is_pow2_def)
  show "length (replicate 16 (0 :: byte)) = unat (16 :: u64)" by simp
  show "unat (16 :: u64) \<le> 2 ^ 32" by simp
  show "queue_legal (ring_write False) ring_read ring_reset room
     [Write [1, 2] 0, Read, Write [3] 1, Write [4] 0] (string_ring_new (replicate 16 0) 16) None"
    by code_simp
  show "Reset \<notin> set [Write [1, 2] 0, Read, Write [3] 1, Write [4] 0]" by simp
qed

text \<open>
  \<open>write\<close> of a whole message into a quiescent ring with room for it returns true without
  waiting, whatever the reader does meanwhile, and appends exactly that message.
\<close>

theorem write_string_enqueues:
  assumes "fifo_inv s fs None" and "msg \<noteq> []" and "room s (length msg)"
  shows "\<exists>t fs'. write_string ndebug msg 0 sched s = Done (True, t, sched)
     \<and> fifo_inv t fs' None \<and> messages fs' = messages fs @ [msg]"
proof -
  from write_first[of s fs msg 0 ndebug sched] assms obtain t pre where
    "write_string ndebug msg 0 sched s = Done (True, t, sched)" "all_pads pre"
    "fifo_inv t (fs @ pre @ [Msg msg]) None" by auto
  then show ?thesis by (intro exI[of _ t] exI[of _ "fs @ pre @ [Msg msg]"]) simp
qed

theorem write_string_enqueues_witness:
  "\<exists>t fs'. write_string False [7, 8, 9] 0 [reset_enter] ring16 = Done (True, t, [reset_enter])
     \<and> fifo_inv t fs' None \<and> messages fs' = messages [] @ [[7, 8, 9]]"
  by (rule write_string_enqueues[OF ring16_inv _ ring16_room]) simp

text \<open>
  \<open>read\<close> either delivers the oldest message, byte for byte, and removes it, or it returns
  the null pointer and only steps over a record that carries no message.
\<close>

theorem read_string_dequeues:
  assumes "fifo_inv s fs w"
  shows "\<exists>r t fs'. read_string s = Done (r, t) \<and> fifo_inv t fs' w \<and>
    (case fst r of
       None \<Rightarrow> r = (None, 0) \<and> messages fs' = messages fs \<and> (fs = [] \<or> length fs' < length fs)
     | Some _ \<Rightarrow> messages fs = string_at t r # messages fs')"
proof (cases fs)
  case Nil
  then show ?thesis using read_nil[of s w] assms by (intro exI[of _ "(None, 0)"]) auto
next
  case (Cons f gs)
  with assms have "fifo_inv s (f # gs) w" by simp
  from read_cons[OF this] obtain r t where r: "read_string s = Done (r, t)" "fifo_inv t gs w"
    "map_option (\<lambda>_. string_at t r) (fst r) = frame_content f" "fst r = None \<longrightarrow> r = (None, 0)"
    by (elim exE conjE)
  then show ?thesis using Cons by (intro exI[of _ r] exI[of _ t] exI[of _ gs]) (cases f; auto)
qed

theorem read_string_dequeues_witness:
  "\<exists>s fs. messages fs = [[7, 8, 9]] \<and>
    (\<exists>r t fs'. read_string s = Done (r, t) \<and> fifo_inv t fs' None \<and>
      (case fst r of
         None \<Rightarrow> r = (None, 0) \<and> messages fs' = messages fs \<and> (fs = [] \<or> length fs' < length fs)
       | Some _ \<Rightarrow> messages fs = string_at t r # messages fs'))"
proof -
  from write_first[OF ring16_inv _ _, of "[7, 8, 9]" 0 False "[]"] ring16_room obtain t pre where
    "all_pads pre" "fifo_inv t ([] @ pre @ [Msg [7, 8, 9]]) None" by auto
  then show ?thesis
    using read_string_dequeues[of t "[] @ pre @ [Msg [7, 8, 9]]" None]
    by (intro exI[of _ t] exI[of _ "[] @ pre @ [Msg [7, 8, 9]]"]) simp
qed

end
