(* ===== verification/Object_Pool.thy ===== *)
theory Object_Pool
  imports Slick_Prelude
begin

text \<open>
  \<open>object_pool<T>\<close> of src/ring_buffer.h: a block of pre-allocated objects handed out through
  a ring of indices, with the heap as a fallback. An object is named by its place, the
  block (\<open>Pooled i\<close> is \<open>data_ + i\<close>) or the heap; what \<open>new (std::nothrow)\<close> returns is an
  argument (\<open>None\<close> is the null pointer).
\<close>

section \<open>State and operations\<close>

datatype obj = Pooled nat | Heap nat

record object_pool =
  op_index :: "u64 list"
  op_read :: u64
  op_write :: u64
  op_size :: u64
  op_mask :: u64

definition pool_new :: "u64 \<Rightarrow> object_pool" where
  "pool_new sz = \<lparr>op_index = map word_of_nat [0..<unat sz], op_read = 0, op_write = 0,
     op_size = sz, op_mask = sz - 1\<rparr>"

definition pool_size :: "object_pool \<Rightarrow> u64" where
  "pool_size p = op_size p"

text \<open>The atomic steps of \<open>get_obj\<close>: the check, the claim of an index, the test of the claim.\<close>

definition get_check :: "object_pool \<Rightarrow> bool" where
  "get_check p \<longleftrightarrow> op_read p < op_mask p"

definition get_claim :: "object_pool \<Rightarrow> u64 \<times> object_pool" where
  "get_claim p = (op_read p, p\<lparr>op_read := op_read p + 1\<rparr>)"

definition get_test :: "u64 \<Rightarrow> object_pool \<Rightarrow> bool" where
  "get_test i p \<longleftrightarrow> i < op_size p \<or> (i AND op_mask p) < (op_write p AND op_mask p)"

definition get_take :: "u64 \<Rightarrow> object_pool \<Rightarrow> obj result" where
  "get_take i p = (let k = unat (i AND op_mask p) in
     if k < length (op_index p) then Done (Pooled (unat (op_index p ! k))) else Out_of_bounds)"

definition get_undo :: "object_pool \<Rightarrow> object_pool" where
  "get_undo p = p\<lparr>op_read := op_read p - 1\<rparr>"

definition get_obj :: "obj option \<Rightarrow> object_pool \<Rightarrow> (obj option \<times> object_pool) result" where
  "get_obj alloc p =
     (if get_check p
      then let (i, p) = get_claim p in
        if get_test i p then result_bind (get_take i p) (\<lambda>ob. Done (Some ob, p))
        else Done (alloc, get_undo p)
      else Done (alloc, p))"

text \<open>
  \<open>release_obj\<close>; the first component is the heap object that is deleted, if any. A pointer
  into the block is one below \<open>end_\<close>.
\<close>

definition release_obj :: "obj \<Rightarrow> object_pool \<Rightarrow> (obj option \<times> object_pool) result" where
  "release_obj ob p =
     (case ob of
        Pooled i \<Rightarrow>
          if i < unat (op_size p)
          then let target = op_write p;
                   p = p\<lparr>op_write := op_write p + 1\<rparr>;
                   k = unat (target AND op_mask p)
               in if k < length (op_index p)
                  then Done (None, p\<lparr>op_index := (op_index p)[k := word_of_nat i]\<rparr>)
                  else Out_of_bounds
          else Done (Some ob, p)
      | Heap a \<Rightarrow> Done (Some ob, p))"

text \<open>Calls one after another; a \<open>get\<close> carries what the allocator would return.\<close>

datatype pool_call = Get "obj option" | Release obj

fun pool_run :: "pool_call list \<Rightarrow> object_pool \<Rightarrow> (obj option list \<times> object_pool) result" where
  "pool_run [] p = Done ([], p)"
| "pool_run (Get alloc # cs) p =
     result_bind (get_obj alloc p)
       (\<lambda>(ob, p). result_bind (pool_run cs p) (\<lambda>(obs, p). Done (ob # obs, p)))"
| "pool_run (Release ob # cs) p =
     result_bind (release_obj ob p) (\<lambda>(_, p). pool_run cs p)"

section \<open>The interface of the service\<close>

text \<open>
  What the service needs from its source of request objects: an object handed out is not
  one that is in use, and the operations return.
\<close>

locale object_source =
  fixes src_inv :: "'p \<Rightarrow> 'o set \<Rightarrow> bool"
    and fresh :: "'o option \<Rightarrow> 'o set \<Rightarrow> bool"
    and obtain_obj :: "'o option \<Rightarrow> 'p \<Rightarrow> ('o option \<times> 'p) result"
    and release :: "'o \<Rightarrow> 'p \<Rightarrow> ('o option \<times> 'p) result"
  assumes get_law: "src_inv p used \<Longrightarrow> fresh alloc used \<Longrightarrow>
      \<exists>r q. obtain_obj alloc p = Done (r, q) \<and> (case r of
          None \<Rightarrow> alloc = None \<and> src_inv q used
        | Some ob \<Rightarrow> ob \<notin> used \<and> src_inv q (insert ob used))"
    and release_law: "src_inv p used \<Longrightarrow> ob \<in> used \<Longrightarrow>
      \<exists>d q. release ob p = Done (d, q) \<and> src_inv q (used - {ob})"
begin

lemma two_gets_differ:
  assumes "src_inv p used" "fresh a used" "obtain_obj a p = Done (Some x, q)"
    and "fresh b (insert x used)" "obtain_obj b q = Done (Some y, r)"
  shows "x \<noteq> y"
proof -
  from get_law[OF assms(1,2)] assms(3) have q: "src_inv q (insert x used)" by auto
  from get_law[OF q assms(4)] assms(5) have "y \<notin> insert x used" by auto
  then show ?thesis by auto
qed

end

section \<open>The invariant\<close>

text \<open>
  \<open>used\<close> are the objects handed out and not yet released. The indices that have not been
  read yet are untouched by releases, because there are never more releases than gets.
\<close>

definition pool_inv :: "object_pool \<Rightarrow> obj set \<Rightarrow> bool" where
  "pool_inv p used \<longleftrightarrow> is_pow2 (op_size p) \<and> op_mask p = op_size p - 1
     \<and> length (op_index p) = unat (op_size p)
     \<and> unat (op_read p) < unat (op_size p)
     \<and> finite used
     \<and> (\<forall>i. Pooled i \<in> used \<longrightarrow> i < unat (op_read p))
     \<and> unat (op_write p) + card {i. Pooled i \<in> used} = unat (op_read p)
     \<and> (\<forall>j. unat (op_read p) \<le> j \<longrightarrow> j < unat (op_size p) \<longrightarrow> op_index p ! j = word_of_nat j)"

text \<open>The allocator returns heap objects that are not in use.\<close>

definition alloc_ok :: "obj option \<Rightarrow> obj set \<Rightarrow> bool" where
  "alloc_ok alloc used \<longleftrightarrow> (case alloc of
     None \<Rightarrow> True
   | Some (Pooled i) \<Rightarrow> False
   | Some (Heap a) \<Rightarrow> Heap a \<notin> used)"

lemma pool_new_inv: "is_pow2 sz \<Longrightarrow> pool_inv (pool_new sz) {}"
  using is_pow2_pos[of sz] by (simp add: pool_inv_def pool_new_def)

lemma finite_pooled: "finite used \<Longrightarrow> finite {i. Pooled i \<in> used}"
  by (rule finite_imageD[of Pooled]) (auto intro: finite_subset inj_onI)

lemma pooled_insert_heap [simp]: "{i. Pooled i = Heap a \<or> Pooled i \<in> used} = {i. Pooled i \<in> used}"
  by auto

text \<open>While the check of \<open>get_obj\<close> succeeds, the next object of the block is handed out.\<close>

lemma pool_get_checked:
  assumes inv: "pool_inv p used" and ck: "get_check p"
  defines "q \<equiv> p\<lparr>op_read := op_read p + 1\<rparr>"
  shows "get_obj alloc p = Done (Some (Pooled (unat (op_read p))), q)"
    and "unat (op_read p) < unat (op_size p)"
    and "Pooled (unat (op_read p)) \<notin> used"
    and "pool_inv q (insert (Pooled (unat (op_read p))) used)"
    and "unat (op_read q) = Suc (unat (op_read p))" and "op_size q = op_size p"
proof -
  let ?r = "unat (op_read p)" and ?N = "unat (op_size p)"
  from inv have wf: "is_pow2 (op_size p)" "op_mask p = op_size p - 1" "length (op_index p) = ?N"
    and lt: "?r < ?N" and fin: "finite used"
    and used: "\<And>i. Pooled i \<in> used \<Longrightarrow> i < ?r"
    and card: "unat (op_write p) + card {i. Pooled i \<in> used} = ?r"
    and idx: "\<And>j. ?r \<le> j \<Longrightarrow> j < ?N \<Longrightarrow> op_index p ! j = word_of_nat j"
    by (auto simp: pool_inv_def)
  have N: "0 < ?N" using wf(1) by (rule is_pow2_pos)
  have "unat (op_size p - 1) = ?N - 1" using N by (simp add: unat_sub_bounded)
  then have m: "?r < ?N - 1" using ck wf(2) by (simp add: get_check_def word_less_nat_alt)
  have k: "unat (op_read p AND op_mask p) = ?r" using wf lt by (simp add: unat_mask)
  have r1: "unat (op_read p + 1) = ?r + 1"
    using m unsigned_less[of "op_size p", where 'a = nat] by (simp add: unat_add_bounded)
  have "unat (word_of_nat ?r :: u64) = ?r" by simp
  then have ob: "unat (op_index p ! ?r) = ?r" using idx[of ?r] lt by simp
  show new: "Pooled ?r \<notin> used" using used[of ?r] by auto
  show "?r < ?N" by (rule lt)
  show "unat (op_read q) = Suc ?r" "op_size q = op_size p" using r1 by (simp_all add: q_def)
  show "get_obj alloc p = Done (Some (Pooled ?r), q)"
    using ck k lt wf(3) ob
    by (simp add: get_obj_def get_claim_def get_test_def get_take_def word_less_nat_alt q_def)
  have "{i. Pooled i = Pooled ?r \<or> Pooled i \<in> used} = insert ?r {i. Pooled i \<in> used}" by auto
  then have "card {i. Pooled i = Pooled ?r \<or> Pooled i \<in> used} = Suc (card {i. Pooled i \<in> used})"
    using new finite_pooled[OF fin] by simp
  then show "pool_inv q (insert (Pooled ?r) used)"
    using wf m fin used card idx r1 by (auto simp: pool_inv_def q_def less_Suc_eq)
qed

lemma pool_get_law:
  assumes inv: "pool_inv p used" and alloc: "alloc_ok alloc used"
  shows "\<exists>r q. get_obj alloc p = Done (r, q) \<and> (case r of
          None \<Rightarrow> alloc = None \<and> pool_inv q used
        | Some ob \<Rightarrow> ob \<notin> used \<and> pool_inv q (insert ob used))"
proof (cases "get_check p")
  case True
  then show ?thesis using pool_get_checked[OF inv True] by auto
next
  case False
  then have "get_obj alloc p = Done (alloc, p)" by (simp add: get_obj_def)
  then show ?thesis
    using alloc inv by (cases alloc) (auto simp: alloc_ok_def pool_inv_def split: obj.splits)
qed

lemma pool_release_law:
  assumes inv: "pool_inv p used" and ob: "ob \<in> used"
  shows "\<exists>d q. release_obj ob p = Done (d, q) \<and> pool_inv q (used - {ob})"
proof (cases ob)
  case (Heap a)
  then have "{i. Pooled i \<in> used \<and> Pooled i \<noteq> Heap a} = {i. Pooled i \<in> used}" by auto
  then show ?thesis using inv Heap by (auto simp: release_obj_def pool_inv_def)
next
  case (Pooled n)
  let ?r = "unat (op_read p)" and ?w = "unat (op_write p)" and ?N = "unat (op_size p)"
  let ?u = "{i. Pooled i \<in> used}"
  from inv have wf: "is_pow2 (op_size p)" "op_mask p = op_size p - 1" "length (op_index p) = ?N"
    and lt: "?r < ?N" and fin: "finite used" and used: "\<And>i. Pooled i \<in> used \<Longrightarrow> i < ?r"
    and card: "?w + card ?u = ?r"
    by (auto simp: pool_inv_def)
  have n: "n \<in> ?u" using ob Pooled by simp
  have cd: "card ?u = Suc (card (?u - {n}))"
    using n finite_pooled[OF fin] by (rule card.remove[symmetric, THEN sym, rotated])
  have w: "?w < ?r" using card cd by simp
  have k: "unat (op_write p AND op_mask p) = ?w" using wf w lt by (simp add: unat_mask)
  have w1: "unat (op_write p + 1) = ?w + 1"
    using w unsigned_less[of "op_read p", where 'a = nat] by (simp add: unat_add_bounded)
  define q where "q = p\<lparr>op_write := op_write p + 1, op_index := (op_index p)[?w := word_of_nat n]\<rparr>"
  have "release_obj ob p = Done (None, q)"
    using Pooled n used[of n] lt k w wf(3) by (simp add: release_obj_def q_def Let_def)
  moreover have "{i. Pooled i \<in> used \<and> i \<noteq> n} = ?u - {n}" by auto
  then have "pool_inv q (used - {ob})"
    using inv Pooled w w1 cd card by (simp add: pool_inv_def q_def)
  ultimately show ?thesis by blast
qed

interpretation request_pool: object_source pool_inv alloc_ok get_obj release_obj
  by unfold_locales (use pool_get_law pool_release_law in auto)

section \<open>Runs\<close>

text \<open>
  The calls a client may make: it releases only objects it holds, and the heap gives it
  objects it does not hold.
\<close>

fun pool_legal :: "pool_call list \<Rightarrow> object_pool \<Rightarrow> obj set \<Rightarrow> bool" where
  "pool_legal [] p used \<longleftrightarrow> True"
| "pool_legal (Get alloc # cs) p used \<longleftrightarrow> alloc_ok alloc used \<and>
     (case get_obj alloc p of
        Done (None, q) \<Rightarrow> pool_legal cs q used
      | Done (Some ob, q) \<Rightarrow> pool_legal cs q (insert ob used)
      | _ \<Rightarrow> True)"
| "pool_legal (Release ob # cs) p used \<longleftrightarrow> ob \<in> used \<and>
     (case release_obj ob p of Done (_, q) \<Rightarrow> pool_legal cs q (used - {ob}) | _ \<Rightarrow> True)"

text \<open>No object is handed out while it is in use.\<close>

fun exclusive :: "pool_call list \<Rightarrow> obj option list \<Rightarrow> obj set \<Rightarrow> bool" where
  "exclusive [] [] used \<longleftrightarrow> True"
| "exclusive (Get alloc # cs) (None # obs) used \<longleftrightarrow> alloc = None \<and> exclusive cs obs used"
| "exclusive (Get alloc # cs) (Some ob # obs) used \<longleftrightarrow>
     ob \<notin> used \<and> exclusive cs obs (insert ob used)"
| "exclusive (Release ob # cs) obs used \<longleftrightarrow> exclusive cs obs (used - {ob})"
| "exclusive _ _ _ \<longleftrightarrow> False"

lemma pool_run_exclusive_from:
  assumes "pool_inv p used" "pool_legal cs p used"
  shows "\<exists>obs q. pool_run cs p = Done (obs, q) \<and> exclusive cs obs used"
  using assms
proof (induction cs arbitrary: p used)
  case Nil
  then show ?case by simp
next
  case (Cons c cs)
  show ?case
  proof (cases c)
    case (Get alloc)
    then obtain r q where r: "get_obj alloc p = Done (r, q)" "case r of
        None \<Rightarrow> alloc = None \<and> pool_inv q used
      | Some ob \<Rightarrow> ob \<notin> used \<and> pool_inv q (insert ob used)"
      using request_pool.get_law[of p used alloc] Cons.prems by auto
    show ?thesis
    proof (cases r)
      case None
      then obtain obs t where "pool_run cs q = Done (obs, t)" "exclusive cs obs used"
        using Cons.IH[of q used] Cons.prems Get r by auto
      then show ?thesis using Get r None by (intro exI[of _ "None # obs"] exI[of _ t]) simp
    next
      case (Some ob)
      then obtain obs t where "pool_run cs q = Done (obs, t)" "exclusive cs obs (insert ob used)"
        using Cons.IH[of q "insert ob used"] Cons.prems Get r by auto
      then show ?thesis using Get r Some by (intro exI[of _ "Some ob # obs"] exI[of _ t]) simp
    qed
  next
    case (Release ob)
    then obtain d q where r: "release_obj ob p = Done (d, q)" "pool_inv q (used - {ob})"
      using request_pool.release_law[of p used ob] Cons.prems by auto
    then obtain obs t where "pool_run cs q = Done (obs, t)" "exclusive cs obs (used - {ob})"
      using Cons.IH[of q "used - {ob}"] Cons.prems Release by auto
    then show ?thesis using Release r by (intro exI[of _ obs] exI[of _ t]) simp
  qed
qed

text \<open>What the allocator offers to the calls of \<open>get_obj\<close>, in order.\<close>

fun offers :: "pool_call list \<Rightarrow> obj option list" where
  "offers [] = []"
| "offers (Get alloc # cs) = alloc # offers cs"
| "offers (Release ob # cs) = offers cs"

definition pool_wf :: "object_pool \<Rightarrow> bool" where
  "pool_wf p \<longleftrightarrow> is_pow2 (op_size p) \<and> op_mask p = op_size p - 1
     \<and> length (op_index p) = unat (op_size p) \<and> unat (op_read p) \<le> unat (op_mask p)"

lemma get_obj_wf:
  assumes "pool_wf p"
  shows "\<exists>r q. get_obj alloc p = Done (r, q) \<and> pool_wf q \<and> op_mask q = op_mask p
    \<and> (if unat (op_read p) < unat (op_mask p)
       then unat (op_read q) = Suc (unat (op_read p)) \<and> (\<exists>i. r = Some (Pooled i))
       else r = alloc \<and> op_read q = op_read p)"
proof (cases "unat (op_read p) < unat (op_mask p)")
  case True
  have wf: "is_pow2 (op_size p)" "op_mask p = op_size p - 1" "length (op_index p) = unat (op_size p)"
    using assms by (auto simp: pool_wf_def)
  have N: "0 < unat (op_size p)" using wf(1) by (rule is_pow2_pos)
  have m: "unat (op_size p - 1) = unat (op_size p) - 1" using N by (simp add: unat_sub_bounded)
  have lt: "unat (op_read p) < unat (op_size p)" using True wf(2) m by simp
  have "unat (op_read p + 1) = unat (op_read p) + 1"
    using True unsigned_less[of "op_mask p", where 'a = nat] by (simp add: unat_add_bounded)
  then show ?thesis
    using True wf m N lt
    by (simp add: get_obj_def get_check_def get_claim_def get_test_def get_take_def
        word_less_nat_alt unat_mask pool_wf_def Let_def)
next
  case False
  then show ?thesis
    using assms by (simp add: get_obj_def get_check_def word_less_nat_alt)
qed

lemma release_obj_wf:
  assumes "pool_wf p"
  shows "\<exists>d q. release_obj ob p = Done (d, q) \<and> pool_wf q \<and> op_mask q = op_mask p
    \<and> op_read q = op_read p"
  using assms is_pow2_pos[of "op_size p"]
  by (cases ob) (auto simp: release_obj_def Let_def pool_wf_def unat_mask)

lemma pool_run_once:
  assumes "pool_wf p"
  shows "\<exists>obs q. pool_run cs p = Done (obs, q) \<and> length obs = length (offers cs)
    \<and> (\<forall>i < length obs. if i + unat (op_read p) < unat (op_mask p)
         then \<exists>k. obs ! i = Some (Pooled k) else obs ! i = offers cs ! i)"
  using assms
proof (induction cs arbitrary: p)
  case Nil
  then show ?case by simp
next
  case (Cons c cs)
  show ?case
  proof (cases c)
    case (Get alloc)
    obtain r q where r: "get_obj alloc p = Done (r, q)" "pool_wf q" "op_mask q = op_mask p"
      "if unat (op_read p) < unat (op_mask p)
       then unat (op_read q) = Suc (unat (op_read p)) \<and> (\<exists>i. r = Some (Pooled i))
       else r = alloc \<and> op_read q = op_read p"
      using get_obj_wf[OF Cons.prems] by blast
    obtain obs t where o: "pool_run cs q = Done (obs, t)" "length obs = length (offers cs)"
      "\<forall>i < length obs. if i + unat (op_read q) < unat (op_mask q)
         then \<exists>k. obs ! i = Some (Pooled k) else obs ! i = offers cs ! i"
      using Cons.IH[OF r(2)] by blast
    have "if i + unat (op_read p) < unat (op_mask p)
        then \<exists>k. (r # obs) ! i = Some (Pooled k) else (r # obs) ! i = (alloc # offers cs) ! i"
      if "i < length (r # obs)" for i
    proof (cases i)
      case 0
      then show ?thesis using r(4) by (auto split: if_splits)
    next
      case (Suc j)
      then show ?thesis using o(3) that r(3,4) Cons.prems
        by (auto simp: pool_wf_def split: if_splits)
    qed
    then show ?thesis using Get r(1) o(1,2)
      by (intro exI[of _ "r # obs"] exI[of _ t]) simp
  next
    case (Release ob)
    obtain d q where r: "release_obj ob p = Done (d, q)" "pool_wf q" "op_mask q = op_mask p"
      "op_read q = op_read p"
      using release_obj_wf[OF Cons.prems] by blast
    then show ?thesis using Cons.IH[OF r(2)] Release by auto
  qed
qed

section \<open>Properties\<close>

text \<open>
  C14: in every sequence of \<open>get_obj\<close> and \<open>release_obj\<close> calls of clients that release only
  what they hold, no object is handed out while it is still in use, and a null pointer is
  returned only when the allocator fails.
\<close>

theorem pool_run_exclusive:
  assumes "is_pow2 sz" and "pool_legal cs (pool_new sz) {}"
  shows "\<exists>obs q. pool_run cs (pool_new sz) = Done (obs, q) \<and> exclusive cs obs {}"
  by (rule pool_run_exclusive_from[OF pool_new_inv[OF assms(1)] assms(2)])

theorem pool_run_exclusive_witness:
  "\<exists>obs q. pool_run [Get None, Get None, Release (Pooled 0), Get None, Get (Some (Heap 5)), Get None]
       (pool_new 4) = Done (obs, q)
     \<and> exclusive [Get None, Get None, Release (Pooled 0), Get None, Get (Some (Heap 5)), Get None] obs {}"
proof (rule pool_run_exclusive)
  show "is_pow2 4" by (simp add: is_pow2_def)
  show "pool_legal [Get None, Get None, Release (Pooled 0), Get None, Get (Some (Heap 5)), Get None]
     (pool_new 4) {}" by code_simp
qed



end
