(* ===== verification/Cpp_Strings.thy ===== *)
theory Cpp_Strings
  imports Slick_Prelude "HOL-Library.Sublist"
begin

text \<open>
  The part of \<open>std::string\<close> the clients parse their addresses with: \<open>find\<close>, \<open>substr\<close> and
  \<open>std::stoi\<close>, with the exceptions they throw. A position is a natural number and \<open>npos\<close>
  is \<open>None\<close>; a string is a list of characters. \<open>dec\<close> prints a number, so that what
  \<open>stoi\<close> reads can be stated as a round trip.
\<close>

section \<open>Exceptions\<close>

datatype cpp_exn = Invalid_argument | Out_of_range

fun try_bind :: "cpp_exn + 'a \<Rightarrow> ('a \<Rightarrow> cpp_exn + 'b) \<Rightarrow> cpp_exn + 'b" where
  "try_bind (Inl e) f = Inl e"
| "try_bind (Inr x) f = f x"

section \<open>find and substr\<close>

fun str_find :: "string \<Rightarrow> string \<Rightarrow> nat option" where
  "str_find pat [] = (if pat = [] then Some 0 else None)"
| "str_find pat (c # s) =
     (if prefix pat (c # s) then Some 0 else map_option Suc (str_find pat s))"

definition str_find_from :: "string \<Rightarrow> string \<Rightarrow> nat \<Rightarrow> nat option" where
  "str_find_from pat s pos =
     (if pos \<le> length s then map_option (\<lambda>k. pos + k) (str_find pat (drop pos s)) else None)"

text \<open>\<open>substr(pos)\<close> and \<open>substr(pos, count)\<close>; \<open>count\<close> is a \<open>size_t\<close>.\<close>

definition substr :: "string \<Rightarrow> nat \<Rightarrow> cpp_exn + string" where
  "substr s pos = (if pos \<le> length s then Inr (drop pos s) else Inl Out_of_range)"

definition substr_count :: "string \<Rightarrow> nat \<Rightarrow> u64 \<Rightarrow> cpp_exn + string" where
  "substr_count s pos count =
     (if pos \<le> length s then Inr (take (unat count) (drop pos s)) else Inl Out_of_range)"

lemma str_find_char_append:
  "c \<notin> set a \<Longrightarrow> str_find [c] (a @ b) = map_option (\<lambda>k. length a + k) (str_find [c] b)"
  by (induction a) (cases "str_find [c] b"; auto)+

lemma str_find_char_none: "c \<notin> set a \<Longrightarrow> str_find [c] a = None"
  by (induction a) auto

lemma str_find_char_hit [simp]: "str_find [c] (c # s) = Some 0"
  by simp

lemma str_find_char_at: "c \<notin> set a \<Longrightarrow> str_find [c] (a @ c # b) = Some (length a)"
  by (simp add: str_find_char_append)

text \<open>A pattern that contains a character the string lacks is not found.\<close>

lemma str_find_missing: "c \<in> set pat \<Longrightarrow> c \<notin> set s \<Longrightarrow> str_find pat s = None"
proof (induction s)
  case (Cons a s)
  then have "\<not> prefix pat (a # s)" using set_mono_prefix[of pat "a # s"] by auto
  with Cons show ?case by simp
qed auto

text \<open>A pattern is not found across a character that it does not contain.\<close>

lemma str_find_skip:
  assumes "\<And>k. k < length a \<Longrightarrow> \<not> prefix pat (drop k (a @ b))"
  shows "str_find pat (a @ b) = map_option (\<lambda>k. length a + k) (str_find pat b)"
  using assms
proof (induction a)
  case Nil
  then show ?case by (simp add: option.map_ident)
next
  case (Cons c a)
  have "\<not> prefix pat (c # a @ b)" using Cons.prems[of 0] by simp
  moreover have "str_find pat (a @ b) = map_option (\<lambda>k. length a + k) (str_find pat b)"
    using Cons.prems[of "Suc k" for k] by (intro Cons.IH) auto
  ultimately show ?case by (simp add: option.map_comp comp_def)
qed

text \<open>The first occurrence of \<open>://\<close> is behind a scheme without a colon.\<close>

lemma str_find_sep:
  assumes "CHR '':'' \<notin> set a"
  shows "str_find ('':'' @ p) (a @ '':'' @ p @ b) = Some (length a)"
proof -
  have "\<not> prefix ('':'' @ p) (drop k (a @ '':'' @ p @ b))" if "k < length a" for k
  proof
    assume "prefix ('':'' @ p) (drop k (a @ '':'' @ p @ b))"
    then have "hd (drop k a) = CHR '':''" using that by (cases "drop k a") auto
    then show False using that assms by (metis hd_drop_conv_nth nth_mem)
  qed
  then have "str_find ('':'' @ p) (a @ '':'' @ p @ b)
      = map_option (\<lambda>k. length a + k) (str_find ('':'' @ p) ('':'' @ p @ b))"
    by (rule str_find_skip)
  then show ?thesis by simp
qed

section \<open>stoi\<close>

definition is_space :: "char \<Rightarrow> bool" where
  "is_space c \<longleftrightarrow> of_char c \<in> {9, 10, 11, 12, 13, 32 :: nat}"

definition is_digit :: "char \<Rightarrow> bool" where
  "is_digit c \<longleftrightarrow> 48 \<le> (of_char c :: nat) \<and> (of_char c :: nat) \<le> 57"

definition digit_val :: "char \<Rightarrow> nat" where
  "digit_val c = of_char c - 48"

fun digits_val :: "nat \<Rightarrow> string \<Rightarrow> nat" where
  "digits_val acc [] = acc"
| "digits_val acc (c # s) = digits_val (10 * acc + digit_val c) s"

text \<open>
  White space, an optional sign, the longest run of digits; what follows is ignored. No digit
  is \<open>invalid_argument\<close>, a value outside \<open>int\<close> is \<open>out_of_range\<close>.
\<close>

definition stoi :: "string \<Rightarrow> cpp_exn + int" where
  "stoi s =
     (let s = dropWhile is_space s;
          neg = (s \<noteq> [] \<and> hd s = CHR ''-'');
          s = (if s \<noteq> [] \<and> (hd s = CHR ''-'' \<or> hd s = CHR ''+'') then tl s else s);
          ds = takeWhile is_digit s;
          v = (if neg then - int (digits_val 0 ds) else int (digits_val 0 ds))
      in if ds = [] then Inl Invalid_argument
         else if v < - (2 ^ 31) \<or> 2 ^ 31 \<le> v then Inl Out_of_range
         else Inr v)"

section \<open>Decimal numbers\<close>

fun dec :: "nat \<Rightarrow> string" where
  "dec n = (if n < 10 then [char_of (48 + n)] else dec (n div 10) @ [char_of (48 + n mod 10)])"

declare dec.simps [simp del]

lemma of_char_digit [simp]: "n < 10 \<Longrightarrow> of_char (char_of (48 + n) :: char) = 48 + n" for n :: nat
  by simp

lemma is_digit_digit [simp]: "n < 10 \<Longrightarrow> is_digit (char_of (48 + n))" for n :: nat
  by (simp add: is_digit_def)

lemma digit_val_digit [simp]: "n < 10 \<Longrightarrow> digit_val (char_of (48 + n)) = n" for n :: nat
  by (simp add: digit_val_def)

lemma digits_val_append: "digits_val acc (a @ b) = digits_val (digits_val acc a) b"
  by (induction a arbitrary: acc) simp_all

lemma dec_digits: "\<forall>c \<in> set (dec n). is_digit c"
proof (induction n rule: dec.induct)
  case (1 n)
  then show ?case by (subst dec.simps) (auto simp del: of_char_of)
qed

lemma dec_not_Nil [simp]: "dec n \<noteq> []"
  by (subst dec.simps) simp

lemma digits_val_dec: "digits_val 0 (dec n) = n"
proof (induction n rule: dec.induct)
  case (1 n)
  then show ?case by (subst dec.simps) (simp add: digits_val_append)
qed

lemma digit_facts:
  assumes "is_digit c"
  shows "\<not> is_space c" "c \<noteq> CHR ''-''" "c \<noteq> CHR ''+''" "c \<noteq> CHR '':''" "c \<noteq> CHR ''/''"
  using assms by (auto simp: is_digit_def is_space_def)

lemma dec_no_char: "\<not> is_digit c \<Longrightarrow> c \<notin> set (dec n)"
  using dec_digits by blast

lemma dec_no_colon [simp]: "CHR '':'' \<notin> set (dec n)"
  and dec_no_slash [simp]: "CHR ''/'' \<notin> set (dec n)"
  by (simp_all add: dec_no_char is_digit_def)

text \<open>\<open>stoi\<close> reads back a printed number, whatever non-digit text follows.\<close>

lemma stoi_dec:
  assumes "n < 2 ^ 31" and "rest = [] \<or> \<not> is_digit (hd rest)"
  shows "stoi (dec n @ rest) = Inr (int n)"
proof -
  obtain c s where d: "dec n = c # s" by (cases "dec n") simp_all
  then have c: "is_digit c" using dec_digits[of n] by simp
  have sp: "dropWhile is_space (dec n @ rest) = dec n @ rest"
    using d digit_facts[OF c] by simp
  have "takeWhile is_digit (dec n @ rest) = dec n @ takeWhile is_digit rest"
    using dec_digits[of n] by (simp add: takeWhile_append2)
  then have ds: "takeWhile is_digit (dec n @ rest) = dec n"
    using assms(2) by (cases rest) auto
  define t where "t = dec n @ rest"
  have t: "t \<noteq> []" "hd t = c" using d by (simp_all add: t_def)
  have no_sign: "\<not> (t \<noteq> [] \<and> (hd t = CHR ''-'' \<or> hd t = CHR ''+''))" "\<not> (t \<noteq> [] \<and> hd t = CHR ''-'')"
    using t(2) digit_facts[OF c] by blast+
  have v: "int (digits_val 0 (dec n)) = int n" by (simp only: digits_val_dec)
  have bound: "\<not> (int n < - (2 ^ 31) \<or> 2 ^ 31 \<le> int n)" using assms(1) by simp
  have "stoi t = Inr (int n)"
    unfolding stoi_def Let_def sp[folded t_def] if_not_P[OF no_sign(1)] if_not_P[OF no_sign(2)]
      ds[folded t_def] v if_not_P[OF dec_not_Nil] if_not_P[OF bound] ..
  then show ?thesis by (simp only: t_def)
qed

text \<open>The conversion of an \<open>int\<close> to \<open>int16_t\<close>.\<close>

definition int16 :: "int \<Rightarrow> 16 word" where
  "int16 v = word_of_int v"

lemma sint_int16: "- (2 ^ 15) \<le> v \<Longrightarrow> v < 2 ^ 15 \<Longrightarrow> sint (int16 v) = v"
  by (simp add: int16_def signed_of_int signed_take_bit_int_eq_self)

end
