(* ===== verification/Url_Parsing.thy ===== *)
theory Url_Parsing
  imports Cpp_Strings
begin

text \<open>
  How the constructors of \<open>http_client\<close> (src/http_client.cpp) and \<open>websocket_client\<close>
  (src/websocket_client.cpp) take an address apart into host, port and path. \<open>port_\<close> is an
  \<open>int16_t\<close> that starts as -1. The constructor of \<open>http_client\<close> is \<open>noexcept\<close>, so there an
  exception ends the program; the one of \<open>websocket_client\<close> passes it on.
\<close>

section \<open>http_client\<close>

text \<open>\<open>has_port\<close> and the value of \<open>port_\<close> behind the first \<open>if\<close>.\<close>

definition http_has_port :: "string \<Rightarrow> bool" where
  "http_has_port address =
     (let pos = str_find '':'' address in pos \<noteq> Some 4 \<and> pos \<noteq> Some 5 \<and> pos \<noteq> None)"

definition http_port :: "string \<Rightarrow> cpp_exn + 16 word" where
  "http_port address =
     (if http_has_port address
      then try_bind (substr address (the (str_find '':'' address) + 1)) (\<lambda>s.
           try_bind (stoi s) (\<lambda>v. Inr (int16 v)))
      else Inr (- 1))"

text \<open>The second \<open>if\<close>: the scheme is removed and the default port set.\<close>

definition http_strip :: "string \<Rightarrow> 16 word \<Rightarrow> cpp_exn + (string \<times> 16 word)" where
  "http_strip address port =
     (let pos = word_of_nat (the (str_find '':'' address)) in
      if str_find ''https://'' address \<noteq> None
      then try_bind (if http_has_port address then substr_count address 8 (pos - 8)
                     else substr address 8)
             (\<lambda>a. Inr (a, if port = - 1 then 443 else port))
      else if str_find ''http://'' address \<noteq> None
      then try_bind (if http_has_port address then substr_count address 7 (pos - 7)
                     else substr address 7)
             (\<lambda>a. Inr (a, if port = 0 then 80 else port))
      else Inr (address, port))"

definition http_endpoint :: "string \<Rightarrow> cpp_exn + (string \<times> 16 word)" where
  "http_endpoint address = try_bind (http_port address) (http_strip address)"

section \<open>websocket_client\<close>

text \<open>The first part of the constructor: scheme, address with port, path.\<close>

definition ws_split :: "string \<Rightarrow> cpp_exn + (string \<times> string \<times> string)" where
  "ws_split url =
     (case str_find ''://'' url of
        None \<Rightarrow>
          (case str_find ''/'' url of
             None \<Rightarrow> Inr (''wss'', url, ''/'')
           | Some pos \<Rightarrow>
               try_bind (substr_count url 0 (word_of_nat pos)) (\<lambda>address.
               try_bind (substr url pos) (\<lambda>path. Inr (''wss'', address, path))))
      | Some pos \<Rightarrow>
          try_bind (substr_count url 0 (word_of_nat pos)) (\<lambda>protoco.
            let address_begin = pos + 3 in
            case str_find_from ''/'' url address_begin of
              None \<Rightarrow> try_bind (substr url address_begin) (\<lambda>address. Inr (protoco, address, ''/''))
            | Some pos1 \<Rightarrow>
                try_bind (substr_count url address_begin (word_of_nat (pos1 - address_begin))) (\<lambda>address.
                try_bind (substr url pos1) (\<lambda>path. Inr (protoco, address, path)))))"

text \<open>The second part: the port, or the default port of the scheme.\<close>

definition ws_port :: "string \<times> string \<times> string \<Rightarrow> cpp_exn + (string \<times> string \<times> 16 word)" where
  "ws_port = (\<lambda>(protoco, address, path).
     let pos = str_find '':'' address in
     try_bind
       (if pos \<noteq> Some 3 \<and> pos \<noteq> Some 4 \<and> pos \<noteq> None
        then try_bind (substr address (the pos + 1)) (\<lambda>s.
             try_bind (stoi s) (\<lambda>v.
             try_bind (substr_count address 0 (word_of_nat (the pos))) (\<lambda>a. Inr (a, int16 v))))
        else Inr (address, - 1))
       (\<lambda>(address, port).
          Inr (address, path, if port = - 1 then (if protoco = ''ws'' then 80 else 443) else port)))"

definition ws_endpoint :: "string \<Rightarrow> cpp_exn + (string \<times> string \<times> 16 word)" where
  "ws_endpoint url = try_bind (ws_split url) ws_port"

section \<open>Searches in composed addresses\<close>

lemma str_find_length: "str_find pat s = Some k \<Longrightarrow> k + length pat \<le> length s"
proof (induction s arbitrary: k)
  case (Cons c s)
  show ?case
  proof (cases "prefix pat (c # s)")
    case True
    then show ?thesis using Cons.prems prefix_length_le[of pat "c # s"] by simp
  next
    case False
    then obtain j where "str_find pat s = Some j" "k = Suc j" using Cons.prems by auto
    then show ?thesis using Cons.IH by simp
  qed
qed (auto split: if_splits)

lemma http_strip_total [simp]: "http_strip address port \<noteq> Inl e"
  using str_find_length[of "''https://''" address] str_find_length[of "''http://''" address]
  by (cases "str_find ''https://'' address"; cases "str_find ''http://'' address")
    (auto simp: http_strip_def substr_def substr_count_def)

lemma https_in_http: "str_find ''https://'' rest = None \<Longrightarrow> str_find ''https://'' (''http://'' @ rest) = None"
  by simp

lemma take_unat_small:
  "length a < 2 ^ 64 \<Longrightarrow> take (unat (word_of_nat (length a) :: u64)) (a @ b) = a"
  by (simp add: unat_of_nat)

lemma substr_count_prefix:
  "length a < 2 ^ 64 \<Longrightarrow> substr_count (a @ b) 0 (word_of_nat (length a)) = Inr a"
  by (simp add: substr_count_def unat_of_nat)

lemma substr_count_middle:
  "length h < 2 ^ 64 \<Longrightarrow> substr_count (a @ h @ b) (length a) (word_of_nat (length h)) = Inr h"
  by (simp add: substr_count_def unat_of_nat)

lemma substr_suffix: "substr (a @ b) (length a) = Inr b"
  by (simp add: substr_def)

text \<open>The parts of a full URL.\<close>

lemma ws_split_url:
  assumes "CHR '':'' \<notin> set scheme" and "CHR ''/'' \<notin> set authority"
    and "path = [] \<or> hd path = CHR ''/''"
    and "length (scheme @ ''://'' @ authority @ path) < 2 ^ 64"
  shows "ws_split (scheme @ ''://'' @ authority @ path)
    = Inr (scheme, authority, if path = [] then ''/'' else path)"
proof -
  let ?url = "scheme @ ''://'' @ authority @ path" and ?pre = "scheme @ ''://''"
  have sep: "str_find ''://'' ?url = Some (length scheme)"
    using str_find_sep[OF assms(1), of "''//''" "authority @ path"] by simp
  have scheme: "substr_count ?url 0 (word_of_nat (length scheme)) = Inr scheme"
    using assms(4) by (intro substr_count_prefix) simp
  have begin_ix: "length scheme + 3 = length ?pre" by simp
  have rest: "drop (length scheme + 3) ?url = authority @ path" by simp
  show ?thesis
  proof (cases path)
    case Nil
    have "str_find_from ''/'' ?url (length scheme + 3) = None"
      using assms(2) Nil by (simp add: str_find_from_def str_find_char_none)
    moreover have "substr ?url (length scheme + 3) = Inr authority"
      using Nil by (simp add: substr_def)
    ultimately show ?thesis using Nil sep scheme by (simp add: ws_split_def Let_def)
  next
    case (Cons c p)
    then have c: "c = CHR ''/''" using assms(3) by simp
    have slash: "str_find_from ''/'' ?url (length scheme + 3) = Some (length scheme + 3 + length authority)"
      using str_find_char_at[OF assms(2), of p] Cons c by (simp add: str_find_from_def)
    have "substr_count (?pre @ authority @ path) (length ?pre) (word_of_nat (length authority)) = Inr authority"
      using assms(4) by (intro substr_count_middle) simp
    then have auth: "substr_count ?url (length scheme + 3) (word_of_nat (length authority)) = Inr authority"
      by (simp add: numeral_3_eq_3)
    have "substr ((?pre @ authority) @ path) (length (?pre @ authority)) = Inr path"
      by (rule substr_suffix)
    then have "substr ?url (length scheme + 3 + length authority) = Inr path"
      by (simp add: numeral_3_eq_3)
    then show ?thesis using Cons sep scheme slash auth
      by (simp only: ws_split_def Let_def option.case try_bind.simps diff_add_inverse) simp
  qed
qed

text \<open>Which host lengths the test \<open>pos != 3 && pos != 4\<close> lets through.\<close>

lemma ws_port_number:
  assumes "CHR '':'' \<notin> set host" and "n < 2 ^ 31" and "length host < 2 ^ 64"
  shows "ws_port (scheme, host @ '':'' @ dec n, path) = Inr (
     if length host = 3 \<or> length host = 4
     then (host @ '':'' @ dec n, path, if scheme = ''ws'' then 80 else 443)
     else (host, path, if int16 (int n) = - 1 then (if scheme = ''ws'' then 80 else 443)
                       else int16 (int n)))"
proof -
  have colon: "str_find '':'' (host @ CHR '':'' # dec n) = Some (length host)"
    by (rule str_find_char_at[OF assms(1)])
  have "substr ((host @ '':'') @ dec n) (length (host @ '':'')) = Inr (dec n)"
    by (rule substr_suffix)
  then have num: "substr (host @ CHR '':'' # dec n) (Suc (length host)) = Inr (dec n)" by simp
  have val: "stoi (dec n) = Inr (int n)" using stoi_dec[OF assms(2), of "[]"] by simp
  have "substr_count (host @ CHR '':'' # dec n) 0 (word_of_nat (length host)) = Inr host"
    using assms(3) by (rule substr_count_prefix)
  with colon num val show ?thesis by (simp add: ws_port_def Let_def)
qed

lemma ws_port_default:
  "CHR '':'' \<notin> set host \<Longrightarrow>
   ws_port (scheme, host, path) = Inr (host, path, if scheme = ''ws'' then 80 else 443)"
  by (simp add: ws_port_def str_find_char_none)

section \<open>Properties\<close>



text \<open>
  The host of three or four characters is not separated from its port: the connection goes
  to the default port of the scheme with the port text as a part of the host name.
\<close>

theorem ws_short_host_keeps_port:
  assumes "CHR '':'' \<notin> set scheme" and "CHR '':'' \<notin> set host" and "CHR ''/'' \<notin> set host"
    and "path = [] \<or> hd path = CHR ''/''" and "n < 2 ^ 31"
    and "length (scheme @ ''://'' @ (host @ '':'' @ dec n) @ path) < 2 ^ 64"
    and "length host \<in> {3, 4}"
  shows "ws_endpoint (scheme @ ''://'' @ (host @ '':'' @ dec n) @ path) =
    Inr (host @ '':'' @ dec n, if path = [] then ''/'' else path, if scheme = ''ws'' then 80 else 443)"
proof -
  have "ws_split (scheme @ ''://'' @ (host @ '':'' @ dec n) @ path)
      = Inr (scheme, host @ '':'' @ dec n, if path = [] then ''/'' else path)"
    using assms(1,3,4,6) by (intro ws_split_url) simp_all
  moreover have "length host < 2 ^ 64" using assms(6) by simp
  ultimately show ?thesis
    using ws_port_number[OF assms(2,5), of scheme "if path = [] then ''/'' else path"] assms(7)
    by (auto simp add: ws_endpoint_def)
qed

theorem ws_short_host_keeps_port_witness:
  "ws_endpoint (''ws'' @ ''://'' @ (''host'' @ '':'' @ dec 9000) @ []) =
    Inr (''host'' @ '':'' @ dec 9000, if ([] :: string) = [] then ''/'' else [], if ''ws'' = ''ws'' then 80 else 443)"
proof (rule ws_short_host_keeps_port)
  show "length (''ws'' @ ''://'' @ (''host'' @ '':'' @ dec 9000) @ []) < 2 ^ 64"
    by (simp add: dec.simps)
qed simp_all

text \<open>
  Without a port the default of the scheme is taken: 80 for \<open>ws\<close>, 443 for every other.
\<close>

theorem ws_endpoint_default_port:
  assumes "CHR '':'' \<notin> set scheme" and "CHR '':'' \<notin> set host" and "CHR ''/'' \<notin> set host"
    and "path = [] \<or> hd path = CHR ''/''" and "length (scheme @ ''://'' @ host @ path) < 2 ^ 64"
  shows "ws_endpoint (scheme @ ''://'' @ host @ path) =
    Inr (host, if path = [] then ''/'' else path, if scheme = ''ws'' then 80 else 443)"
  using ws_split_url[OF assms(1,3,4,5)] ws_port_default[OF assms(2)]
  by (simp add: ws_endpoint_def)

theorem ws_endpoint_default_port_witness:
  "ws_endpoint (''wss'' @ ''://'' @ ''ws.example.com'' @ ''/v2/feed'') =
    Inr (''ws.example.com'', if ''/v2/feed'' = [] then ''/'' else ''/v2/feed'',
         if ''wss'' = ''ws'' then 80 else 443)"
  by (rule ws_endpoint_default_port) simp_all

text \<open>
  An \<open>https\<close> address always gets port 443 and keeps everything behind the scheme as its host,
  an explicit port included.
\<close>

theorem https_endpoint:
  "http_endpoint (''https://'' @ rest) = Inr (rest, 443)"
  by (simp add: http_endpoint_def http_port_def http_has_port_def http_strip_def substr_def)

text \<open>
  An \<open>http\<close> address keeps port -1, because the default is only set where the port is 0.
\<close>

theorem http_endpoint_no_port:
  assumes "str_find ''https://'' rest = None"
  shows "http_endpoint (''http://'' @ rest) = Inr (rest, - 1)"
  using https_in_http[OF assms] 
  by (simp add: http_endpoint_def http_port_def http_has_port_def http_strip_def substr_def)

theorem http_endpoint_no_port_witness:
  "http_endpoint (''http://'' @ ''example.com:8080'') = Inr (''example.com:8080'', - 1)"
  by (rule http_endpoint_no_port) simp

text \<open>
  An address \<open>host:port\<close> without scheme gives its port, cut to 16 bits, but the host keeps the
  port text, unless the host has four or five characters: then there is no port at all.
\<close>

theorem http_endpoint_host_port:
  assumes "CHR '':'' \<notin> set host" and "CHR ''/'' \<notin> set host" and "n < 2 ^ 31"
  shows "http_endpoint (host @ '':'' @ dec n) = Inr (host @ '':'' @ dec n,
     if length host = 4 \<or> length host = 5 then - 1 else int16 (int n))"
proof -
  let ?a = "host @ '':'' @ dec n"
  have colon: "str_find '':'' ?a = Some (length host)"
    using str_find_char_at[OF assms(1), of "dec n"] by simp
  have scheme: "str_find ''https://'' ?a = None" "str_find ''http://'' ?a = None"
    using assms(2) by (auto intro: str_find_missing[where c = "CHR ''/''"])
  have "substr ((host @ '':'') @ dec n) (length (host @ '':'')) = Inr (dec n)"
    by (rule substr_suffix)
  then have num: "substr ?a (Suc (length host)) = Inr (dec n)" by simp
  have val: "stoi (dec n) = Inr (int n)" using stoi_dec[OF assms(3), of "[]"] by simp
  show ?thesis
    using colon scheme num val
    by (simp add: http_endpoint_def http_port_def http_has_port_def http_strip_def Let_def)
qed

theorem http_endpoint_host_port_witness:
  "http_endpoint (''example.com'' @ '':'' @ dec 8080) = Inr (''example.com'' @ '':'' @ dec 8080,
     if length ''example.com'' = 4 \<or> length ''example.com'' = 5 then - 1 else int16 (int 8080))"
  by (rule http_endpoint_host_port) simp_all

text \<open>
  The constructor of \<open>http_client\<close> ends the program exactly for an address whose first colon is
  at neither of the positions 4 and 5 and is not followed by a number that fits an \<open>int\<close>.
\<close>

theorem http_endpoint_terminates_program:
  "(\<exists>e. http_endpoint address = Inl e) \<longleftrightarrow>
     (\<exists>pos e. str_find '':'' address = Some pos \<and> pos \<noteq> 4 \<and> pos \<noteq> 5
        \<and> stoi (drop (pos + 1) address) = Inl e)"
proof (cases "http_has_port address")
  case True
  then obtain pos where pos: "str_find '':'' address = Some pos" "pos \<noteq> 4" "pos \<noteq> 5"
    by (auto simp: http_has_port_def Let_def)
  have "substr address (pos + 1) = Inr (drop (pos + 1) address)"
    using str_find_length[OF pos(1)] by (simp add: substr_def)
  then show ?thesis using True pos
    by (cases "stoi (drop (pos + 1) address)") (auto simp: http_endpoint_def http_port_def)
next
  case False
  then show ?thesis
    by (auto simp: http_endpoint_def http_port_def http_has_port_def Let_def)
qed

end
