(* ===== verification/Request_Info.thy ===== *)
theory Request_Info
  imports String_Ring Object_Pool Url_Parsing
begin

text \<open>
  The data the clients and the service share: \<open>http_request\<close> and \<open>http_response\<close> of
  include/slicksocket/http_client.h, the structs \<open>http_info\<close>, \<open>socket_info\<close> and
  \<open>request_info\<close> of src/socket_service.h, and the boundary to libwebsockets and to the
  user.

  Libwebsockets is not part of the repository. What it answers to the calls a callback makes
  is the argument \<open>lws_api\<close> of that callback; what the code makes it or the user do is the
  list of \<open>effect\<close>s the callback produces. A user callback object and a connection
  (\<open>lws*\<close>) are names, numbers here; a null pointer is \<open>None\<close>, and a call through it is
  \<open>Out_of_bounds\<close>.
\<close>

section \<open>Requests and responses of the HTTP client\<close>

text \<open>\<open>hr_headers\<close> lists the entries of the \<open>unordered_map\<close> in the order of its iteration.\<close>

record http_request =
  hr_body :: string
  hr_content_type :: string
  hr_headers :: "(string \<times> string) list"

definition http_request_new :: http_request where
  "http_request_new = \<lparr>hr_body = [], hr_content_type = [], hr_headers = []\<rparr>"

definition with_colon :: "string \<Rightarrow> string" where
  "with_colon key = (if last key \<noteq> CHR '':'' then key @ '':'' else key)"

text \<open>\<open>key.back()\<close> of an empty key is undefined; \<open>emplace\<close> keeps an entry that is there.\<close>

definition add_header :: "string \<Rightarrow> string \<Rightarrow> http_request \<Rightarrow> http_request result" where
  "add_header key value r =
     (if key = [] then Out_of_bounds
      else let key = with_colon key in
        Done (if map_of (hr_headers r) key = None
              then r\<lparr>hr_headers := hr_headers r @ [(key, value)]\<rparr> else r))"

definition add_body :: "string \<Rightarrow> string \<Rightarrow> http_request \<Rightarrow> http_request" where
  "add_body body content_type r = r\<lparr>hr_body := body, hr_content_type := content_type\<rparr>"

record http_response =
  hp_status :: u32
  hp_content_type :: string
  hp_text :: string

definition http_response_new :: "u32 \<Rightarrow> string \<Rightarrow> string \<Rightarrow> http_response" where
  "http_response_new stat type response =
     \<lparr>hp_status = stat, hp_content_type = type, hp_text = response\<rparr>"

section \<open>Requests of the service\<close>

datatype request_type = Http | Ws | Socket

text \<open>
  \<open>lws_client_connect_info\<close>: the fields the code sets. The strings are those the stored
  pointers point to; \<open>ci_pwsi\<close> and \<open>ci_userdata\<close> name the request object.
\<close>

record connect_info =
  ci_context :: bool
  ci_port :: u32
  ci_address :: "string option"
  ci_host :: "string option"
  ci_origin :: "string option"
  ci_path :: "string option"
  ci_alpn :: "string option"
  ci_protocol :: "string option"
  ci_method :: "string option"
  ci_ssl :: bool
  ci_pwsi :: "obj option"
  ci_userdata :: "obj option"

definition connect_info_zero :: connect_info where
  "connect_info_zero = \<lparr>ci_context = False, ci_port = 0, ci_address = None, ci_host = None,
     ci_origin = None, ci_path = None, ci_alpn = None, ci_protocol = None, ci_method = None,
     ci_ssl = False, ci_pwsi = None, ci_userdata = None\<rparr>"

text \<open>\<open>hi_content_type\<close> is the array \<open>char[512]\<close>, \<open>hi_response\<close> the content of the stream.\<close>

record http_info =
  hi_status :: u32
  hi_request :: "http_request option"
  hi_callback :: "nat option"
  hi_response :: string
  hi_content_type :: string
  hi_completed :: bool

record socket_info =
  si_callback :: "nat option"
  si_ring :: string_ring
  si_shutdown :: bool
  si_invoked :: bool

record request_info =
  ri_wsi :: "nat option"
  ri_service :: bool
  ri_type :: request_type
  ri_path :: string
  ri_cci :: connect_info
  ri_http :: http_info
  ri_socket :: socket_info

text \<open>
  A new object: default member initialisers. \<open>mem\<close> and \<open>text\<close> are what the memory of the
  ring and of \<open>content_type\<close> happens to hold; \<open>type\<close> and \<open>cci\<close> are not initialised
  either and are set before they are read.
\<close>

definition request_info_new :: "byte list \<Rightarrow> string \<Rightarrow> request_info" where
  "request_info_new mem text = \<lparr>ri_wsi = None, ri_service = False, ri_type = Http, ri_path = [],
     ri_cci = connect_info_zero,
     ri_http = \<lparr>hi_status = 0, hi_request = None, hi_callback = None, hi_response = [],
       hi_content_type = text, hi_completed = False\<rparr>,
     ri_socket = \<lparr>si_callback = None, si_ring = string_ring_new mem 8192,
       si_shutdown = False, si_invoked = False\<rparr>\<rparr>"

text \<open>A null-terminated string in an array.\<close>

definition c_string :: "string \<Rightarrow> string result" where
  "c_string buf = (if CHR 0x00 \<in> set buf then Done (takeWhile (\<lambda>c. c \<noteq> CHR 0x00) buf)
     else Out_of_bounds)"

text \<open>\<open>http_response(http_info.status, http_info.content_type, http_info.response.str())\<close>\<close>

definition http_result :: "http_info \<Rightarrow> http_response result" where
  "http_result h = result_bind (c_string (hi_content_type h))
     (\<lambda>ct. Done (http_response_new (hi_status h) ct (hi_response h)))"

section \<open>Libwebsockets and the user\<close>

datatype header_token = User_agent | Content_type | Content_length

record lws_api =
  la_dummy :: int
  la_write :: "byte list \<Rightarrow> int"
  la_remaining :: u64
  la_add_token :: "header_token \<Rightarrow> string \<Rightarrow> int"
  la_add_name :: "string \<Rightarrow> string \<Rightarrow> int"
  la_status :: u32
  la_hdr_length :: nat
  la_hdr_copy :: "string \<Rightarrow> string"
  la_http_read :: int

datatype reason =
    Client_connection_error
  | Append_handshake_header
  | Client_http_writeable
  | Established_client_http
  | Receive_client_http
  | Receive_client_http_read
  | Completed_client_http
  | Closed_client_http
  | Wsi_destroy
  | Client_established
  | Client_writeable
  | Client_receive
  | Client_closed
  | Event_wait_cancelled
  | Raw_connected
  | Raw_writeable
  | Raw_rx
  | Raw_close
  | Raw_adopt
  | Protocol_init
  | Protocol_destroy
  | Other_reason

text \<open>
  What a callback makes happen. The first number is the user's callback object, the second one
  of a server's effects the client. A write carries the bytes handed to \<open>lws_write\<close>.
\<close>

datatype effect =
    Connected nat
  | Disconnected nat
  | Errored nat string
  | Received nat string u64
  | Responded nat http_response
  | Connecting connect_info
  | Written "byte list"
  | Want_write nat
  | Cancel_service
  | Header_token header_token string
  | Header_name string string
  | Body_pending bool
  | Client_connected nat nat
  | Client_disconnected nat nat
  | Client_data nat nat string

text \<open>The arguments \<open>in\<close> and \<open>len\<close> of a callback; \<open>in\<close> points to at least \<open>len\<close> bytes.\<close>

definition in_text :: "string option \<Rightarrow> u64 \<Rightarrow> string" where
  "in_text inp len = (case inp of None \<Rightarrow> [] | Some s \<Rightarrow> take (unat len) s)"

text \<open>A call of a method of the user's callback object.\<close>

definition user_call :: "nat option \<Rightarrow> (nat \<Rightarrow> effect) \<Rightarrow> effect list result" where
  "user_call cb f = (case cb of None \<Rightarrow> Out_of_bounds | Some c \<Rightarrow> Done [f c])"

definition bytes_of :: "string \<Rightarrow> byte list" where
  "bytes_of s = map of_char s"

text \<open>The conversion of the \<open>int\<close> that \<open>lws_write\<close> returns to \<open>size_t\<close>.\<close>

definition size_of_int :: "int \<Rightarrow> u64" where
  "size_of_int n = word_of_int n"

text \<open>
  What a callback answers: its return value, the effects, and the request afterwards. The
  events of one connection are run one after another.
\<close>

type_synonym answer = "(int \<times> effect list \<times> request_info) result"

type_synonym event = "lws_api \<times> reason \<times> string option \<times> u64"

fun conn_run ::
  "(lws_api \<Rightarrow> reason \<Rightarrow> string option \<Rightarrow> u64 \<Rightarrow> request_info \<Rightarrow> answer) \<Rightarrow> event list \<Rightarrow>
   request_info \<Rightarrow> (effect list \<times> request_info) result"
where
  "conn_run cb [] r = Done ([], r)"
| "conn_run cb ((lws, reason, inp, len) # evs) r =
     result_bind (cb lws reason inp len r)
       (\<lambda>(_, effs, r). result_bind (conn_run cb evs r) (\<lambda>(effs', r). Done (effs @ effs', r)))"

lemma conn_run_append:
  "conn_run cb (evs @ evs') r = result_bind (conn_run cb evs r)
     (\<lambda>(effs, t). result_bind (conn_run cb evs' t) (\<lambda>(effs', u). Done (effs @ effs', u)))"
proof (induction cb evs r rule: conn_run.induct)
  case (1 cb r)
  then show ?case by (cases "conn_run cb evs' r") auto
next
  case (2 cb lws reason inp len evs r)
  then show ?case by (auto simp: result_bind_assoc split_beta intro!: result_bind_cong)
qed

section \<open>Headers\<close>

fun add_headers :: "(string \<times> string) list \<Rightarrow> http_request \<Rightarrow> http_request result" where
  "add_headers [] r = Done r"
| "add_headers ((k, v) # kvs) r = result_bind (add_header k v r) (add_headers kvs)"

lemma map_of_snoc:
  "map_of (xs @ [(k, v)]) x = (case map_of xs x of None \<Rightarrow> if x = k then Some v else None | Some y \<Rightarrow> Some y)"
  by (auto simp: map_add_def split: option.splits)

lemma add_headers_from:
  assumes "\<forall>(k, v) \<in> set kvs. k \<noteq> []" and "distinct (map fst (hr_headers r))"
  shows "\<exists>t. add_headers kvs r = Done t \<and> distinct (map fst (hr_headers t))
    \<and> hr_body t = hr_body r \<and> hr_content_type t = hr_content_type r
    \<and> (\<forall>k. map_of (hr_headers t) k =
          (case map_of (hr_headers r) k of
             None \<Rightarrow> map_of (map (\<lambda>(k, v). (with_colon k, v)) kvs) k | Some v \<Rightarrow> Some v))"
  using assms
proof (induction kvs arbitrary: r)
  case Nil
  then show ?case by (auto split: option.splits)
next
  case (Cons kv kvs)
  obtain k v where kv: "kv = (k, v)" by (cases kv)
  let ?k = "with_colon k"
  have ne: "k \<noteq> []" using Cons.prems kv by simp
  let ?r = "if map_of (hr_headers r) ?k = None then r\<lparr>hr_headers := hr_headers r @ [(?k, v)]\<rparr> else r"
  have step: "add_header k v r = Done ?r" using ne by (simp add: add_header_def Let_def)
  have dist: "distinct (map fst (hr_headers ?r))"
    using Cons.prems(2) by (auto simp: map_of_eq_None_iff)
  have look: "map_of (hr_headers ?r) x =
      (case map_of (hr_headers r) x of None \<Rightarrow> if x = ?k then Some v else None | Some y \<Rightarrow> Some y)" for x
    by (auto simp: map_of_snoc simp del: map_of_append split: option.splits)
  obtain t where t: "add_headers kvs ?r = Done t" "distinct (map fst (hr_headers t))"
    "hr_body t = hr_body ?r" "hr_content_type t = hr_content_type ?r"
    "\<forall>x. map_of (hr_headers t) x = (case map_of (hr_headers ?r) x of
       None \<Rightarrow> map_of (map (\<lambda>(k, v). (with_colon k, v)) kvs) x | Some y \<Rightarrow> Some y)"
    using Cons.IH[OF _ dist] Cons.prems(1) by auto
  have "map_of (hr_headers t) x = (case map_of (hr_headers r) x of
      None \<Rightarrow> map_of (map (\<lambda>(k, v). (with_colon k, v)) (kv # kvs)) x | Some y \<Rightarrow> Some y)" for x
    using t(5) look[of x] kv by (auto split: option.splits)
  then show ?case using t kv step by (intro exI[of _ t]) simp
qed

section \<open>Properties\<close>

text \<open>
  Whatever headers are added, under names that are not empty, \<open>headers()\<close> has each name
  once, completed by a colon, and with the value that was added first.
\<close>

theorem add_headers_lookup:
  assumes "\<forall>(k, v) \<in> set kvs. k \<noteq> []"
  shows "\<exists>r. add_headers kvs http_request_new = Done r \<and> distinct (map fst (hr_headers r))
    \<and> (\<forall>k. map_of (hr_headers r) k = map_of (map (\<lambda>(k, v). (with_colon k, v)) kvs) k)"
  using add_headers_from[OF assms, of http_request_new] by (auto simp: http_request_new_def)

theorem add_headers_lookup_witness:
  "\<exists>r. add_headers [(''Accept'', ''text''), (''Accept:'', ''json'')] http_request_new = Done r
    \<and> distinct (map fst (hr_headers r))
    \<and> (\<forall>k. map_of (hr_headers r) k =
          map_of (map (\<lambda>(k, v). (with_colon k, v)) [(''Accept'', ''text''), (''Accept:'', ''json'')]) k)"
  by (rule add_headers_lookup) simp

end
