(* ===== verification/Http_Callback.thy ===== *)
theory Http_Callback
  imports Request_Info
begin

text \<open>
  \<open>http_callback\<close> of src/http_client.cpp: what the service thread does with the events of an
  HTTP connection. A callback maps the request to its return value, the effects and the
  request afterwards; its case of the \<open>switch\<close> is one definition each.
\<close>

section \<open>The cases of the callback\<close>

definition http_upd :: "(http_info \<Rightarrow> http_info) \<Rightarrow> request_info \<Rightarrow> request_info" where
  "http_upd f r = r\<lparr>ri_http := f (ri_http r)\<rparr>"

text \<open>\<open>http_info.response << text\<close> and \<open>http_info.completed.store(true)\<close>.\<close>

definition respond_text :: "string \<Rightarrow> request_info \<Rightarrow> request_info" where
  "respond_text text = http_upd (\<lambda>h. h\<lparr>hi_response := hi_response h @ text\<rparr>)"

definition http_complete :: "request_info \<Rightarrow> request_info" where
  "http_complete = http_upd (\<lambda>h. h\<lparr>hi_completed := True\<rparr>)"

text \<open>The four lines of every failure: forget the connection, explain, complete, return -1.\<close>

definition http_fail :: "effect list \<Rightarrow> string \<Rightarrow> request_info \<Rightarrow> answer" where
  "http_fail effs text r =
     Done (- 1, effs, http_complete (respond_text (ri_path r @ text) (r\<lparr>ri_wsi := None\<rparr>)))"

definition http_connection_error :: "lws_api \<Rightarrow> string option \<Rightarrow> u64 \<Rightarrow> request_info \<Rightarrow> answer" where
  "http_connection_error lws inp len r =
     (let r = respond_text (ri_path r @ '' error occurred. '') r;
          r = (if inp \<noteq> None \<and> len \<noteq> 0 then respond_text (in_text inp len) r else r);
          r = r\<lparr>ri_wsi := None\<rparr>
      in Done (la_dummy lws, [], http_complete r))"

text \<open>The loop over the request's headers: the effects, and the header that failed.\<close>

fun put_headers ::
  "lws_api \<Rightarrow> (string \<times> string) list \<Rightarrow> effect list \<times> (string \<times> string) option"
where
  "put_headers lws [] = ([], None)"
| "put_headers lws ((k, v) # kvs) =
     (if la_add_name lws k v \<noteq> 0 then ([Header_name k v], Some (k, v))
      else let (effs, failed) = put_headers lws kvs in (Header_name k v # effs, failed))"

definition http_append_headers :: "lws_api \<Rightarrow> nat \<Rightarrow> request_info \<Rightarrow> answer" where
  "http_append_headers lws wsi r =
     (let effs = [Header_token User_agent ''libwebsocket''] in
      if la_add_token lws User_agent ''libwebsocket'' \<noteq> 0
      then http_fail effs '' failed to add User-Agent header'' r
      else case hi_request (ri_http r) of
        None \<Rightarrow> Done (la_dummy lws, effs, r)
      | Some q \<Rightarrow>
          let (hdr_effs, failed) = put_headers lws (hr_headers q); effs = effs @ hdr_effs in
          (case failed of
            Some (k, v) \<Rightarrow> http_fail effs ('' failed to add header '' @ k @ '': '' @ v) r
          | None \<Rightarrow>
              let ct = hr_content_type q;
                  effs = effs @ (if ct \<noteq> [] then [Header_token Content_type ct] else []) in
              if ct \<noteq> [] \<and> la_add_token lws Content_type ct \<noteq> 0
              then http_fail effs ('' failed to add header Content-Type:'' @ ct) r
              else let body = hr_body q; sz = dec (length body);
                  effs = effs @ (if body \<noteq> [] then [Header_token Content_length sz] else []) in
                if body = [] then Done (la_dummy lws, effs, r)
                else if la_add_token lws Content_length sz \<noteq> 0
                then http_fail effs ('' failed to add header Content-Length:'' @ sz) r
                else Done (la_dummy lws, effs @ [Body_pending True, Want_write wsi], r)))"

text \<open>
  The size of \<open>http_info.buffer\<close> behind \<open>LWS_PRE\<close> is 8192. \<open>lws_snprintf(p, sz, "%s", s)\<close>
  prints \<open>s\<close> up to its first null character and at most \<open>sz - 1\<close> characters.
\<close>

definition http_writeable :: "lws_api \<Rightarrow> request_info \<Rightarrow> answer" where
  "http_writeable lws r =
     (case hi_request (ri_http r) of
        None \<Rightarrow> Done (la_dummy lws, [], r)
      | Some q \<Rightarrow>
          let body = hr_body q; sz = length body + 1 in
          if sz > 8192 then http_fail [] '' body exceeds buffer size'' r
          else let text = take (sz - 1) (takeWhile (\<lambda>c. c \<noteq> CHR 0x00) body); n = length text;
                 effs = [Body_pending False, Written (bytes_of text)] in
            if la_write lws (bytes_of text) \<noteq> int n
            then http_fail effs '' failed to write body'' r
            else Done (la_dummy lws, effs, r))"

text \<open>\<open>http_info.response.clear()\<close> clears the state flags of the stream, not its text.\<close>

definition http_established :: "bool \<Rightarrow> lws_api \<Rightarrow> request_info \<Rightarrow> answer" where
  "http_established ndebug lws r =
     (let r = http_upd (\<lambda>h. h\<lparr>hi_status := la_status lws\<rparr>) r in
      check_assert ndebug (512 > la_hdr_length lws)
        (Done (la_dummy lws, [],
           http_upd (\<lambda>h. h\<lparr>hi_content_type := la_hdr_copy lws (hi_content_type h)\<rparr>) r)))"

definition http_callback ::
  "bool \<Rightarrow> lws_api \<Rightarrow> nat \<Rightarrow> reason \<Rightarrow> string option \<Rightarrow> u64 \<Rightarrow> request_info \<Rightarrow> answer"
where
  "http_callback ndebug lws wsi reason inp len r =
     (case reason of
        Client_connection_error \<Rightarrow> http_connection_error lws inp len r
      | Append_handshake_header \<Rightarrow> http_append_headers lws wsi r
      | Client_http_writeable \<Rightarrow> http_writeable lws r
      | Established_client_http \<Rightarrow> http_established ndebug lws r
      | Receive_client_http \<Rightarrow>
          if la_http_read lws < 0 then Done (- 1, [], http_complete r) else Done (0, [], r)
      | Receive_client_http_read \<Rightarrow> Done (0, [], respond_text (in_text inp len) r)
      | Completed_client_http \<Rightarrow>
          Done (la_dummy lws, [Cancel_service], http_complete (r\<lparr>ri_wsi := None\<rparr>))
      | Closed_client_http \<Rightarrow>
          Done (la_dummy lws, [Cancel_service], http_complete (r\<lparr>ri_wsi := None\<rparr>))
      | Wsi_destroy \<Rightarrow> Done (la_dummy lws, [], http_complete (r\<lparr>ri_wsi := None\<rparr>))
      | _ \<Rightarrow> Done (la_dummy lws, [], r))"

section \<open>What every event keeps\<close>

text \<open>The fields of a request no HTTP event touches, and the ones it changes in one direction.\<close>

definition http_frame :: "request_info \<Rightarrow> request_info \<Rightarrow> bool" where
  "http_frame r t \<longleftrightarrow> ri_type t = ri_type r \<and> ri_path t = ri_path r \<and> ri_cci t = ri_cci r
     \<and> ri_service t = ri_service r \<and> ri_socket t = ri_socket r
     \<and> hi_request (ri_http t) = hi_request (ri_http r)
     \<and> hi_callback (ri_http t) = hi_callback (ri_http r)
     \<and> (hi_completed (ri_http r) \<longrightarrow> hi_completed (ri_http t))
     \<and> (\<exists>more. hi_response (ri_http t) = hi_response (ri_http r) @ more)
     \<and> (ri_wsi t = ri_wsi r \<or> ri_wsi t = None \<and> hi_completed (ri_http t))"

lemmas http_defs = http_connection_error_def http_append_headers_def http_writeable_def
  http_established_def http_fail_def http_complete_def respond_text_def http_upd_def

lemma http_frame_refl: "http_frame r r"
  by (simp add: http_frame_def)

lemma http_fail_frame: "http_fail effs text r = Done (ret, effs', t) \<Longrightarrow> http_frame r t \<and> ret = - 1"
  by (auto simp: http_defs http_frame_def)

lemma http_append_headers_frame:
  "\<exists>ret effs t. http_append_headers lws wsi r = Done (ret, effs, t) \<and> http_frame r t"
  by (auto simp: http_append_headers_def http_fail_def http_complete_def respond_text_def http_upd_def
      http_frame_def Let_def split: option.splits prod.splits)

lemma http_writeable_frame:
  "\<exists>ret effs t. http_writeable lws r = Done (ret, effs, t) \<and> http_frame r t"
  by (auto simp: http_writeable_def http_fail_def http_complete_def respond_text_def http_upd_def
      http_frame_def Let_def split: option.splits)

lemma http_callback_frame:
  assumes "la_hdr_length lws < 512"
  shows "\<exists>ret effs t. http_callback ndebug lws wsi reason inp len r = Done (ret, effs, t) \<and> http_frame r t"
  using assms http_append_headers_frame[of lws wsi r] http_writeable_frame[of lws r]
  by (cases reason)
    (auto simp: http_callback_def http_connection_error_def http_established_def http_complete_def
      respond_text_def http_upd_def http_frame_def Let_def)

section \<open>A sequence of events\<close>

definition http_run :: "bool \<Rightarrow> nat \<Rightarrow> event list \<Rightarrow> request_info \<Rightarrow> (effect list \<times> request_info) result" where
  "http_run ndebug wsi = conn_run (\<lambda>lws. http_callback ndebug lws wsi)"

lemma http_run_simps [simp]:
  "http_run ndebug wsi [] r = Done ([], r)"
  "http_run ndebug wsi ((lws, reason, inp, len) # evs) r =
     result_bind (http_callback ndebug lws wsi reason inp len r)
       (\<lambda>(_, effs, r). result_bind (http_run ndebug wsi evs r) (\<lambda>(effs', r). Done (effs @ effs', r)))"
  by (simp_all add: http_run_def)

definition chunk_events :: "lws_api \<Rightarrow> string list \<Rightarrow> event list" where
  "chunk_events lws = map (\<lambda>c. (lws, Receive_client_http_read, Some c, word_of_nat (length c)))"

lemma http_run_chunks:
  assumes "\<forall>c \<in> set cs. length c < 2 ^ 64"
  shows "http_run ndebug wsi (chunk_events lws cs @ evs) r =
    http_run ndebug wsi evs (respond_text (concat cs) r)"
  using assms
proof (induction cs arbitrary: r)
  case Nil
  then show ?case by (simp add: chunk_events_def respond_text_def http_upd_def)
next
  case (Cons c cs)
  have "respond_text (concat cs) (respond_text c r) = respond_text (concat (c # cs)) r" for r
    by (simp add: respond_text_def http_upd_def)
  moreover have "in_text (Some c) (word_of_nat (length c)) = c"
    using Cons.prems by (simp add: in_text_def unat_of_nat)
  ultimately show ?case
    using Cons
    by (simp add: chunk_events_def http_callback_def)
      (cases "http_run ndebug wsi evs (respond_text (c @ concat cs) r)"; auto)
qed

lemma c_string_terminated: "CHR 0x00 \<notin> set ct \<Longrightarrow> c_string (ct @ CHR 0x00 # rest) = Done ct"
  by (auto simp: c_string_def takeWhile_tail intro!: takeWhile_append2[THEN trans])

lemma length_takeWhile_all: "length (takeWhile P xs) = length xs \<longleftrightarrow> (\<forall>x \<in> set xs. P x)"
  by (induction xs) auto

section \<open>The handshake of a request with a body\<close>

lemma put_headers_ok:
  "(\<And>k v. la_add_name lws k v = 0) \<Longrightarrow>
   put_headers lws kvs = (map (\<lambda>(k, v). Header_name k v) kvs, None)"
  by (induction kvs) auto

lemma append_headers_ok:
  assumes "\<And>tok v. la_add_token lws tok v = 0" and "\<And>k v. la_add_name lws k v = 0"
    and "hi_request (ri_http r) = Some q"
  shows "http_append_headers lws wsi r = Done (la_dummy lws,
    [Header_token User_agent ''libwebsocket''] @ map (\<lambda>(k, v). Header_name k v) (hr_headers q)
      @ (if hr_content_type q \<noteq> [] then [Header_token Content_type (hr_content_type q)] else [])
      @ (if hr_body q \<noteq> [] then [Header_token Content_length (dec (length (hr_body q))),
           Body_pending True, Want_write wsi] else []), r)"
  using assms by (simp add: http_append_headers_def put_headers_ok[OF assms(2)] Let_def)

section \<open>Properties\<close>



text \<open>Answers of libwebsockets for the witnesses.\<close>

definition lws_ok :: lws_api where
  "lws_ok = \<lparr>la_dummy = 0, la_write = (\<lambda>bs. int (length bs)), la_remaining = 0,
     la_add_token = (\<lambda>_ _. 0), la_add_name = (\<lambda>_ _. 0), la_status = 200, la_hdr_length = 4,
     la_hdr_copy = (\<lambda>old. ''text'' @ [CHR 0x00] @ drop 5 old), la_http_read = 0\<rparr>"



text \<open>
  A request whose connection fails is completed with the path, the words of the code and
  the reason libwebsockets gives as text, and with the status and the content type it had: for
  a new request status 0 and whatever the uninitialised array holds.
\<close>

theorem http_error_response:
  assumes "length msg < 2 ^ 64" and "msg \<noteq> []"
  shows "\<exists>t. http_callback ndebug lws wsi Client_connection_error (Some msg) (word_of_nat (length msg))
       ((request_info_new mem text)\<lparr>ri_path := path\<rparr>) = Done (la_dummy lws, [], t)
     \<and> ri_wsi t = None \<and> hi_completed (ri_http t)
     \<and> http_result (ri_http t) = result_bind (c_string text)
         (\<lambda>ct. Done (http_response_new 0 ct (path @ '' error occurred. '' @ msg)))"
proof -
  have "(word_of_nat (length msg) :: u64) \<noteq> 0"
  proof
    assume "(word_of_nat (length msg) :: u64) = 0"
    then have "unat (word_of_nat (length msg) :: u64) = 0" by simp
    then show False using assms by (simp add: unat_of_nat)
  qed
  moreover have "in_text (Some msg) (word_of_nat (length msg)) = msg"
    using assms by (simp add: in_text_def unat_of_nat)
  ultimately show ?thesis
    by (simp add: http_callback_def http_connection_error_def http_result_def http_complete_def
        respond_text_def http_upd_def request_info_new_def)
qed

theorem http_error_response_witness:
  "\<exists>t. http_callback False lws_ok 3 Client_connection_error (Some ''timeout'')
       (word_of_nat (length ''timeout'')) ((request_info_new [] [CHR ''x''])\<lparr>ri_path := ''/v''\<rparr>)
       = Done (la_dummy lws_ok, [], t)
     \<and> ri_wsi t = None \<and> hi_completed (ri_http t)
     \<and> http_result (ri_http t) = result_bind (c_string [CHR ''x''])
         (\<lambda>ct. Done (http_response_new 0 ct (''/v'' @ '' error occurred. '' @ ''timeout'')))"
  by (rule http_error_response) simp_all

text \<open>
  For a request with a body that fits the buffer the handshake announces the length of the
  body, and the body that is then written is cut at its first null character; so announcement
  and body agree exactly when the body has none.
\<close>

theorem http_body_announced:
  assumes "hi_request (ri_http r) = Some q" and "hr_body q \<noteq> []" and "length (hr_body q) < 8192"
    and "\<forall>tok v. la_add_token lws tok v = 0" and "\<forall>k v. la_add_name lws k v = 0"
    and "\<forall>bs. la_write lws bs = int (length bs)"
  shows "\<exists>effs n sent. http_callback ndebug lws wsi Append_handshake_header inp len r = Done (la_dummy lws, effs, r)
     \<and> Header_token Content_length n \<in> set effs \<and> stoi n = Inr (int (length (hr_body q)))
     \<and> http_callback ndebug lws wsi Client_http_writeable inp' len' r
         = Done (la_dummy lws, [Body_pending False, Written sent], r)
     \<and> sent = bytes_of (takeWhile (\<lambda>c. c \<noteq> CHR 0x00) (hr_body q))
     \<and> (length sent = length (hr_body q) \<longleftrightarrow> CHR 0x00 \<notin> set (hr_body q))"
proof -
  let ?text = "takeWhile (\<lambda>c. c \<noteq> CHR 0x00) (hr_body q)"
  have "length ?text \<le> length (hr_body q)" by (rule length_takeWhile_le)
  then have cut: "take (length (hr_body q)) ?text = ?text" by simp
  have written: "http_callback ndebug lws wsi Client_http_writeable inp' len' r
      = Done (la_dummy lws, [Body_pending False, Written (bytes_of ?text)], r)"
    using assms(1,3,6) cut by (simp add: http_callback_def http_writeable_def bytes_of_def)
  have val: "stoi (dec (length (hr_body q))) = Inr (int (length (hr_body q)))"
    using stoi_dec[of "length (hr_body q)" "[]"] assms(3) by simp
  have agree: "length (bytes_of ?text) = length (hr_body q) \<longleftrightarrow> CHR 0x00 \<notin> set (hr_body q)"
    by (auto simp: bytes_of_def length_takeWhile_all)
  show ?thesis
    using append_headers_ok[of lws r q wsi] assms(1,2,4,5) written val agree
    by (intro exI[of _ "[Header_token User_agent ''libwebsocket''] @ map (\<lambda>(k, v). Header_name k v) (hr_headers q)
      @ (if hr_content_type q \<noteq> [] then [Header_token Content_type (hr_content_type q)] else [])
      @ [Header_token Content_length (dec (length (hr_body q))), Body_pending True, Want_write wsi]"]
        exI[of _ "dec (length (hr_body q))"] exI[of _ "bytes_of ?text"])
      (simp add: http_callback_def)
qed

text \<open>A request with a body.\<close>

definition post_request :: request_info where
  "post_request = (request_info_new [] [])\<lparr>ri_http := (ri_http (request_info_new [] []))
     \<lparr>hi_request := Some (add_body ''{}'' ''application/json'' http_request_new)\<rparr>\<rparr>"

theorem http_body_announced_witness:
  "\<exists>effs n sent. http_callback False lws_ok 3 Append_handshake_header None 0 post_request
       = Done (la_dummy lws_ok, effs, post_request)
     \<and> Header_token Content_length n \<in> set effs
     \<and> stoi n = Inr (int (length (hr_body (add_body ''{}'' ''application/json'' http_request_new))))
     \<and> http_callback False lws_ok 3 Client_http_writeable None 0 post_request
         = Done (la_dummy lws_ok, [Body_pending False, Written sent], post_request)
     \<and> sent = bytes_of (takeWhile (\<lambda>c. c \<noteq> CHR 0x00)
           (hr_body (add_body ''{}'' ''application/json'' http_request_new)))
     \<and> (length sent = length (hr_body (add_body ''{}'' ''application/json'' http_request_new))
         \<longleftrightarrow> CHR 0x00 \<notin> set (hr_body (add_body ''{}'' ''application/json'' http_request_new)))"
  by (rule http_body_announced) (simp_all add: post_request_def lws_ok_def add_body_def)

end
