(* ===== verification/Message_Channel.thy ===== *)
theory Message_Channel
  imports Request_Info
begin

text \<open>
  What the three kinds of connection have in common: a thread of the user sends messages, and
  the thread of libwebsockets calls back whenever a message can be written. The locale
  \<open>message_channel\<close> states what sending and the writeable callback promise; that every
  message arrives at \<open>lws_write\<close> whole, once and in order follows from it for the websocket
  client, the socket client and the socket server.
\<close>

section \<open>Moves\<close>

datatype move = Send "byte list" | Writeable lws_api

fun channel_run ::
  "(byte list \<Rightarrow> 'r \<Rightarrow> (bool \<times> effect list \<times> 'r) result) \<Rightarrow>
   (lws_api \<Rightarrow> 'r \<Rightarrow> (int \<times> effect list \<times> 'r) result) \<Rightarrow> move list \<Rightarrow> 'r \<Rightarrow> (effect list \<times> 'r) result"
where
  "channel_run send pump [] r = Done ([], r)"
| "channel_run send pump (Send msg # ms) r =
     result_bind (send msg r)
       (\<lambda>(_, effs, r). result_bind (channel_run send pump ms r) (\<lambda>(effs', r). Done (effs @ effs', r)))"
| "channel_run send pump (Writeable lws # ms) r =
     result_bind (pump lws r)
       (\<lambda>(_, effs, r). result_bind (channel_run send pump ms r) (\<lambda>(effs', r). Done (effs @ effs', r)))"

text \<open>A user sends no empty message, and only while there is room for the message.\<close>

fun channel_legal ::
  "('r \<Rightarrow> byte list \<Rightarrow> bool) \<Rightarrow> (byte list \<Rightarrow> 'r \<Rightarrow> (bool \<times> effect list \<times> 'r) result) \<Rightarrow>
   (lws_api \<Rightarrow> 'r \<Rightarrow> (int \<times> effect list \<times> 'r) result) \<Rightarrow> move list \<Rightarrow> 'r \<Rightarrow> bool"
where
  "channel_legal fits send pump [] r \<longleftrightarrow> True"
| "channel_legal fits send pump (Send msg # ms) r \<longleftrightarrow> msg \<noteq> [] \<and> fits r msg \<and>
     (case send msg r of Done (_, _, t) \<Rightarrow> channel_legal fits send pump ms t | _ \<Rightarrow> True)"
| "channel_legal fits send pump (Writeable lws # ms) r \<longleftrightarrow>
     (case pump lws r of Done (_, _, t) \<Rightarrow> channel_legal fits send pump ms t | _ \<Rightarrow> True)"

text \<open>What is handed to \<open>lws_write\<close>, and what is sent.\<close>

fun written :: "effect list \<Rightarrow> byte list list" where
  "written [] = []"
| "written (Written bs # effs) = bs # written effs"
| "written (_ # effs) = written effs"

fun sends :: "move list \<Rightarrow> byte list list" where
  "sends [] = []"
| "sends (Send msg # ms) = msg # sends ms"
| "sends (Writeable lws # ms) = sends ms"

lemma written_append [simp]: "written (a @ b) = written a @ written b"
  by (induction a rule: written.induct) auto

lemma channel_run_append:
  "channel_run send pump (a @ b) r = result_bind (channel_run send pump a r)
     (\<lambda>(effs, t). result_bind (channel_run send pump b t) (\<lambda>(effs', u). Done (effs @ effs', u)))"
proof (induction send pump a r rule: channel_run.induct)
  case (1 send pump r)
  then show ?case by (cases "channel_run send pump b r") auto
qed (auto simp: result_bind_assoc split_beta intro!: result_bind_cong)

section \<open>The contract\<close>

text \<open>\<open>live r fs\<close>: the channel \<open>r\<close> holds the records \<open>fs\<close>, which carry the messages \<open>queued fs\<close>.\<close>

locale message_channel =
  fixes live :: "'r \<Rightarrow> 'f list \<Rightarrow> bool"
    and queued :: "'f list \<Rightarrow> byte list list"
    and fits :: "'r \<Rightarrow> byte list \<Rightarrow> bool"
    and send :: "byte list \<Rightarrow> 'r \<Rightarrow> (bool \<times> effect list \<times> 'r) result"
    and pump :: "lws_api \<Rightarrow> 'r \<Rightarrow> (int \<times> effect list \<times> 'r) result"
  assumes send_law: "live r fs \<Longrightarrow> msg \<noteq> [] \<Longrightarrow> fits r msg \<Longrightarrow>
      \<exists>effs t gs. send msg r = Done (True, effs, t) \<and> written effs = [] \<and> live t gs
        \<and> queued gs = queued fs @ [msg]"
    and pump_law: "live r fs \<Longrightarrow>
      \<exists>ret effs t gs. pump lws r = Done (ret, effs, t) \<and> live t gs
        \<and> queued fs = written effs @ queued gs \<and> (gs = [] \<or> length gs < length fs)"
    and queued_Nil: "queued [] = []"
begin

lemma conserves:
  assumes "live r fs" "channel_legal fits send pump ms r"
  shows "\<exists>effs t gs. channel_run send pump ms r = Done (effs, t) \<and> live t gs
    \<and> queued fs @ sends ms = written effs @ queued gs"
  using assms
proof (induction ms arbitrary: r fs)
  case Nil
  then show ?case by auto
next
  case (Cons m ms)
  show ?case
  proof (cases m)
    case (Send msg)
    then have "msg \<noteq> []" "fits r msg" using Cons.prems(2) by auto
    from send_law[OF Cons.prems(1) this] obtain effs1 t hs where
      t: "send msg r = Done (True, effs1, t)" "written effs1 = []" "live t hs"
      "queued hs = queued fs @ [msg]" by blast
    then have "channel_legal fits send pump ms t" using Cons.prems(2) Send by simp
    from Cons.IH[OF t(3) this] obtain effs u gs where
      "channel_run send pump ms t = Done (effs, u)" "live u gs"
      "queued hs @ sends ms = written effs @ queued gs" by blast
    then show ?thesis using t Send
      by (intro exI[of _ "effs1 @ effs"] exI[of _ u] exI[of _ gs]) simp
  next
    case (Writeable lws)
    from pump_law[OF Cons.prems(1), of lws] obtain ret effs1 t hs where
      t: "pump lws r = Done (ret, effs1, t)" "live t hs" "queued fs = written effs1 @ queued hs" by blast
    then have "channel_legal fits send pump ms t" using Cons.prems(2) Writeable by simp
    from Cons.IH[OF t(2) this] obtain effs u gs where
      "channel_run send pump ms t = Done (effs, u)" "live u gs"
      "queued hs @ sends ms = written effs @ queued gs" by blast
    then show ?thesis using t Writeable
      by (intro exI[of _ "effs1 @ effs"] exI[of _ u] exI[of _ gs]) simp
  qed
qed

lemma drains:
  assumes "live r fs" "length fs \<le> n"
  shows "\<exists>effs t. channel_run send pump (replicate n (Writeable lws)) r = Done (effs, t)
    \<and> live t [] \<and> written effs = queued fs"
  using assms
proof (induction n arbitrary: r fs)
  case 0
  then show ?case by (simp add: queued_Nil)
next
  case (Suc n)
  from pump_law[OF Suc.prems(1), of lws] obtain ret effs1 t gs where
    t: "pump lws r = Done (ret, effs1, t)" "live t gs" "queued fs = written effs1 @ queued gs"
    "gs = [] \<or> length gs < length fs" by blast
  then have "length gs \<le> n" using Suc.prems(2) by auto
  from Suc.IH[OF t(2) this] obtain effs u where
    "channel_run send pump (replicate n (Writeable lws)) t = Done (effs, u)" "live u []"
    "written effs = queued gs" by blast
  then show ?case using t by (intro exI[of _ "effs1 @ effs"] exI[of _ u]) simp
qed

text \<open>Everything queued or sent is written, whole, once and in order.\<close>

lemma delivers:
  assumes "live r fs" "channel_legal fits send pump ms r"
  shows "\<exists>n0. \<forall>n \<ge> n0. \<exists>effs t.
     channel_run send pump (ms @ replicate n (Writeable lws)) r = Done (effs, t)
     \<and> written effs = queued fs @ sends ms"
proof -
  from conserves[OF assms] obtain effs t gs where
    s: "channel_run send pump ms r = Done (effs, t)" "live t gs"
    "queued fs @ sends ms = written effs @ queued gs" by blast
  have "\<exists>effs' u. channel_run send pump (ms @ replicate n (Writeable lws)) r = Done (effs', u)
     \<and> written effs' = queued fs @ sends ms" if "length gs \<le> n" for n
    using drains[OF s(2) that, of lws] s by (auto simp: channel_run_append)
  then show ?thesis by blast
qed

end

end
