(* ===== verification/Websocket_Callback.thy ===== *)
theory Websocket_Callback
  imports String_Ring_Fifo Http_Callback Message_Channel
begin

text \<open>
  The websocket connection (src/websocket_client.cpp): \<open>ws_callback\<close>, which the service
  thread runs for the events of the connection, and the part of \<open>websocket_client::send\<close> that
  works on the request object. The text of a message is queued behind \<open>LWS_PRE\<close> bytes that
  libwebsockets overwrites; \<open>LWS_PRE\<close> is a constant of libwebsockets and the argument
  \<open>pre\<close> here.
\<close>

section \<open>The request's socket\<close>

definition socket_upd :: "(socket_info \<Rightarrow> socket_info) \<Rightarrow> request_info \<Rightarrow> request_info" where
  "socket_upd f r = r\<lparr>ri_socket := f (ri_socket r)\<rparr>"

definition set_ring :: "string_ring \<Rightarrow> request_info \<Rightarrow> request_info" where
  "set_ring s = socket_upd (\<lambda>i. i\<lparr>si_ring := s\<rparr>)"

abbreviation req_ring :: "request_info \<Rightarrow> string_ring" where
  "req_ring r \<equiv> si_ring (ri_socket r)"

text \<open>\<open>client.callback->...\<close> with an effect, then the rest of the case.\<close>

definition tell_user ::
  "(nat \<Rightarrow> effect) \<Rightarrow> request_info \<Rightarrow> (effect list \<Rightarrow> answer) \<Rightarrow> answer"
where
  "tell_user f r k = result_bind (user_call (si_callback (ri_socket r)) f) k"

section \<open>ws_callback\<close>

definition ws_established :: "lws_api \<Rightarrow> request_info \<Rightarrow> answer" where
  "ws_established lws r =
     result_bind (ring_reset (req_ring r)) (\<lambda>s. let r = set_ring s r in
       tell_user Connected r (\<lambda>effs.
         Done (la_dummy lws, effs, socket_upd (\<lambda>i. i\<lparr>si_invoked := False\<rparr>) r)))"

definition ws_writeable :: "nat \<Rightarrow> lws_api \<Rightarrow> nat \<Rightarrow> u64 \<Rightarrow> request_info \<Rightarrow> answer" where
  "ws_writeable pre lws wsi len r =
     result_bind (ring_read (req_ring r)) (\<lambda>(msg, s). let r = set_ring s r in
       case msg of
         None \<Rightarrow> Done (la_dummy lws, [], r)
       | Some bs \<Rightarrow>
           if bs = [] then Done (la_dummy lws, [], r)
           else if length bs < pre then Out_of_bounds
           else let text = drop pre bs; n = size_of_int (la_write lws text) in
             if n < len then Done (- 1, [Written text], r\<lparr>ri_wsi := None\<rparr>)
             else Done (la_dummy lws, [Written text, Want_write wsi], r))"

definition ws_closed :: "lws_api \<Rightarrow> request_info \<Rightarrow> answer" where
  "ws_closed lws r = (let r = r\<lparr>ri_wsi := None\<rparr> in
     tell_user Disconnected r (\<lambda>effs.
       Done (la_dummy lws, effs, socket_upd (\<lambda>i. i\<lparr>si_invoked := True\<rparr>) r)))"

definition ws_destroyed :: "lws_api \<Rightarrow> request_info \<Rightarrow> answer" where
  "ws_destroyed lws r = (let r = r\<lparr>ri_wsi := None\<rparr> in
     if \<not> si_invoked (ri_socket r)
     then tell_user Disconnected r (\<lambda>effs.
       Done (la_dummy lws, effs, socket_upd (\<lambda>i. i\<lparr>si_invoked := True\<rparr>) r))
     else Done (la_dummy lws, [], r))"

definition ws_callback ::
  "nat \<Rightarrow> lws_api \<Rightarrow> nat \<Rightarrow> reason \<Rightarrow> string option \<Rightarrow> u64 \<Rightarrow> request_info \<Rightarrow> answer"
where
  "ws_callback pre lws wsi reason inp len r =
     (if ri_type r \<noteq> Ws
      then Done (la_dummy lws, [], if reason = Wsi_destroy then r\<lparr>ri_wsi := None\<rparr> else r)
      else if si_shutdown (ri_socket r) then Done (- 1, [], r\<lparr>ri_wsi := None\<rparr>)
      else case reason of
        Client_connection_error \<Rightarrow>
          let r = r\<lparr>ri_wsi := None\<rparr> in
          tell_user (\<lambda>c. Errored c (in_text inp len)) r (\<lambda>effs. Done (la_dummy lws, effs, r))
      | Client_established \<Rightarrow> ws_established lws r
      | Client_writeable \<Rightarrow> ws_writeable pre lws wsi len r
      | Client_receive \<Rightarrow>
          tell_user (\<lambda>c. Received c (in_text inp len) (la_remaining lws)) r
            (\<lambda>effs. Done (la_dummy lws, effs, r))
      | Client_closed \<Rightarrow> ws_closed lws r
      | Wsi_destroy \<Rightarrow> ws_destroyed lws r
      | _ \<Rightarrow> Done (la_dummy lws, [], r))"

section \<open>send\<close>

text \<open>
  \<open>websocket_client::send\<close> behind the check of the client's own pointer. The static array
  \<open>header\<close> holds the character 0 and then null bytes.
\<close>

definition ws_header :: "nat \<Rightarrow> byte list" where
  "ws_header pre = take pre (48 # replicate (pre - 1) 0)"

definition ws_send ::
  "bool \<Rightarrow> nat \<Rightarrow> byte list \<Rightarrow> request_info \<Rightarrow> (bool \<times> effect list \<times> request_info) result"
where
  "ws_send ndebug pre msg r =
     (case ri_wsi r of
        None \<Rightarrow> Done (False, [], r)
      | Some wsi \<Rightarrow>
          result_bind (ring_write ndebug (ws_header pre) (word_of_nat (length msg)) (req_ring r))
            (\<lambda>(b, s). let r = set_ring s r in
              if \<not> b then Done (False, [], r)
              else result_bind (ring_write ndebug msg 0 (req_ring r))
                (\<lambda>(b, s). let r = set_ring s r in
                  if b then Done (True, [Want_write wsi, Cancel_service], r)
                  else Done (False, [], r))))"

section \<open>The connection and its buffer\<close>

lemma length_ws_header [simp]: "0 < pre \<Longrightarrow> length (ws_header pre) = pre"
  by (simp add: ws_header_def min_def)

lemma ws_header_not_Nil [simp]: "0 < pre \<Longrightarrow> ws_header pre \<noteq> []"
  using length_ws_header[of pre] by (metis length_0_conv less_numeral_extra(3))

lemma set_ring_simps [simp]:
  "ri_wsi (set_ring s r) = ri_wsi r" "ri_type (set_ring s r) = ri_type r"
  "si_ring (ri_socket (set_ring s r)) = s" "si_shutdown (ri_socket (set_ring s r)) = si_shutdown (ri_socket r)"
  "si_callback (ri_socket (set_ring s r)) = si_callback (ri_socket r)"
  "si_invoked (ri_socket (set_ring s r)) = si_invoked (ri_socket r)"
  "set_ring s (set_ring s' r) = set_ring s r"
  by (simp_all add: set_ring_def socket_upd_def)

text \<open>
  A live connection: its buffer holds the records \<open>fs\<close>, each of them a queued text behind
  its header.
\<close>

definition ws_live :: "nat \<Rightarrow> nat \<Rightarrow> request_info \<Rightarrow> frame list \<Rightarrow> bool" where
  "ws_live pre wsi r fs \<longleftrightarrow> ri_type r = Ws \<and> \<not> si_shutdown (ri_socket r) \<and> ri_wsi r = Some wsi
     \<and> fifo_inv (req_ring r) fs None
     \<and> (\<forall>m \<in> set (messages fs). take pre m = ws_header pre \<and> pre < length m)"

definition queued_texts :: "nat \<Rightarrow> frame list \<Rightarrow> byte list list" where
  "queued_texts pre fs = map (drop pre) (messages fs)"

lemma ws_send_live:
  assumes live: "ws_live pre wsi r fs" and "0 < pre" and "msg \<noteq> []" and len: "length msg < 2 ^ 64"
    and room: "room (req_ring r) (pre + length msg)"
  shows "\<exists>t fs'. ws_send ndebug pre msg r = Done (True, [Want_write wsi, Cancel_service], t)
    \<and> ws_live pre wsi t fs' \<and> queued_texts pre fs' = queued_texts pre fs @ [msg]
    \<and> si_callback (ri_socket t) = si_callback (ri_socket r)"
proof -
  from live have inv: "fifo_inv (req_ring r) fs None" by (simp add: ws_live_def)
  from ring.two_parts[OF inv, of "ws_header pre" msg ndebug] assms obtain s u new where
    w: "ring_write ndebug (ws_header pre) (word_of_nat (length msg)) (req_ring r) = Done (True, s)"
    "ring_write ndebug msg 0 s = Done (True, u)" "fifo_inv u (fs @ new) None"
    "messages new = [ws_header pre @ msg]"
    by (auto simp: messages_def)
  have m: "messages (fs @ new) = messages fs @ [ws_header pre @ msg]"
    using w(4) by (simp add: messages_def List.map_filter_def)
  let ?t = "set_ring u r"
  have "ws_send ndebug pre msg r = Done (True, [Want_write wsi, Cancel_service], ?t)"
    using live w(1,2) by (simp add: ws_send_def ws_live_def Let_def)
  moreover have "ws_live pre wsi ?t (fs @ new)"
    using live w(3) m assms(2,3) by (auto simp: ws_live_def)
  ultimately show ?thesis using m assms(2)
    by (intro exI[of _ ?t] exI[of _ "fs @ new"]) (simp add: queued_texts_def)
qed

text \<open>
  A writeable event hands over the oldest text, or steps over padding. Libwebsockets calls it
  with \<open>len = 0\<close>, so the test of the result of \<open>lws_write\<close> never fires.
\<close>

lemma ws_writeable_live:
  assumes live: "ws_live pre wsi r fs" and "0 < pre"
  shows "\<exists>effs t fs'. ws_callback pre lws wsi Client_writeable inp 0 r = Done (la_dummy lws, effs, t)
    \<and> ws_live pre wsi t fs' \<and> si_callback (ri_socket t) = si_callback (ri_socket r)
    \<and> (effs = [] \<and> queued_texts pre fs' = queued_texts pre fs \<and> (fs' = [] \<or> length fs' < length fs)
       \<or> (\<exists>text. effs = [Written text, Want_write wsi] \<and> length fs' < length fs
            \<and> queued_texts pre fs = text # queued_texts pre fs'))"
proof -
  from live obtain m s gs where
    s: "ring_read (req_ring r) = Done (m, s)" "fifo_inv s gs None"
    "messages fs = (case m of None \<Rightarrow> [] | Some b \<Rightarrow> [b]) @ messages gs" "gs = [] \<and> m = None \<or> length gs < length fs"
    using ring_read_any[of "req_ring r" fs None] by (auto simp: ws_live_def)
  let ?t = "set_ring s r"
  have live': "ws_live pre wsi ?t gs" using live s(2,3) by (auto simp: ws_live_def)
  show ?thesis
  proof (cases m)
    case None
    then have "ws_callback pre lws wsi Client_writeable inp 0 r = Done (la_dummy lws, [], ?t)"
      using live s(1) by (simp add: ws_callback_def ws_writeable_def ws_live_def)
    then show ?thesis using live' s(3,4) None
      by (intro exI[of _ "[]"] exI[of _ ?t] exI[of _ gs]) (auto simp: queued_texts_def)
  next
    case (Some bs)
    then have bs: "pre < length bs" using live s(3) by (simp add: ws_live_def)
    then have "ws_callback pre lws wsi Client_writeable inp 0 r
        = Done (la_dummy lws, [Written (drop pre bs), Want_write wsi], ?t)"
      using live s(1) Some by (auto simp: ws_callback_def ws_writeable_def ws_live_def Let_def)
    then show ?thesis using live' s(3,4) Some
      by (intro exI[of _ "[Written (drop pre bs), Want_write wsi]"] exI[of _ ?t] exI[of _ gs])
        (auto simp: queued_texts_def)
  qed
qed

end
