(* ===== verification/String_Ring_Limits.thy ===== *)
theory String_Ring_Limits
  imports String_Ring_Fifo
begin

text \<open>
  What happens to \<open>ring_string_buffer\<close> outside the capacity condition of String_Ring_Fifo:
  a message that is too long leaves the writer in a state in which the next message is
  accepted and thrown away, and in which a reset is followed by a writer that never returns;
  a reset between the parts of a message delivers a headless message; the wait for a slow
  consumer does not protect unread messages, and a full ring looks like an empty one.
  These theorems describe a release build (\<open>NDEBUG\<close>); a debug build aborts at the
  assertions instead.
\<close>

section \<open>A message that is too long\<close>

text \<open>The state \<open>write\<close> leaves behind when it rejects a message.\<close>

definition poisoned :: "string_ring \<Rightarrow> string_ring \<Rightarrow> bool" where
  "poisoned s t \<longleftrightarrow> (\<exists>tot rem. t = s\<lparr>rs_total := tot, rs_remaining := rem,
     rs_writing_cursor := 1, rs_skip := True, rs_writing := False\<rparr>)"

lemma write_too_long:
  assumes inv: "fifo_inv s fs None" and msg: "msg \<noteq> []"
    and big: "ring_cap s \<le> length msg + unat remaining + 5"
    and small: "length msg + unat remaining + 5 < 2 ^ 64"
  shows "\<exists>t. write_string True msg remaining sched s = Done (False, t, sched) \<and> poisoned s t"
proof -
  let ?len = "word_of_nat (length msg) :: u64"
  have len: "unat ?len = length msg" using small by (simp add: unat_of_nat)
  then have nz: "?len \<noteq> 0" using msg by (metis length_0_conv unat_0)
  have "unat (?len + remaining + 5) = length msg + unat remaining + 5"
    using small len by (simp add: unat_add_bounded)
  then have "rs_size s \<le> ?len + remaining + 5" using big by (simp add: word_le_nat_alt)
  then have "write_string True msg remaining sched s = Done (False,
      s\<lparr>rs_total := ?len + remaining + 5, rs_remaining := remaining,
        rs_writing_cursor := 1, rs_skip := True, rs_writing := False\<rparr>, sched)"
    using inv nz by (simp add: write_string_def write_open_def Let_def fifo_inv_def)
  then show ?thesis unfolding poisoned_def by blast
qed

lemma write_when_poisoned:
  assumes inv: "fifo_inv s fs None" and p: "poisoned s t" and msg: "msg \<noteq> []"
    and small: "length msg < 2 ^ 64"
  shows "\<exists>u. write_string True msg 0 sched t = Done (True, u, sched) \<and> fifo_inv u fs None
     \<and> rs_buffer u = rs_buffer s \<and> rs_cursor u = rs_cursor s"
proof -
  let ?len = "word_of_nat (length msg) :: u64"
  from p obtain tot rem where t: "t = s\<lparr>rs_total := tot, rs_remaining := rem,
     rs_writing_cursor := 1, rs_skip := True, rs_writing := False\<rparr>" by (auto simp: poisoned_def)
  have "unat ?len = length msg" using small by (simp add: unat_of_nat)
  then have nz: "?len \<noteq> 0" using msg by (metis length_0_conv unat_0)
  then show ?thesis
    using inv by (auto simp: t write_string_def write_body_def Let_def fifo_inv_def ring_frames_def)
qed

text \<open>
  C29: after a message that is too long has been rejected, the next message is reported as
  written but never enters the ring: the unread messages, the buffer and the published
  position are what they were before both calls.
\<close>

theorem too_long_loses_next:
  assumes "fifo_inv s fs None" and "big \<noteq> []" and "msg \<noteq> []" and "length msg < 2 ^ 64"
    and "ring_cap s \<le> length big + 5" and "length big + 5 < 2 ^ 64"
  shows "\<exists>t u. write_string True big 0 sched s = Done (False, t, sched)
     \<and> write_string True msg 0 sched t = Done (True, u, sched)
     \<and> fifo_inv u fs None \<and> rs_buffer u = rs_buffer s \<and> rs_cursor u = rs_cursor s"
proof -
  obtain t where t: "write_string True big 0 sched s = Done (False, t, sched)" "poisoned s t"
    using write_too_long[of s fs big 0 sched] assms by auto
  then show ?thesis using write_when_poisoned[OF assms(1) t(2) assms(3,4), of sched] by blast
qed

theorem too_long_loses_next_witness:
  "\<exists>t u. write_string True (replicate 11 65) 0 [] ring16 = Done (False, t, [])
     \<and> write_string True [66] 0 [] t = Done (True, u, [])
     \<and> fifo_inv u [] None \<and> rs_buffer u = rs_buffer ring16 \<and> rs_cursor u = rs_cursor ring16"
  by (rule too_long_loses_next[OF ring16_inv]) (simp_all add: ring16_def string_ring_new_def)

section \<open>A reset does not clear the skip flag\<close>

text \<open>What the service thread can do to the ring while the writer spins.\<close>

definition reader_reads :: "string_ring \<Rightarrow> string_ring" where
  "reader_reads s = (case read_string s of Done (_, t) \<Rightarrow> t | _ \<Rightarrow> s)"

lemma reader_reads_frame:
  "rs_cursor (reader_reads s) = rs_cursor s \<and> rs_writing_begin (reader_reads s) = rs_writing_begin s"
  by (auto simp: reader_reads_def read_string_def Let_def split: result.splits if_splits
      simp: result_bind_eq_Done)

lemma reset_enter_frame:
  "rs_cursor (reset_enter s) = rs_cursor s \<and> rs_writing_begin (reset_enter s) = rs_writing_begin s"
  by (simp add: reset_enter_def)

lemma notify_stuck:
  assumes "rs_cursor s \<noteq> rs_writing_begin s" "set sched \<subseteq> {reader_reads, reset_enter}"
  shows "notify num sched s = Spinning"
proof -
  have "spin_while (\<lambda>t. rs_cursor t \<noteq> rs_writing_begin t) sched s = Spinning"
    by (rule spin_while_forever[where P = "\<lambda>t. rs_cursor t \<noteq> rs_writing_begin t"])
      (use assms reader_reads_frame reset_enter_frame in auto)
  then show ?thesis by (simp add: notify_def)
qed

text \<open>
  The state after the rejected message, the reset and one more message: space is reserved
  that nobody will publish.
\<close>

definition hung :: "string_ring \<Rightarrow> bool" where
  "hung s \<longleftrightarrow> ring_wf s \<and> \<not> rs_skip s \<and> \<not> rs_resetting s \<and> rs_writing_cursor s = 0
     \<and> rs_cursor s = 0 \<and> rs_reading_begin s = 0
     \<and> 0 < unat (rs_reserved s) \<and> unat (rs_reserved s) < ring_cap s"

lemma write_after_poisoned_reset:
  assumes inv: "fifo_inv s fs None" and p: "poisoned s t" and msg: "msg \<noteq> []"
    and fits: "length msg + 5 < ring_cap s"
  shows "\<exists>v w. reset_string sched t = Done (v, sched)
     \<and> write_string True msg 0 sched v = Done (True, w, sched) \<and> hung w \<and> ring_cap w = ring_cap s"
proof -
  let ?len = "word_of_nat (length msg) :: u64" and ?N = "ring_cap s"
  from p obtain tot rem where t: "t = s\<lparr>rs_total := tot, rs_remaining := rem,
     rs_writing_cursor := 1, rs_skip := True, rs_writing := False\<rparr>" by (auto simp: poisoned_def)
  define v where "v = reset_leave (reset_enter t)"
  have v: "reset_string sched t = Done (v, sched)"
    by (simp add: reset_string_def spin_while_exit v_def t reset_enter_def)
  from inv have wf: "ring_wf s" by (simp add: fifo_inv_def)
  have N: "?N \<le> 2 ^ 32" using wf by (simp add: ring_wf_def)
  have "length msg + 5 < 2 ^ 64" using fits N less_le_trans[of _ ?N "2 ^ 64"] by simp
  then have len: "unat ?len = length msg" "unat (?len + 5) = length msg + 5"
    by (simp_all add: unat_of_nat unat_add_bounded)
  have nz: "?len \<noteq> 0" using len msg by (metis length_0_conv unat_0)
  have le: "\<not> rs_size s \<le> ?len + 5" using len fits by (simp add: word_le_nat_alt)
  define b where "b = blit (blit (rs_buffer s) 0 [0]) 1 (bytes_of_u32 (ucast (?len + 5) - 5))"
  have b: "length b = ?N" using wf fits by (simp add: b_def)
  define w where "w = v\<lparr>rs_total := ?len + 5, rs_remaining := 0, rs_writing_begin := 0,
     rs_reserved := ?len + 5, rs_buffer := b, rs_writing_cursor := 0, rs_skip := False\<rparr>"
  have "write_string True msg 0 sched v = Done (True, w, sched)"
    using wf le nz fits
    by (simp add: write_string_def write_open_def write_reserve_def write_wait_def write_header_def
        write_body_def Let_def spin_while_exit overlap_def v_def reset_leave_def reset_enter_def t
        ring_put_Done w_def b_def)
  moreover have "hung w"
    using wf b len fits
    by (simp add: hung_def w_def v_def reset_leave_def reset_enter_def t)
  moreover have "ring_cap w = ?N" by (simp add: w_def v_def reset_leave_def reset_enter_def t)
  ultimately show ?thesis using v by blast
qed

lemma write_when_hung:
  assumes h: "hung s" and msg: "msg \<noteq> []" and fits: "length msg + 5 < ring_cap s"
    and sched: "set sched \<subseteq> {reader_reads, reset_enter}"
  shows "write_string True msg 0 sched s = Spinning"
proof -
  let ?len = "word_of_nat (length msg) :: u64" and ?N = "ring_cap s" and ?r = "unat (rs_reserved s)"
  from h have wf: "ring_wf s" and fl: "\<not> rs_skip s" "\<not> rs_resetting s" "rs_writing_cursor s = 0"
    "rs_cursor s = 0" "rs_reading_begin s = 0" and res: "0 < ?r" "?r < ?N"
    by (auto simp: hung_def)
  have N: "?N \<le> 2 ^ 32" using wf by (simp add: ring_wf_def)
  have "length msg + 5 < 2 ^ 64" using fits N less_le_trans[of _ ?N "2 ^ 64"] by simp
  then have len: "unat ?len = length msg" "unat (?len + 5) = length msg + 5"
    by (simp_all add: unat_of_nat unat_add_bounded)
  have nz: "?len \<noteq> 0" using len msg by (metis length_0_conv unat_0)
  have le: "\<not> rs_size s \<le> ?len + 5" using len fits by (simp add: word_le_nat_alt)
  have rz: "rs_reserved s \<noteq> 0" using res(1) by auto
  have ix: "unat (rs_reserved s AND rs_mask s) = ?r" using wf res by (simp add: ring_index)
  have "(2::nat) ^ 32 + 2 ^ 32 < 2 ^ 64" by simp
  then have "?r + (length msg + 5) < 2 ^ 64" using res fits N by linarith
  then have sum: "unat ((rs_reserved s AND rs_mask s) + (?len + 5)) = ?r + (length msg + 5)"
    using ix len by (simp add: unat_add_bounded)
  have stuck: "notify num sched t = Spinning" if "rs_cursor t = 0" "rs_writing_begin t = rs_reserved s"
    for num t using that rz sched by (intro notify_stuck) auto
  define s0 where "s0 = s\<lparr>rs_writing := True, rs_total := ?len + 5, rs_remaining := ?len,
    rs_writing_begin := rs_reserved s, rs_writing_cursor := rs_reserved s,
    rs_reserved := rs_reserved s + (?len + 5)\<rparr>"
  show ?thesis
  proof (cases "?r + (length msg + 5) \<ge> ?N")
    case True
    then have "rs_size s \<le> (rs_reserved s AND rs_mask s) + (?len + 5)"
      using sum by (simp add: word_le_nat_alt)
    then show ?thesis using fl nz le wf res stuck
      by (simp add: write_string_def write_open_def write_reserve_def Let_def ring_put_Done)
  next
    case False
    then have ns: "\<not> rs_size s \<le> (rs_reserved s AND rs_mask s) + (?len + 5)"
      using sum by (simp add: word_le_nat_alt)
    have u: "unat (1 + rs_reserved s) = 1 + ?r" "unat (5 + rs_reserved s) = 5 + ?r"
      using res fits N False by (simp_all add: unat_add_bounded)
    have "write_string True msg 0 sched s = result_bind Spinning
        (\<lambda>(s, sched). Done (True, s\<lparr>rs_writing := False\<rparr>, sched))"
      using fl nz le ns wf res stuck False u
      by (simp add: write_string_def write_open_def write_reserve_def write_wait_def write_header_def
          write_body_def Let_def spin_while_exit overlap_def ring_put_Done add.commute)
    then show ?thesis by simp
  qed
qed

text \<open>
  C30: reject a message that is too long, reset the ring (as every connect does), send a
  message and then another: the last call never returns, whatever the service thread reads
  and even if it starts another reset meanwhile.
\<close>

theorem too_long_then_reset_hangs:
  assumes "fifo_inv s fs None" and "big \<noteq> []" and "m1 \<noteq> []" and "m2 \<noteq> []"
    and "ring_cap s \<le> length big + 5" and "length big + 5 < 2 ^ 64"
    and "length m1 + 5 < ring_cap s" and "length m2 + 5 < ring_cap s"
    and "set sched \<subseteq> {reader_reads, reset_enter}"
  shows "\<exists>t u v. write_string True big 0 [] s = Done (False, t, [])
     \<and> reset_string [] t = Done (u, [])
     \<and> write_string True m1 0 [] u = Done (True, v, [])
     \<and> write_string True m2 0 sched v = Spinning"
proof -
  obtain t where t: "write_string True big 0 [] s = Done (False, t, [])" "poisoned s t"
    using write_too_long[of s fs big 0 "[]"] assms by auto
  obtain u v where "reset_string [] t = Done (u, [])" "write_string True m1 0 [] u = Done (True, v, [])"
    "hung v" "ring_cap v = ring_cap s"
    using write_after_poisoned_reset[OF assms(1) t(2) assms(3,7)] by blast
  then show ?thesis using t(1) write_when_hung[of v m2 sched] assms by auto
qed

theorem too_long_then_reset_hangs_witness:
  "\<exists>t u v. write_string True (replicate 11 65) 0 [] ring16 = Done (False, t, [])
     \<and> reset_string [] t = Done (u, [])
     \<and> write_string True [66] 0 [] u = Done (True, v, [])
     \<and> write_string True [67] 0 [reader_reads, reset_enter, reader_reads] v = Spinning"
  by (rule too_long_then_reset_hangs[OF ring16_inv]) (simp_all add: ring16_def string_ring_new_def)

section \<open>A reset between the parts of a message\<close>

lemma spin_while_nil: "spin_while c [] s = Done (t, r) \<longleftrightarrow> t = s \<and> r = [] \<and> \<not> c s"
  by auto

lemma ring_put_size: "ring_put pos bs s = Done t \<Longrightarrow> rs_size t = rs_size s"
  by (auto simp: ring_put_def result_bind_eq_Done)

lemma notify_size: "notify num [] s = Done (t, r) \<Longrightarrow> rs_size t = rs_size s"
  by (auto simp: notify_def result_bind_eq_Done split: if_splits)

lemma write_reserve_size: "write_reserve [] s = Done (t, r) \<Longrightarrow> rs_size t = rs_size s \<and> r = []"
  by (auto simp: write_reserve_def Let_def result_bind_eq_Done notify_def split: if_splits
      dest!: ring_put_size)

lemma write_header_size: "write_header s = Done t \<Longrightarrow> rs_size t = rs_size s"
  by (auto simp: write_header_def Let_def result_bind_eq_Done dest!: ring_put_size)

lemma write_open_size:
  assumes "write_open ndebug c len remaining [] s = Done (b, t, r)"
  shows "rs_size t = rs_size s \<and> r = []"
  using assms
  by (auto simp: write_open_def write_wait_def check_assert_def Let_def result_bind_eq_Done
      split: if_splits dest!: write_reserve_size write_header_size)

lemma write_body_size:
  assumes "write_body ndebug msg len remaining [] s = Done (t, r)"
  shows "rs_size t = rs_size s"
  using assms
  by (auto simp: write_body_def check_assert_def Let_def result_bind_eq_Done
      split: if_splits dest!: ring_put_size notify_size)

lemma write_string_size:
  assumes "write_string ndebug msg remaining [] s = Done (b, t, r)"
  shows "rs_size t = rs_size s"
proof (cases "rs_resetting s \<or> word_of_nat (length msg) = (0 :: u64)")
  case True
  then show ?thesis using assms by (simp add: write_string_def)
next
  case False
  let ?s = "s\<lparr>rs_writing := True\<rparr>"
  define m where "m = (if rs_writing_cursor ?s = 0
    then write_open ndebug (rs_reset_count ?s) (word_of_nat (length msg)) remaining [] ?s
    else Done (None, ?s, []))"
  have run: "result_bind m (\<lambda>(r, s, sched).
      case r of
        Some b \<Rightarrow> Done (b, s\<lparr>rs_writing := False\<rparr>, sched)
      | None \<Rightarrow> result_bind (write_body ndebug msg (word_of_nat (length msg)) remaining sched s)
          (\<lambda>(s, sched). Done (True, s\<lparr>rs_writing := False\<rparr>, sched))) = Done (b, t, r)"
    using assms unfolding m_def write_string_def Let_def by (simp only: False if_False)
  then obtain x s1 sc where m: "m = Done (x, s1, sc)"
    by (auto simp: result_bind_eq_Done)
  then have s1: "rs_size s1 = rs_size s \<and> sc = []"
    by (auto simp: m_def split: if_splits dest: write_open_size)
  show ?thesis
  proof (cases x)
    case None
    with run m s1 obtain s2 where "t = s2\<lparr>rs_writing := False\<rparr>"
      "write_body ndebug msg (word_of_nat (length msg)) remaining [] s1 = Done (s2, r)"
      by (auto simp: result_bind_eq_Done)
    then show ?thesis using write_body_size s1 by auto
  next
    case (Some c)
    then show ?thesis using run m s1 by auto
  qed
qed

text \<open>
  When the ring is reset between the first and the last part of a message, the last part
  is taken for a message of its own and is delivered without the first part.
\<close>

theorem reset_between_parts:
  assumes "fifo_inv s fs None" and "hdr \<noteq> []" and "msg \<noteq> []"
    and "room s (length hdr + length msg)" and "length msg + 5 < ring_cap s"
  shows "\<exists>t u v fs'. write_string ndebug hdr (word_of_nat (length msg)) [] s = Done (True, t, [])
     \<and> reset_string [] t = Done (u, [])
     \<and> write_string ndebug msg 0 [] u = Done (True, v, [])
     \<and> fifo_inv v fs' None \<and> messages fs' = [msg]"
proof -
  let ?k = "word_of_nat (length msg) :: u64"
  have "length msg < 2 ^ 64" using assms(4) by (simp add: room_def)
  then have k: "unat ?k = length msg" by (simp add: unat_of_nat)
  then have nz: "?k \<noteq> 0" using assms(3) by (metis length_0_conv unat_0)
  from write_first[OF assms(1,2), of ?k ndebug "[]"] k nz assms(4) obtain t pre where
    t: "write_string ndebug hdr ?k [] s = Done (True, t, [])"
       "fifo_inv t (fs @ pre) (Some (hdr, length msg))" by auto
  define u where "u = reset_leave (reset_enter t)"
  have u: "reset_string [] t = Done (u, [])" "fifo_inv u [] None"
    using reset_Done[OF t(2)] by (simp_all add: u_def)
  have cap: "ring_cap u = ring_cap s"
    using write_string_size[OF t(1)] by (simp add: u_def reset_leave_def reset_enter_def Let_def)
  have z: "rs_reserved u = 0" "rs_reading_cursor u = 0"
    by (simp_all add: u_def reset_leave_def reset_enter_def Let_def)
  have N: "ring_cap s \<le> 2 ^ 32" using assms(1) by (simp add: fifo_inv_def ring_wf_def)
  have "room u (length msg)"
    using assms(5) cap z N by (simp add: room_def padding_def)
  then have "room u (length msg + unat (0 :: u64))" by simp
  from write_first[OF u(2) assms(3) this, of ndebug "[]"] obtain v pads where
    "write_string ndebug msg 0 [] u = Done (True, v, [])" "all_pads pads"
    "fifo_inv v (pads @ [Msg msg]) None" by auto
  with t(1) u(1) show ?thesis
    by (intro exI[of _ t] exI[of _ u] exI[of _ v] exI[of _ "pads @ [Msg msg]"]) simp
qed

theorem reset_between_parts_witness:
  "\<exists>t u v fs'. write_string False [72] (word_of_nat (length [1, 2 :: byte])) [] ring16 = Done (True, t, [])
     \<and> reset_string [] t = Done (u, [])
     \<and> write_string False [1, 2] 0 [] u = Done (True, v, [])
     \<and> fifo_inv v fs' None \<and> messages fs' = [[1, 2]]"
proof (rule reset_between_parts[OF ring16_inv])
  show "room ring16 (length [72 :: byte] + length [1, 2 :: byte])" by code_simp
qed (simp_all add: ring16_def string_ring_new_def)

section \<open>The reader is not waited for\<close>

text \<open>
  An unread message is overwritten while the reader stands at the start of the buffer:
  of two messages written before the first read, only the second is delivered.
\<close>

theorem unread_message_overwritten:
  "ring_trace True [Write [1, 1, 1] 0, Write [2, 2, 2] 0, Read, Read, Read]
     (string_ring_new (replicate 16 0) 16)
   = Done [Wrote True, Wrote True, Got (Some [2, 2, 2]), Got None, Got None]"
  by code_simp

lemma full_ring_reads:
  assumes "read_string s = Done ((None, 0), s)"
  shows "queue_run wr ring_read clr (replicate n Read) s = Done (replicate n (Got None), s)"
proof -
  have "ring_read s = Done (None, s)" using assms by (simp add: ring_read_def string_fetch_def)
  then show ?thesis by (induction n) simp_all
qed

text \<open>
  When the unread records fill the ring exactly, \<open>read\<close> takes it for empty: a message
  that was accepted is not delivered by any number of reads.
\<close>

theorem full_ring_looks_empty:
  "ring_trace True ([Write [1, 1, 1] 0, Read, Write [2, 2, 2] 0] @ replicate n Read)
     (string_ring_new (replicate 16 0) 16)
   = Done ([Wrote True, Got (Some [1, 1, 1]), Wrote True] @ replicate n (Got None))"
proof -
  define s where "s = \<lparr>rs_buffer = [0, 3, 0, 0, 0, 2, 2, 2, 2, 0, 0, 0, 0, 0, 0, 0],
      rs_size = 16, rs_mask = 15, rs_writing_cursor = 0,
      rs_writing_begin = 24, rs_reading_cursor = 8, rs_total = 8,
      rs_remaining = 0, rs_reset_count = 0, rs_skip = False, rs_cursor = 24,
      rs_reserved = 24, rs_reading_begin = 8, rs_writing = False,
      rs_resetting = False\<rparr>"
  have "ring_run True [Write [1, 1, 1] 0, Read, Write [2, 2, 2] 0] (string_ring_new (replicate 16 0) 16)
      = Done ([Wrote True, Got (Some [1, 1, 1]), Wrote True], s)"
    unfolding s_def by code_simp
  moreover have "read_string s = Done ((None, 0), s)"
    by (simp add: read_string_def s_def)
  ultimately show ?thesis
    by (simp add: ring_trace_def ring_run_def queue_run_append full_ring_reads del: append_Cons)
qed

text \<open>
  The pointer returned by \<open>read\<close> is released before the caller uses it: a writer that
  respects the capacity condition overwrites the bytes behind it.
\<close>

theorem returned_pointer_overwritten:
  "case ring_run False [Write [1, 1, 1] 0] (string_ring_new (replicate 32 0) 32) of
     Done (_, s) \<Rightarrow>
       (case read_string s of
          Done (r, t) \<Rightarrow> string_at t r = [1, 1, 1]
            \<and> queue_legal (ring_write False) ring_read ring_reset room
                [Write (replicate 11 2) 0, Write [3, 3] 0, Write [4] 0] t None
            \<and> (case ring_run False [Write (replicate 11 2) 0, Write [3, 3] 0, Write [4] 0] t of
                 Done (_, u) \<Rightarrow> string_at u r = [4, 1, 1]
               | _ \<Rightarrow> False)
        | _ \<Rightarrow> False)
   | _ \<Rightarrow> False"
  by code_simp

end
