(* ===== verification/Connection_Life.thy ===== *)
theory Connection_Life
  imports Message_Channel
begin

text \<open>
  The whole life of a message connection: libwebsockets opens it, the user sends while writeable
  events and received data come in, in any order, and libwebsockets ends it. The locale
  \<open>connection_life\<close> extends the channel by what the opening, the received data and the end promise;
  what the user is told over a life, and what is written, follows for the websocket client, the
  raw client and the raw server. The calls are those of the interfaces of
  include/slicksocket/callback.h.
\<close>

section \<open>The callback interfaces\<close>

text \<open>\<open>client_callback_t\<close> and \<open>socket_server_callback_t\<close>, one constructor per method.\<close>

datatype client_call = On_connected | On_disconnected | On_error string | On_data string u64

datatype server_call =
  On_client_connected nat | On_client_disconnected nat | On_client_error nat string
| On_client_data nat string

text \<open>The calls of the methods of the object \<open>c\<close> among the effects of some callbacks.\<close>

fun client_calls_of :: "nat \<Rightarrow> effect list \<Rightarrow> client_call list" where
  "client_calls_of c [] = []"
| "client_calls_of c (e # effs) = (case e of
     Connected d \<Rightarrow> if d = c then [On_connected] else []
   | Disconnected d \<Rightarrow> if d = c then [On_disconnected] else []
   | Errored d msg \<Rightarrow> if d = c then [On_error msg] else []
   | Received d msg remaining \<Rightarrow> if d = c then [On_data msg remaining] else []
   | _ \<Rightarrow> []) @ client_calls_of c effs"

fun server_calls_of :: "nat \<Rightarrow> effect list \<Rightarrow> server_call list" where
  "server_calls_of c [] = []"
| "server_calls_of c (e # effs) = (case e of
     Client_connected d h \<Rightarrow> if d = c then [On_client_connected h] else []
   | Client_disconnected d h \<Rightarrow> if d = c then [On_client_disconnected h] else []
   | Client_data d h msg \<Rightarrow> if d = c then [On_client_data h msg] else []
   | _ \<Rightarrow> []) @ server_calls_of c effs"

lemma client_calls_of_append: "client_calls_of c (a @ b) = client_calls_of c a @ client_calls_of c b"
  by (induction a) simp_all

lemma server_calls_of_append: "server_calls_of c (a @ b) = server_calls_of c a @ server_calls_of c b"
  by (induction a) simp_all

section \<open>Lives\<close>

datatype life_move = Move move | Receive lws_api "string option" u64

fun life_run ::
  "(byte list \<Rightarrow> 'r \<Rightarrow> (bool \<times> effect list \<times> 'r) result) \<Rightarrow>
   (lws_api \<Rightarrow> 'r \<Rightarrow> (int \<times> effect list \<times> 'r) result) \<Rightarrow>
   (lws_api \<Rightarrow> string option \<Rightarrow> u64 \<Rightarrow> 'r \<Rightarrow> (int \<times> effect list \<times> 'r) result) \<Rightarrow>
   life_move list \<Rightarrow> 'r \<Rightarrow> (effect list \<times> 'r) result"
where
  "life_run send pump receive [] r = Done ([], r)"
| "life_run send pump receive (Move m # ms) r =
     result_bind (channel_run send pump [m] r) (\<lambda>(effs, r).
       result_bind (life_run send pump receive ms r) (\<lambda>(effs', r). Done (effs @ effs', r)))"
| "life_run send pump receive (Receive lws inp len # ms) r =
     result_bind (receive lws inp len r) (\<lambda>(_, effs, r).
       result_bind (life_run send pump receive ms r) (\<lambda>(effs', r). Done (effs @ effs', r)))"

fun life_legal ::
  "('r \<Rightarrow> byte list \<Rightarrow> bool) \<Rightarrow> (byte list \<Rightarrow> 'r \<Rightarrow> (bool \<times> effect list \<times> 'r) result) \<Rightarrow>
   (lws_api \<Rightarrow> 'r \<Rightarrow> (int \<times> effect list \<times> 'r) result) \<Rightarrow>
   (lws_api \<Rightarrow> string option \<Rightarrow> u64 \<Rightarrow> 'r \<Rightarrow> (int \<times> effect list \<times> 'r) result) \<Rightarrow>
   life_move list \<Rightarrow> 'r \<Rightarrow> bool"
where
  "life_legal fits send pump receive [] r \<longleftrightarrow> True"
| "life_legal fits send pump receive (Move m # ms) r \<longleftrightarrow> channel_legal fits send pump [m] r \<and>
     (case channel_run send pump [m] r of
        Done (_, t) \<Rightarrow> life_legal fits send pump receive ms t | _ \<Rightarrow> True)"
| "life_legal fits send pump receive (Receive lws inp len # ms) r \<longleftrightarrow>
     (case receive lws inp len r of
        Done (_, _, t) \<Rightarrow> life_legal fits send pump receive ms t | _ \<Rightarrow> True)"

text \<open>What is sent during a life, and the calls that the received data make.\<close>

fun life_sends :: "life_move list \<Rightarrow> byte list list" where
  "life_sends [] = []"
| "life_sends (Move m # ms) = sends [m] @ life_sends ms"
| "life_sends (Receive lws inp len # ms) = life_sends ms"

fun life_data :: "(lws_api \<Rightarrow> string option \<Rightarrow> u64 \<Rightarrow> 'c) \<Rightarrow> life_move list \<Rightarrow> 'c list" where
  "life_data data [] = []"
| "life_data data (Move m # ms) = life_data data ms"
| "life_data data (Receive lws inp len # ms) = data lws inp len # life_data data ms"

text \<open>From the opening to the end; a life is legal if its moves are, after the opening.\<close>

definition whole_life ::
  "('r \<Rightarrow> (int \<times> effect list \<times> 'r) result) \<Rightarrow> ('r \<Rightarrow> (effect list \<times> 'r) result) \<Rightarrow>
   ('r \<Rightarrow> (effect list \<times> 'r) result) \<Rightarrow> 'r \<Rightarrow> (effect list \<times> 'r) result"
where
  "whole_life opens moves ends r =
     result_bind (opens r) (\<lambda>(_, effs, r). result_bind (moves r) (\<lambda>(effs', r).
       result_bind (ends r) (\<lambda>(effs'', r). Done (effs @ effs' @ effs'', r))))"

definition legal_after ::
  "('r \<Rightarrow> (int \<times> effect list \<times> 'r) result) \<Rightarrow> ('r \<Rightarrow> bool) \<Rightarrow> 'r \<Rightarrow> bool"
where
  "legal_after opens legal r = (case opens r of Done (_, _, t) \<Rightarrow> legal t | _ \<Rightarrow> True)"

section \<open>The contract\<close>

locale connection_life = message_channel live queued fits send pump
  for live :: "'r \<Rightarrow> 'f list \<Rightarrow> bool" and queued :: "'f list \<Rightarrow> byte list list"
    and fits :: "'r \<Rightarrow> byte list \<Rightarrow> bool"
    and send :: "byte list \<Rightarrow> 'r \<Rightarrow> (bool \<times> effect list \<times> 'r) result"
    and pump :: "lws_api \<Rightarrow> 'r \<Rightarrow> (int \<times> effect list \<times> 'r) result" +
  fixes ready :: "'r \<Rightarrow> bool"
    and opens :: "'r \<Rightarrow> (int \<times> effect list \<times> 'r) result"
    and receive :: "lws_api \<Rightarrow> string option \<Rightarrow> u64 \<Rightarrow> 'r \<Rightarrow> (int \<times> effect list \<times> 'r) result"
    and ends :: "'r \<Rightarrow> (effect list \<times> 'r) result"
    and calls :: "effect list \<Rightarrow> 'c list"
    and connected :: 'c and disconnected :: 'c
    and data :: "lws_api \<Rightarrow> string option \<Rightarrow> u64 \<Rightarrow> 'c"
  assumes calls_Nil: "calls [] = []"
    and calls_append: "calls (a @ b) = calls a @ calls b"
    and open_law: "ready r \<Longrightarrow> \<exists>ret effs t. opens r = Done (ret, effs, t) \<and> live t []
      \<and> calls effs = [connected] \<and> written effs = []"
    and receive_law: "live r fs \<Longrightarrow> \<exists>ret effs t. receive lws inp len r = Done (ret, effs, t) \<and> live t fs
      \<and> calls effs = [data lws inp len] \<and> written effs = []"
    and send_silent: "send msg r = Done (ok, effs, t) \<Longrightarrow> calls effs = []"
    and pump_silent: "live r fs \<Longrightarrow> pump lws r = Done (ret, effs, t) \<Longrightarrow> calls effs = []"
    and end_law: "live r fs \<Longrightarrow> \<exists>effs t. ends r = Done (effs, t)
      \<and> calls effs = [disconnected] \<and> written effs = []"
begin

lemma move_silent:
  assumes "live r fs" "channel_run send pump [m] r = Done (effs, t)"
  shows "calls effs = []"
  using assms send_silent pump_silent by (cases m) (auto simp: result_bind_eq_Done)

lemma life_conserves:
  assumes "live r fs" "life_legal fits send pump receive ms r"
  shows "\<exists>effs t gs. life_run send pump receive ms r = Done (effs, t) \<and> live t gs
    \<and> calls effs = life_data data ms \<and> queued fs @ life_sends ms = written effs @ queued gs"
  using assms
proof (induction ms arbitrary: r fs)
  case Nil
  then show ?case using calls_Nil by auto
next
  case (Cons m ms)
  show ?case
  proof (cases m)
    case (Move k)
    with Cons.prems(2) have "channel_legal fits send pump [k] r" by simp
    from conserves[OF Cons.prems(1) this] obtain effs1 t hs where
      t: "channel_run send pump [k] r = Done (effs1, t)" "live t hs"
      "queued fs @ sends [k] = written effs1 @ queued hs" by blast
    with Cons.prems(2) Move have "life_legal fits send pump receive ms t" by simp
    from Cons.IH[OF t(2) this] obtain effs u gs where
      "life_run send pump receive ms t = Done (effs, u)" "live u gs" "calls effs = life_data data ms"
      "queued hs @ life_sends ms = written effs @ queued gs" by blast
    moreover have "calls effs1 = []" by (rule move_silent[OF Cons.prems(1) t(1)])
    moreover have "queued fs @ life_sends (m # ms) = (written effs1 @ queued hs) @ life_sends ms"
      using t(3) Move by (simp only: life_sends.simps append_assoc[symmetric])
    ultimately show ?thesis using t(1) Move
      by (intro exI[of _ "effs1 @ effs"] exI[of _ u] exI[of _ gs]) (simp add: calls_append)
  next
    case (Receive lws inp len)
    from receive_law[OF Cons.prems(1), of lws inp len] obtain ret effs1 t where
      t: "receive lws inp len r = Done (ret, effs1, t)" "live t fs"
      "calls effs1 = [data lws inp len]" "written effs1 = []" by blast
    with Cons.prems(2) Receive have "life_legal fits send pump receive ms t" by simp
    from Cons.IH[OF t(2) this] obtain effs u gs where
      "life_run send pump receive ms t = Done (effs, u)" "live u gs" "calls effs = life_data data ms"
      "queued fs @ life_sends ms = written effs @ queued gs" by blast
    then show ?thesis using t Receive
      by (intro exI[of _ "effs1 @ effs"] exI[of _ u] exI[of _ gs]) (simp add: calls_append)
  qed
qed

text \<open>
  The user is told of the opening, of the data as they come, and of the end; what is written is the
  beginning of what is sent.
\<close>

lemma life:
  assumes "ready r" "legal_after opens (life_legal fits send pump receive ms) r"
  shows "\<exists>effs t rest. whole_life opens (life_run send pump receive ms) ends r = Done (effs, t)
    \<and> calls effs = connected # life_data data ms @ [disconnected]
    \<and> life_sends ms = written effs @ rest"
proof -
  from open_law[OF assms(1)] obtain ret effs1 t where
    t: "opens r = Done (ret, effs1, t)" "live t []" "calls effs1 = [connected]" "written effs1 = []" by blast
  with assms(2) have "life_legal fits send pump receive ms t" by (simp add: legal_after_def)
  from life_conserves[OF t(2) this] obtain effs2 u gs where
    u: "life_run send pump receive ms t = Done (effs2, u)" "live u gs" "calls effs2 = life_data data ms"
    "life_sends ms = written effs2 @ queued gs" by (auto simp: queued_Nil)
  from end_law[OF u(2)] obtain effs3 v where
    "ends u = Done (effs3, v)" "calls effs3 = [disconnected]" "written effs3 = []" by blast
  then show ?thesis using t u
    by (intro exI[of _ "effs1 @ effs2 @ effs3"] exI[of _ v] exI[of _ "queued gs"])
      (simp add: whole_life_def calls_append)
qed

end

end
