(* ===== verification/Websocket_Session.thy ===== *)
theory Websocket_Session
  imports Websocket_Callback String_Ring_Limits Connection_Life
begin

text \<open>
  A websocket connection over time: messages sent by the client and events delivered by
  libwebsockets, in any order, and what the user and the peer see of them.
\<close>

section \<open>Sends and writeable events\<close>

abbreviation ws_pump :: "nat \<Rightarrow> nat \<Rightarrow> lws_api \<Rightarrow> request_info \<Rightarrow> answer" where
  "ws_pump pre wsi \<equiv> \<lambda>lws. ws_callback pre lws wsi Client_writeable None 0"

definition ws_fits :: "nat \<Rightarrow> request_info \<Rightarrow> byte list \<Rightarrow> bool" where
  "ws_fits pre r msg \<longleftrightarrow> 0 < pre \<and> room (req_ring r) (pre + length msg)"

abbreviation ws_session ::
  "bool \<Rightarrow> nat \<Rightarrow> nat \<Rightarrow> move list \<Rightarrow> request_info \<Rightarrow> (effect list \<times> request_info) result"
where
  "ws_session ndebug pre wsi \<equiv> channel_run (ws_send ndebug pre) (ws_pump pre wsi)"

interpretation ws: message_channel "\<lambda>r fs. 0 < pre \<and> ws_live pre wsi r fs" "queued_texts pre"
  "ws_fits pre" "ws_send ndebug pre" "ws_pump pre wsi"
  for ndebug pre wsi
proof (unfold_locales, goal_cases)
  case (1 r fs msg)
  then have "length msg < 2 ^ 64" by (simp add: ws_fits_def room_def)
  then show ?case
    using ws_send_live[of pre wsi r fs msg ndebug] 1 by (fastforce simp: ws_fits_def)
next
  case (2 r fs lws)
  then obtain effs t gs where "ws_pump pre wsi lws r = Done (la_dummy lws, effs, t)" "ws_live pre wsi t gs"
    "effs = [] \<and> queued_texts pre gs = queued_texts pre fs \<and> (gs = [] \<or> length gs < length fs)
       \<or> (\<exists>text. effs = [Written text, Want_write wsi] \<and> length gs < length fs
            \<and> queued_texts pre fs = text # queued_texts pre gs)"
    using ws_writeable_live[of pre wsi r fs lws None] by blast
  then show ?case using 2 by (intro exI[of _ "la_dummy lws"] exI[of _ effs] exI[of _ t] exI[of _ gs]) auto
next
  case 3
  then show ?case by (simp add: queued_texts_def messages_def List.map_filter_def)
qed

section \<open>The events of a connection\<close>

abbreviation ws_run :: "nat \<Rightarrow> nat \<Rightarrow> event list \<Rightarrow> request_info \<Rightarrow> (effect list \<times> request_info) result" where
  "ws_run pre wsi \<equiv> conn_run (\<lambda>lws. ws_callback pre lws wsi)"

lemma ws_established_live:
  assumes "ri_type r = Ws" "\<not> si_shutdown (ri_socket r)" "fifo_inv (req_ring r) fs w"
    and "si_callback (ri_socket r) = Some c"
  shows "\<exists>t. ws_callback pre lws wsi Client_established inp len r = Done (la_dummy lws, [Connected c], t)
    \<and> ri_type t = Ws \<and> \<not> si_shutdown (ri_socket t) \<and> ri_wsi t = ri_wsi r
    \<and> fifo_inv (req_ring t) [] None \<and> si_callback (ri_socket t) = Some c
    \<and> \<not> si_invoked (ri_socket t)"
proof -
  from ring.clear_law[OF assms(3)] obtain s where
    s: "ring_reset (req_ring r) = Done s" "fifo_inv s [] None" by blast
  then show ?thesis using assms
    by (simp add: ws_callback_def ws_established_def tell_user_def user_call_def socket_upd_def set_ring_def)
qed

text \<open>After shutdown a connection tells its user nothing and asks to be closed.\<close>

lemma ws_run_shutdown:
  assumes "ri_type r = Ws" "si_shutdown (ri_socket r)"
  shows "\<exists>t. ws_run pre wsi evs r = Done ([], t) \<and> ri_type t = Ws \<and> si_shutdown (ri_socket t)
    \<and> req_ring t = req_ring r"
  using assms
proof (induction evs arbitrary: r)
  case Nil
  then show ?case by simp
next
  case (Cons e evs)
  obtain lws reason inp len where e: "e = (lws, reason, inp, len)" by (cases e) auto
  have "ws_callback pre lws wsi reason inp len r = Done (- 1, [], r\<lparr>ri_wsi := None\<rparr>)"
    using Cons.prems by (simp add: ws_callback_def)
  moreover obtain t where "ws_run pre wsi evs (r\<lparr>ri_wsi := None\<rparr>) = Done ([], t)" "ri_type t = Ws"
    "si_shutdown (ri_socket t)" "req_ring t = req_ring r"
    using Cons.IH[of "r\<lparr>ri_wsi := None\<rparr>"] Cons.prems by auto
  ultimately show ?case using e by simp
qed

text \<open>Between its establishment and its end a connection only receives and writes.\<close>

definition is_traffic :: "event \<Rightarrow> bool" where
  "is_traffic e = (case e of (lws, reason, inp, len) \<Rightarrow>
     (reason = Client_writeable \<and> len = 0) \<or> reason = Client_receive)"

fun notifications :: "effect list \<Rightarrow> effect list" where
  "notifications [] = []"
| "notifications (Connected c # effs) = Connected c # notifications effs"
| "notifications (Disconnected c # effs) = Disconnected c # notifications effs"
| "notifications (Errored c m # effs) = Errored c m # notifications effs"
| "notifications (_ # effs) = notifications effs"

lemma notifications_append [simp]: "notifications (a @ b) = notifications a @ notifications b"
  by (induction a rule: notifications.induct) auto

lemma ws_traffic:
  assumes "ws_live pre wsi r fs" "0 < pre" "si_callback (ri_socket r) = Some c" "\<forall>e \<in> set evs. is_traffic e"
    and "\<not> si_invoked (ri_socket r)"
  shows "\<exists>effs t gs. ws_run pre wsi evs r = Done (effs, t) \<and> notifications effs = []
    \<and> ws_live pre wsi t gs \<and> si_callback (ri_socket t) = Some c \<and> \<not> si_invoked (ri_socket t)"
  using assms
proof (induction evs arbitrary: r fs)
  case Nil
  then show ?case by auto
next
  case (Cons e evs)
  obtain lws reason inp len where e: "e = (lws, reason, inp, len)" by (cases e) auto
  have "\<exists>effs t gs. ws_callback pre lws wsi reason inp len r = Done (la_dummy lws, effs, t)
    \<and> notifications effs = [] \<and> ws_live pre wsi t gs \<and> si_callback (ri_socket t) = Some c
    \<and> \<not> si_invoked (ri_socket t)"
  proof (cases "reason = Client_receive")
    case True
    then show ?thesis using Cons.prems
      by (intro exI[of _ "[Received c (in_text inp len) (la_remaining lws)]"] exI[of _ r] exI[of _ fs])
        (simp add: ws_callback_def tell_user_def user_call_def ws_live_def)
  next
    case False
    then have "reason = Client_writeable" "len = 0"
      using Cons.prems(4) e by (auto simp: is_traffic_def)
    moreover obtain effs t gs where t: "ws_callback pre lws wsi Client_writeable inp 0 r
        = Done (la_dummy lws, effs, t)" "ws_live pre wsi t gs"
      "si_callback (ri_socket t) = si_callback (ri_socket r)" "notifications effs = []"
      using ws_writeable_live[OF Cons.prems(1,2), of lws inp] by auto
    moreover have "si_invoked (ri_socket t) = si_invoked (ri_socket r)"
      using t(1) Cons.prems(1)
      by (auto simp: ws_callback_def ws_writeable_def ws_live_def result_bind_eq_Done Let_def
          split: option.splits if_splits)
    ultimately show ?thesis using Cons.prems(3,5) by auto
  qed
  then obtain effs1 t gs where t: "ws_callback pre lws wsi reason inp len r = Done (la_dummy lws, effs1, t)"
    "notifications effs1 = []" "ws_live pre wsi t gs" "si_callback (ri_socket t) = Some c"
    "\<not> si_invoked (ri_socket t)" by blast
  obtain effs u gs' where "ws_run pre wsi evs t = Done (effs, u)" "notifications effs = []"
    "ws_live pre wsi u gs'" "si_callback (ri_socket u) = Some c" "\<not> si_invoked (ri_socket u)"
    using Cons.IH[OF t(3) Cons.prems(2) t(4)] Cons.prems(4) t(5) by auto
  then show ?case using e t by (intro exI[of _ "effs1 @ effs"] exI[of _ u] exI[of _ gs']) simp
qed

text \<open>The end of a connection is told once, with or without a close event before the destruction.\<close>

lemma ws_end:
  assumes "ri_type r = Ws" "\<not> si_shutdown (ri_socket r)" "si_callback (ri_socket r) = Some c"
    and "\<not> si_invoked (ri_socket r)"
  shows "\<exists>t. ws_run pre wsi ((if closed then [(lws, Client_closed, None, 0)] else [])
       @ [(lws', Wsi_destroy, None, 0)]) r = Done ([Disconnected c], t) \<and> ri_wsi t = None"
  using assms
  by (cases closed)
    (auto simp: ws_callback_def ws_closed_def ws_destroyed_def tell_user_def user_call_def socket_upd_def)

section \<open>A send that is interrupted by the establishment\<close>

lemma reset_room:
  assumes "fifo_inv s fs w" "n + 5 < ring_cap s"
  shows "room (reset_leave (reset_enter s)) n"
proof -
  have "ring_cap s \<le> 2 ^ 32" using assms(1) by (simp add: fifo_inv_def ring_wf_def)
  then show ?thesis using assms(2)
    by (simp add: room_def padding_def reset_leave_def reset_enter_def Let_def)
qed

text \<open>A record shorter than \<open>LWS_PRE\<close> makes the length given to \<open>lws_write\<close> wrap around.\<close>

lemma ws_short_record:
  assumes "ri_type r = Ws" "\<not> si_shutdown (ri_socket r)" "fifo_inv (req_ring r) (pads @ [Msg msg]) None"
    and "all_pads pads" "msg \<noteq> []" "length msg < pre"
  shows "ws_session ndebug pre wsi (replicate (Suc (length pads)) (Writeable lws)) r = Out_of_bounds"
  using assms
proof (induction pads arbitrary: r)
  case Nil
  then obtain s where "ring_read (req_ring r) = Done (Some msg, s)"
    using ring.read_law[of "req_ring r" "Msg msg" "[]" None] by auto
  then show ?case using Nil by (simp add: ws_callback_def ws_writeable_def)
next
  case (Cons f pads)
  then obtain n where f: "f = Pad n" "all_pads pads" by (cases f) (auto simp: all_pads_def)
  obtain s where s: "ring_read (req_ring r) = Done (None, s)" "fifo_inv s (pads @ [Msg msg]) None"
    using ring.read_law[of "req_ring r" f "pads @ [Msg msg]" None] Cons.prems(3) f by auto
  have "ws_callback pre lws wsi Client_writeable None 0 r = Done (la_dummy lws, [], set_ring s r)"
    using Cons.prems s by (simp add: ws_callback_def ws_writeable_def)
  moreover have "ws_session ndebug pre wsi (replicate (Suc (length pads)) (Writeable lws)) (set_ring s r)
      = Out_of_bounds"
    using Cons.IH[of "set_ring s r"] Cons.prems s f by simp
  ultimately show ?case by simp
qed

section \<open>A connection from its opening to its end\<close>

definition ws_up :: "nat \<Rightarrow> nat \<Rightarrow> nat \<Rightarrow> request_info \<Rightarrow> frame list \<Rightarrow> bool" where
  "ws_up pre wsi c r fs \<longleftrightarrow> 0 < pre \<and> ws_live pre wsi r fs
     \<and> si_callback (ri_socket r) = Some c \<and> \<not> si_invoked (ri_socket r)"

definition ws_ready :: "nat \<Rightarrow> nat \<Rightarrow> nat \<Rightarrow> request_info \<Rightarrow> bool" where
  "ws_ready pre wsi c r \<longleftrightarrow> 0 < pre \<and> ri_type r = Ws \<and> \<not> si_shutdown (ri_socket r)
     \<and> si_callback (ri_socket r) = Some c \<and> ri_wsi r = Some wsi \<and> (\<exists>fs w. fifo_inv (req_ring r) fs w)"

abbreviation ws_open :: "nat \<Rightarrow> nat \<Rightarrow> lws_api \<Rightarrow> request_info \<Rightarrow> answer" where
  "ws_open pre wsi lws \<equiv> ws_callback pre lws wsi Client_established None 0"

abbreviation ws_receive :: "nat \<Rightarrow> nat \<Rightarrow> lws_api \<Rightarrow> string option \<Rightarrow> u64 \<Rightarrow> request_info \<Rightarrow> answer" where
  "ws_receive pre wsi \<equiv> \<lambda>lws. ws_callback pre lws wsi Client_receive"

definition ws_finish ::
  "nat \<Rightarrow> nat \<Rightarrow> lws_api \<Rightarrow> bool \<Rightarrow> request_info \<Rightarrow> (effect list \<times> request_info) result"
where
  "ws_finish pre wsi lws closed = ws_run pre wsi
     ((if closed then [(lws, Client_closed, None, 0)] else []) @ [(lws, Wsi_destroy, None, 0)])"

definition ws_data :: "lws_api \<Rightarrow> string option \<Rightarrow> u64 \<Rightarrow> client_call" where
  "ws_data lws inp len = On_data (in_text inp len) (la_remaining lws)"

lemma ws_send_keeps:
  "ws_send ndebug pre msg r = Done (b, effs, t) \<Longrightarrow>
     si_invoked (ri_socket t) = si_invoked (ri_socket r) \<and> client_calls_of c effs = []"
  by (auto simp: ws_send_def result_bind_eq_Done Let_def split: option.splits if_splits)

lemma ws_writeable_keeps:
  assumes "ws_callback pre lws wsi Client_writeable inp len r = Done (ret, effs, t)"
    and "ri_type r = Ws" and "\<not> si_shutdown (ri_socket r)"
  shows "si_invoked (ri_socket t) = si_invoked (ri_socket r) \<and> client_calls_of c effs = []"
  using assms
  by (auto simp: ws_callback_def ws_writeable_def result_bind_eq_Done Let_def split: option.splits if_splits)

interpretation ws_life: connection_life "ws_up pre wsi c" "queued_texts pre" "ws_fits pre"
  "ws_send ndebug pre" "ws_pump pre wsi" "ws_ready pre wsi c" "ws_open pre wsi lws"
  "ws_receive pre wsi" "ws_finish pre wsi lws closed" "client_calls_of c" On_connected On_disconnected ws_data
  for ndebug pre wsi c lws closed
proof (unfold_locales, goal_cases)
  case (1 r fs msg)
  then have "ws_live pre wsi r fs" "0 < pre" "room (req_ring r) (pre + length msg)"
    by (auto simp: ws_up_def ws_fits_def)
  moreover from this have "length msg < 2 ^ 64" by (simp add: room_def)
  ultimately obtain t gs where t: "ws_send ndebug pre msg r = Done (True, [Want_write wsi, Cancel_service], t)"
    "ws_live pre wsi t gs" "queued_texts pre gs = queued_texts pre fs @ [msg]"
    "si_callback (ri_socket t) = si_callback (ri_socket r)"
    using ws_send_live[of pre wsi r fs msg ndebug] 1(2) by blast
  then have "ws_up pre wsi c t gs" using 1(1) ws_send_keeps[OF t(1)] by (simp add: ws_up_def)
  then show ?case using t(1,3) by auto
next
  case (2 r fs lws)
  then have live: "ws_live pre wsi r fs" "0 < pre" by (simp_all add: ws_up_def)
  from ws_writeable_live[OF live, of lws None] obtain effs t gs where
    t: "ws_pump pre wsi lws r = Done (la_dummy lws, effs, t)" "ws_live pre wsi t gs"
    "si_callback (ri_socket t) = si_callback (ri_socket r)"
    "queued_texts pre fs = written effs @ queued_texts pre gs" "gs = [] \<or> length gs < length fs" by auto
  have "ws_up pre wsi c t gs"
    using 2 t(2,3) ws_writeable_keeps[OF t(1)] live(1) by (simp add: ws_up_def ws_live_def)
  then show ?case using t by blast
next
  case 3
  then show ?case by (simp add: queued_texts_def)
next
  case 4
  then show ?case by simp
next
  case (5 a b)
  then show ?case by (rule client_calls_of_append)
next
  case (6 r)
  then obtain fs w where "fifo_inv (req_ring r) fs w" by (auto simp: ws_ready_def)
  with 6 show ?case using ws_established_live[of r fs w c pre lws wsi None 0]
    by (auto simp: ws_ready_def ws_up_def ws_live_def)
next
  case (7 r fs lws inp len)
  then show ?case
    by (simp add: ws_up_def ws_live_def ws_callback_def tell_user_def user_call_def ws_data_def)
next
  case (8 msg r ok effs t)
  then show ?case using ws_send_keeps by blast
next
  case (9 r fs lws ret effs t)
  then show ?case using ws_writeable_keeps[OF 9(2)] by (simp add: ws_up_def ws_live_def)
next
  case (10 r fs)
  then have "\<exists>t. ws_finish pre wsi lws closed r = Done ([Disconnected c], t)"
    unfolding ws_finish_def using ws_end[of r c pre wsi closed lws lws] by (auto simp: ws_up_def ws_live_def)
  then show ?case by auto
qed

section \<open>Properties\<close>

text \<open>A connected request with a small buffer for the witnesses; \<open>LWS_PRE\<close> is 16 there.\<close>

definition ws_request :: request_info where
  "ws_request = (request_info_new [] [])\<lparr>ri_type := Ws, ri_wsi := Some 3, ri_socket :=
     \<lparr>si_callback = Some 9, si_ring = string_ring_new (replicate 64 0) 64, si_shutdown = False,
       si_invoked = False\<rparr>\<rparr>"

lemma ws_request_live: "ws_live pre 3 ws_request []"
proof -
  have "fifo_inv (string_ring_new (replicate 64 0) 64) [] None"
    by (rule new_ring_inv) (simp_all add: is_pow2_def)
  then show ?thesis by (simp add: ws_live_def ws_request_def)
qed

lemma ws_request_room: "n \<le> 40 \<Longrightarrow> room (req_ring ws_request) n"
  by (simp add: room_def padding_def ws_request_def string_ring_new_def)



text \<open>
  Over the life of a connection, from its establishment through any traffic to its end, the
  user is told once that it is connected and once, last, that it is disconnected, whether or
  not libwebsockets reports the closing before the destruction.
\<close>

theorem ws_lifecycle:
  assumes "ri_type r = Ws" and "\<not> si_shutdown (ri_socket r)" and "fifo_inv (req_ring r) fs w"
    and "si_callback (ri_socket r) = Some c" and "ri_wsi r = Some wsi" and "0 < pre"
    and "\<forall>e \<in> set evs. is_traffic e"
  shows "\<exists>effs t. ws_run pre wsi ([(lws, Client_established, None, 0)] @ evs
       @ (if closed then [(lws, Client_closed, None, 0)] else []) @ [(lws, Wsi_destroy, None, 0)]) r
       = Done (effs, t)
     \<and> notifications effs = [Connected c, Disconnected c] \<and> ri_wsi t = None"
proof -
  obtain s where s: "ws_callback pre lws wsi Client_established None 0 r = Done (la_dummy lws, [Connected c], s)"
    "ws_live pre wsi s []" "si_callback (ri_socket s) = Some c" "\<not> si_invoked (ri_socket s)"
    using ws_established_live[OF assms(1-4), of pre lws wsi None 0] assms(5)
    by (auto simp: ws_live_def)
  obtain effs u gs where u: "ws_run pre wsi evs s = Done (effs, u)" "notifications effs = []"
    "ws_live pre wsi u gs" "si_callback (ri_socket u) = Some c" "\<not> si_invoked (ri_socket u)"
    using ws_traffic[OF s(2) assms(6) s(3) assms(7) s(4)] by blast
  obtain t where "ws_run pre wsi ((if closed then [(lws, Client_closed, None, 0)] else [])
       @ [(lws, Wsi_destroy, None, 0)]) u = Done ([Disconnected c], t)" "ri_wsi t = None"
    using ws_end[OF _ _ u(4,5), of pre wsi closed lws lws] u(3) unfolding ws_live_def by blast
  then show ?thesis using s(1) u(1,2)
    by (intro exI[of _ "[Connected c] @ effs @ [Disconnected c]"] exI[of _ t])
      (simp add: conn_run_append[of _ evs])
qed

theorem ws_lifecycle_witness:
  "\<exists>effs t. ws_run 16 3 ([(lws_ok, Client_established, None, 0)]
       @ [(lws_ok, Client_writeable, None, 0), (lws_ok, Client_receive, Some ''tick'', 4)]
       @ (if True then [(lws_ok, Client_closed, None, 0)] else []) @ [(lws_ok, Wsi_destroy, None, 0)])
       ws_request = Done (effs, t)
     \<and> notifications effs = [Connected 9, Disconnected 9] \<and> ri_wsi t = None"
proof (rule ws_lifecycle)
  show "fifo_inv (req_ring ws_request) [] None" using ws_request_live by (simp add: ws_live_def)
qed (simp_all add: ws_request_def is_traffic_def)



text \<open>
  A connection that never comes about is reported as an error and then, with its
  destruction, as disconnected, although it was never reported as connected.
\<close>

theorem ws_failed_connection:
  assumes "ri_type r = Ws" and "\<not> si_shutdown (ri_socket r)" and "si_callback (ri_socket r) = Some c"
    and "\<not> si_invoked (ri_socket r)"
  shows "\<exists>t. ws_run pre wsi [(lws, Client_connection_error, inp, len), (lws, Wsi_destroy, None, 0)] r
     = Done ([Errored c (in_text inp len), Disconnected c], t) \<and> ri_wsi t = None"
  using assms
  by (simp add: ws_callback_def ws_destroyed_def tell_user_def user_call_def socket_upd_def)

theorem ws_failed_connection_witness:
  "\<exists>t. ws_run 16 3 [(lws_ok, Client_connection_error, Some ''dns'', 3), (lws_ok, Wsi_destroy, None, 0)]
     ws_request = Done ([Errored 9 (in_text (Some ''dns'') 3), Disconnected 9], t) \<and> ri_wsi t = None"
  by (rule ws_failed_connection) (simp_all add: ws_request_def)

text \<open>
  A message accepted before the connection is established is lost: \<open>send\<close> needs only
  \<open>wsi\<close>, which libwebsockets sets when it starts to connect, and the establishment empties the
  buffer, so that later writeable events write nothing.
\<close>

theorem ws_early_send_lost:
  assumes "ws_live pre wsi r fs" and "si_callback (ri_socket r) = Some c" and "0 < pre"
    and "msg \<noteq> []" and "room (req_ring r) (pre + length msg)"
  shows "\<exists>t u. ws_send ndebug pre msg r = Done (True, [Want_write wsi, Cancel_service], t)
     \<and> ws_callback pre lws wsi Client_established None 0 t = Done (la_dummy lws, [Connected c], u)
     \<and> (\<forall>n. \<exists>v. ws_session ndebug pre wsi (replicate n (Writeable lws)) u = Done ([], v))"
proof -
  have "length msg < 2 ^ 64" using assms(5) by (simp add: room_def)
  from ws_send_live[OF assms(1,3,4) this assms(5), of ndebug] assms(2) obtain t gs where
    t: "ws_send ndebug pre msg r = Done (True, [Want_write wsi, Cancel_service], t)"
    "ws_live pre wsi t gs" "si_callback (ri_socket t) = Some c" by auto
  then obtain u where u: "ws_callback pre lws wsi Client_established None 0 t
      = Done (la_dummy lws, [Connected c], u)" "ws_live pre wsi u []"
    using ws_established_live[of t gs None c pre lws wsi None 0] by (auto simp: ws_live_def)
  have idle: "ring_read (req_ring u) = Done (None, req_ring u)"
    using u(2) by (intro ring.read_empty_law) (auto simp: ws_live_def)
  have same: "set_ring (req_ring u) u = u" by (simp add: set_ring_def socket_upd_def)
  have "ws_callback pre lws wsi Client_writeable None 0 u = Done (la_dummy lws, [], u)"
    using u(2) idle same by (simp add: ws_callback_def ws_writeable_def ws_live_def)
  then have "ws_session ndebug pre wsi (replicate n (Writeable lws)) u = Done ([], u)" for n
    by (induction n) simp_all
  with t(1) u(1) show ?thesis by blast
qed

theorem ws_early_send_lost_witness:
  "\<exists>t u. ws_send False 16 [1, 2] ws_request = Done (True, [Want_write 3, Cancel_service], t)
     \<and> ws_callback 16 lws_ok 3 Client_established None 0 t = Done (la_dummy lws_ok, [Connected 9], u)
     \<and> (\<forall>n. \<exists>v. ws_session False 16 3 (replicate n (Writeable lws_ok)) u = Done ([], v))"
  by (rule ws_early_send_lost[OF ws_request_live _ _ _ ws_request_room]) (simp_all add: ws_request_def)



end
