(* ===== verification/Socket_Callback.thy ===== *)
theory Socket_Callback
  imports Websocket_Session
begin

text \<open>
  The raw TCP connection of a client (src/socket_client.cpp): \<open>raw_socket_callback\<close>, which the
  service thread runs for its events, and the part of \<open>socket_client::send\<close> that works on the
  request object. The connection provides the same \<open>message_channel\<close> as the websocket, with
  the messages themselves as records.
\<close>

section \<open>raw_socket_callback\<close>

definition raw_connected :: "lws_api \<Rightarrow> request_info \<Rightarrow> answer" where
  "raw_connected lws r =
     result_bind (ring_reset (req_ring r)) (\<lambda>s. let r = set_ring s r in
       tell_user Connected r (\<lambda>effs.
         Done (la_dummy lws, effs, socket_upd (\<lambda>i. i\<lparr>si_invoked := False\<rparr>) r)))"

definition raw_writeable :: "lws_api \<Rightarrow> nat \<Rightarrow> u64 \<Rightarrow> request_info \<Rightarrow> answer" where
  "raw_writeable lws wsi len r =
     result_bind (ring_read (req_ring r)) (\<lambda>(msg, s). let r = set_ring s r in
       case msg of
         None \<Rightarrow> Done (la_dummy lws, [], r)
       | Some bs \<Rightarrow>
           if bs = [] then Done (la_dummy lws, [], r)
           else let n = size_of_int (la_write lws bs) in
             if n < len then Done (- 1, [Written bs], r\<lparr>ri_wsi := None\<rparr>)
             else Done (la_dummy lws, [Written bs, Want_write wsi], r))"

definition raw_closed :: "lws_api \<Rightarrow> request_info \<Rightarrow> answer" where
  "raw_closed lws r = (let r = r\<lparr>ri_wsi := None\<rparr> in
     tell_user Disconnected r (\<lambda>effs.
       Done (la_dummy lws, effs, socket_upd (\<lambda>i. i\<lparr>si_invoked := True\<rparr>) r)))"

definition raw_destroyed :: "lws_api \<Rightarrow> request_info \<Rightarrow> answer" where
  "raw_destroyed lws r = (let r = r\<lparr>ri_wsi := None\<rparr> in
     if \<not> si_invoked (ri_socket r)
     then tell_user Disconnected r (\<lambda>effs.
       Done (la_dummy lws, effs, socket_upd (\<lambda>i. i\<lparr>si_invoked := True\<rparr>) r))
     else Done (la_dummy lws, [], r))"

definition raw_socket_callback ::
  "lws_api \<Rightarrow> nat \<Rightarrow> reason \<Rightarrow> string option \<Rightarrow> u64 \<Rightarrow> request_info \<Rightarrow> answer"
where
  "raw_socket_callback lws wsi reason inp len r =
     (if ri_type r \<noteq> Socket then Done (la_dummy lws, [], r)
      else case reason of
        Raw_connected \<Rightarrow> raw_connected lws r
      | Client_connection_error \<Rightarrow>
          let r = r\<lparr>ri_wsi := None\<rparr> in
          tell_user (\<lambda>c. Errored c (in_text inp len)) r (\<lambda>effs. Done (- 1, effs, r))
      | Raw_writeable \<Rightarrow> raw_writeable lws wsi len r
      | Raw_rx \<Rightarrow>
          tell_user (\<lambda>c. Received c (in_text inp len) 0) r (\<lambda>effs. Done (la_dummy lws, effs, r))
      | Raw_close \<Rightarrow> raw_closed lws r
      | Wsi_destroy \<Rightarrow> raw_destroyed lws r
      | _ \<Rightarrow> Done (la_dummy lws, [], r))"

section \<open>send\<close>

definition socket_send ::
  "bool \<Rightarrow> byte list \<Rightarrow> request_info \<Rightarrow> (bool \<times> effect list \<times> request_info) result"
where
  "socket_send ndebug msg r =
     (case ri_wsi r of
        None \<Rightarrow> Done (False, [], r)
      | Some wsi \<Rightarrow>
          result_bind (ring_write ndebug msg 0 (req_ring r))
            (\<lambda>(b, s). let r = set_ring s r in
              if b then Done (True, [Want_write wsi, Cancel_service], r)
              else Done (False, [], r)))"

section \<open>The connection as a channel\<close>

definition raw_live :: "nat \<Rightarrow> request_info \<Rightarrow> frame list \<Rightarrow> bool" where
  "raw_live wsi r fs \<longleftrightarrow> ri_type r = Socket \<and> ri_wsi r = Some wsi
     \<and> fifo_inv (req_ring r) fs None \<and> [] \<notin> set (messages fs)"

definition raw_fits :: "request_info \<Rightarrow> byte list \<Rightarrow> bool" where
  "raw_fits r msg \<longleftrightarrow> room (req_ring r) (length msg)"

abbreviation raw_pump :: "nat \<Rightarrow> lws_api \<Rightarrow> request_info \<Rightarrow> answer" where
  "raw_pump wsi \<equiv> \<lambda>lws. raw_socket_callback lws wsi Raw_writeable None 0"

lemma socket_send_live:
  assumes "raw_live wsi r fs" and "msg \<noteq> []" and "raw_fits r msg"
  shows "\<exists>t gs. socket_send ndebug msg r = Done (True, [Want_write wsi, Cancel_service], t)
    \<and> raw_live wsi t gs \<and> messages gs = messages fs @ [msg]
    \<and> si_callback (ri_socket t) = si_callback (ri_socket r)"
proof -
  from assms obtain s gs where
    "ring_write ndebug msg 0 (req_ring r) = Done (True, s)" "fifo_inv s gs None" "messages gs = messages fs @ [msg]"
    using ring_whole_message[of "req_ring r" fs msg ndebug] by (auto simp: raw_live_def raw_fits_def)
  then show ?thesis using assms
    by (intro exI[of _ "set_ring s r"] exI[of _ gs]) (simp add: socket_send_def raw_live_def Let_def)
qed

lemma raw_writeable_live:
  assumes live: "raw_live wsi r fs"
  shows "\<exists>effs t gs. raw_socket_callback lws wsi Raw_writeable inp 0 r = Done (la_dummy lws, effs, t)
    \<and> raw_live wsi t gs \<and> si_callback (ri_socket t) = si_callback (ri_socket r)
    \<and> si_invoked (ri_socket t) = si_invoked (ri_socket r)
    \<and> messages fs = written effs @ messages gs \<and> notifications effs = []
    \<and> (gs = [] \<or> length gs < length fs)"
proof -
  from live obtain m s gs where
    s: "ring_read (req_ring r) = Done (m, s)" "fifo_inv s gs None"
    "messages fs = (case m of None \<Rightarrow> [] | Some b \<Rightarrow> [b]) @ messages gs" "gs = [] \<and> m = None \<or> length gs < length fs"
    using ring_read_any[of "req_ring r" fs None] by (auto simp: raw_live_def)
  show ?thesis
  proof (cases m)
    case None
    then show ?thesis using live s
      by (intro exI[of _ "[]"] exI[of _ "set_ring s r"] exI[of _ gs])
        (auto simp: raw_socket_callback_def raw_writeable_def raw_live_def)
  next
    case (Some bs)
    then have "bs \<noteq> []" using live s(3) by (auto simp: raw_live_def)
    then show ?thesis using live s Some
      by (intro exI[of _ "[Written bs, Want_write wsi]"] exI[of _ "set_ring s r"] exI[of _ gs])
        (auto simp: raw_socket_callback_def raw_writeable_def raw_live_def Let_def)
  qed
qed

interpretation raw: message_channel "raw_live wsi" messages raw_fits "socket_send ndebug" "raw_pump wsi"
  for ndebug wsi
proof (unfold_locales, goal_cases)
  case (1 r fs msg)
  then show ?case using socket_send_live[OF 1, of ndebug] by fastforce
next
  case (2 r fs lws)
  then show ?case using raw_writeable_live[OF 2, of lws None] by blast
next
  case 3
  then show ?case by (simp add: messages_def List.map_filter_def)
qed

abbreviation raw_session ::
  "bool \<Rightarrow> nat \<Rightarrow> move list \<Rightarrow> request_info \<Rightarrow> (effect list \<times> request_info) result"
where
  "raw_session ndebug wsi \<equiv> channel_run (socket_send ndebug) (raw_pump wsi)"

section \<open>The life of a connection\<close>

abbreviation raw_run :: "nat \<Rightarrow> event list \<Rightarrow> request_info \<Rightarrow> (effect list \<times> request_info) result" where
  "raw_run wsi \<equiv> conn_run (\<lambda>lws. raw_socket_callback lws wsi)"

definition is_raw_traffic :: "event \<Rightarrow> bool" where
  "is_raw_traffic e = (case e of (lws, reason, inp, len) \<Rightarrow>
     (reason = Raw_writeable \<and> len = 0) \<or> reason = Raw_rx)"

lemma raw_established:
  assumes "ri_type r = Socket" "fifo_inv (req_ring r) fs w" "si_callback (ri_socket r) = Some c"
    and "ri_wsi r = Some wsi"
  shows "\<exists>t. raw_socket_callback lws wsi Raw_connected inp len r = Done (la_dummy lws, [Connected c], t)
    \<and> raw_live wsi t [] \<and> si_callback (ri_socket t) = Some c \<and> \<not> si_invoked (ri_socket t)"
proof -
  from ring.clear_law[OF assms(2)] obtain s where
    "ring_reset (req_ring r) = Done s" "fifo_inv s [] None" by blast
  then show ?thesis using assms
    by (simp add: raw_socket_callback_def raw_connected_def tell_user_def user_call_def socket_upd_def
        set_ring_def raw_live_def messages_def List.map_filter_def)
qed

lemma raw_traffic:
  assumes "raw_live wsi r fs" "si_callback (ri_socket r) = Some c" "\<forall>e \<in> set evs. is_raw_traffic e"
    and "\<not> si_invoked (ri_socket r)"
  shows "\<exists>effs t gs. raw_run wsi evs r = Done (effs, t) \<and> notifications effs = []
    \<and> raw_live wsi t gs \<and> si_callback (ri_socket t) = Some c \<and> \<not> si_invoked (ri_socket t)"
  using assms
proof (induction evs arbitrary: r fs)
  case Nil
  then show ?case by auto
next
  case (Cons e evs)
  obtain lws reason inp len where e: "e = (lws, reason, inp, len)" by (cases e) auto
  have "\<exists>effs t gs. raw_socket_callback lws wsi reason inp len r = Done (la_dummy lws, effs, t)
    \<and> notifications effs = [] \<and> raw_live wsi t gs \<and> si_callback (ri_socket t) = Some c
    \<and> \<not> si_invoked (ri_socket t)"
  proof (cases "reason = Raw_rx")
    case True
    then show ?thesis using Cons.prems
      by (intro exI[of _ "[Received c (in_text inp len) 0]"] exI[of _ r] exI[of _ fs])
        (simp add: raw_socket_callback_def tell_user_def user_call_def raw_live_def)
  next
    case False
    then have "reason = Raw_writeable" "len = 0"
      using Cons.prems(3) e by (auto simp: is_raw_traffic_def)
    then show ?thesis using raw_writeable_live[OF Cons.prems(1), of lws inp] Cons.prems(2,4) by auto
  qed
  then obtain effs1 t gs where t: "raw_socket_callback lws wsi reason inp len r = Done (la_dummy lws, effs1, t)"
    "notifications effs1 = []" "raw_live wsi t gs" "si_callback (ri_socket t) = Some c"
    "\<not> si_invoked (ri_socket t)" by blast
  obtain effs u hs where "raw_run wsi evs t = Done (effs, u)" "notifications effs = []"
    "raw_live wsi u hs" "si_callback (ri_socket u) = Some c" "\<not> si_invoked (ri_socket u)"
    using Cons.IH[OF t(3,4)] Cons.prems(3) t(5) by auto
  then show ?case using e t by (intro exI[of _ "effs1 @ effs"] exI[of _ u] exI[of _ hs]) simp
qed

lemma raw_end:
  assumes "ri_type r = Socket" "si_callback (ri_socket r) = Some c" "\<not> si_invoked (ri_socket r)"
  shows "\<exists>t. raw_run wsi ((if closed then [(lws, Raw_close, None, 0)] else [])
       @ [(lws', Wsi_destroy, None, 0)]) r = Done ([Disconnected c], t) \<and> ri_wsi t = None"
  using assms
  by (cases closed)
    (auto simp: raw_socket_callback_def raw_closed_def raw_destroyed_def tell_user_def user_call_def
      socket_upd_def)

section \<open>A connection from its opening to its end\<close>

definition raw_up :: "nat \<Rightarrow> nat \<Rightarrow> request_info \<Rightarrow> frame list \<Rightarrow> bool" where
  "raw_up wsi c r fs \<longleftrightarrow> raw_live wsi r fs
     \<and> si_callback (ri_socket r) = Some c \<and> \<not> si_invoked (ri_socket r)"

definition raw_ready :: "nat \<Rightarrow> nat \<Rightarrow> request_info \<Rightarrow> bool" where
  "raw_ready wsi c r \<longleftrightarrow> ri_type r = Socket \<and> si_callback (ri_socket r) = Some c
     \<and> ri_wsi r = Some wsi \<and> (\<exists>fs w. fifo_inv (req_ring r) fs w)"

abbreviation raw_open :: "nat \<Rightarrow> lws_api \<Rightarrow> request_info \<Rightarrow> answer" where
  "raw_open wsi lws \<equiv> raw_socket_callback lws wsi Raw_connected None 0"

abbreviation raw_receive :: "nat \<Rightarrow> lws_api \<Rightarrow> string option \<Rightarrow> u64 \<Rightarrow> request_info \<Rightarrow> answer" where
  "raw_receive wsi \<equiv> \<lambda>lws. raw_socket_callback lws wsi Raw_rx"

definition raw_finish :: "nat \<Rightarrow> lws_api \<Rightarrow> bool \<Rightarrow> request_info \<Rightarrow> (effect list \<times> request_info) result" where
  "raw_finish wsi lws closed = raw_run wsi
     ((if closed then [(lws, Raw_close, None, 0)] else []) @ [(lws, Wsi_destroy, None, 0)])"

definition raw_data :: "lws_api \<Rightarrow> string option \<Rightarrow> u64 \<Rightarrow> client_call" where
  "raw_data lws inp len = On_data (in_text inp len) 0"

lemma socket_send_keeps:
  "socket_send ndebug msg r = Done (b, effs, t) \<Longrightarrow>
     si_invoked (ri_socket t) = si_invoked (ri_socket r) \<and> client_calls_of c effs = []"
  by (auto simp: socket_send_def result_bind_eq_Done Let_def split: option.splits if_splits)

lemma raw_writeable_silent:
  assumes "raw_socket_callback lws wsi Raw_writeable inp len r = Done (ret, effs, t)"
  shows "client_calls_of c effs = []"
proof (cases "ri_type r = Socket")
  case True
  then obtain m s where "ring_read (req_ring r) = Done (m, s)"
    using assms by (auto simp: raw_socket_callback_def raw_writeable_def result_bind_eq_Done)
  then show ?thesis using assms True
    by (cases m) (auto simp: raw_socket_callback_def raw_writeable_def Let_def split: if_splits)
qed (use assms in \<open>simp add: raw_socket_callback_def\<close>)

interpretation raw_life: connection_life "raw_up wsi c" messages raw_fits "socket_send ndebug" "raw_pump wsi"
  "raw_ready wsi c" "raw_open wsi lws" "raw_receive wsi" "raw_finish wsi lws closed"
  "client_calls_of c" On_connected On_disconnected raw_data
  for ndebug wsi c lws closed
proof (unfold_locales, goal_cases)
  case (1 r fs msg)
  then obtain t gs where t: "socket_send ndebug msg r = Done (True, [Want_write wsi, Cancel_service], t)"
    "raw_live wsi t gs" "messages gs = messages fs @ [msg]"
    "si_callback (ri_socket t) = si_callback (ri_socket r)"
    using socket_send_live[of wsi r fs msg ndebug] by (auto simp: raw_up_def)
  then have "raw_up wsi c t gs" using 1(1) socket_send_keeps[OF t(1)] by (simp add: raw_up_def)
  then show ?case using t(1,3) by auto
next
  case (2 r fs lws)
  then show ?case using raw_writeable_live[of wsi r fs lws None] by (fastforce simp: raw_up_def)
next
  case 3
  then show ?case by simp
next
  case 4
  then show ?case by simp
next
  case (5 a b)
  then show ?case by (rule client_calls_of_append)
next
  case (6 r)
  then obtain fs w where "fifo_inv (req_ring r) fs w" by (auto simp: raw_ready_def)
  with 6 show ?case using raw_established[of r fs w c wsi lws None 0] by (auto simp: raw_ready_def raw_up_def)
next
  case (7 r fs lws inp len)
  then show ?case
    by (simp add: raw_up_def raw_live_def raw_socket_callback_def tell_user_def user_call_def raw_data_def)
next
  case (8 msg r ok effs t)
  then show ?case using socket_send_keeps by blast
next
  case (9 r fs lws ret effs t)
  then show ?case using raw_writeable_silent by blast
next
  case (10 r fs)
  then have "\<exists>t. raw_finish wsi lws closed r = Done ([Disconnected c], t)"
    unfolding raw_finish_def using raw_end[of r c wsi closed lws lws] by (auto simp: raw_up_def raw_live_def)
  then show ?case by auto
qed

section \<open>Properties\<close>

definition raw_request :: request_info where
  "raw_request = ws_request\<lparr>ri_type := Socket\<rparr>"

lemma raw_request_live: "raw_live 3 raw_request []"
  using ws_request_live[of 1]
  by (simp add: raw_live_def ws_live_def raw_request_def messages_def List.map_filter_def)

text \<open>
  What a raw client sends arrives at \<open>lws_write\<close> whole, once and in order, under any
  interleaving of sends within the room of the buffer with writeable events.
\<close>

theorem raw_session_delivers:
  assumes "raw_live wsi r fs"
    and "channel_legal raw_fits (socket_send ndebug) (raw_pump wsi) ms r"
  shows "\<exists>n0. \<forall>n \<ge> n0. \<exists>effs t.
     raw_session ndebug wsi (ms @ replicate n (Writeable lws)) r = Done (effs, t)
     \<and> written effs = messages fs @ sends ms"
  by (rule raw.delivers[OF assms])

theorem raw_session_delivers_witness:
  "\<exists>n0. \<forall>n \<ge> n0. \<exists>effs t.
     raw_session False 3 ([Send [1, 2], Writeable lws_ok, Send [3]] @ replicate n (Writeable lws_ok))
       raw_request = Done (effs, t)
     \<and> written effs = messages [] @ sends [Send [1, 2], Writeable lws_ok, Send [3]]"
proof (rule raw_session_delivers[OF raw_request_live])
  show "channel_legal raw_fits (socket_send False) (raw_pump 3)
     [Send [1, 2], Writeable lws_ok, Send [3]] raw_request" by code_simp
qed

text \<open>
  The user of a raw client is told once that it is connected and once, last, that it is
  disconnected, with or without a close event before the destruction.
\<close>

theorem raw_lifecycle:
  assumes "ri_type r = Socket" and "fifo_inv (req_ring r) fs w"
    and "si_callback (ri_socket r) = Some c" and "ri_wsi r = Some wsi"
    and "\<forall>e \<in> set evs. is_raw_traffic e"
  shows "\<exists>effs t. raw_run wsi ([(lws, Raw_connected, None, 0)] @ evs
       @ (if closed then [(lws, Raw_close, None, 0)] else []) @ [(lws, Wsi_destroy, None, 0)]) r
       = Done (effs, t)
     \<and> notifications effs = [Connected c, Disconnected c] \<and> ri_wsi t = None"
proof -
  obtain s where s: "raw_socket_callback lws wsi Raw_connected None 0 r = Done (la_dummy lws, [Connected c], s)"
    "raw_live wsi s []" "si_callback (ri_socket s) = Some c" "\<not> si_invoked (ri_socket s)"
    using raw_established[OF assms(1-4)] by blast
  obtain effs u gs where u: "raw_run wsi evs s = Done (effs, u)" "notifications effs = []"
    "raw_live wsi u gs" "si_callback (ri_socket u) = Some c" "\<not> si_invoked (ri_socket u)"
    using raw_traffic[OF s(2,3) assms(5) s(4)] by blast
  obtain t where "raw_run wsi ((if closed then [(lws, Raw_close, None, 0)] else [])
       @ [(lws, Wsi_destroy, None, 0)]) u = Done ([Disconnected c], t)" "ri_wsi t = None"
    using raw_end[OF _ u(4,5), of wsi closed lws lws] u(3) unfolding raw_live_def by blast
  then show ?thesis using s(1) u(1,2)
    by (intro exI[of _ "[Connected c] @ effs @ [Disconnected c]"] exI[of _ t])
      (simp add: conn_run_append[of _ evs])
qed

theorem raw_lifecycle_witness:
  "\<exists>effs t. raw_run 3 ([(lws_ok, Raw_connected, None, 0)]
       @ [(lws_ok, Raw_writeable, None, 0), (lws_ok, Raw_rx, Some ''tick'', 4)]
       @ (if False then [(lws_ok, Raw_close, None, 0)] else []) @ [(lws_ok, Wsi_destroy, None, 0)])
       raw_request = Done (effs, t)
     \<and> notifications effs = [Connected 9, Disconnected 9] \<and> ri_wsi t = None"
proof (rule raw_lifecycle)
  show "fifo_inv (req_ring raw_request) [] None" using raw_request_live by (simp add: raw_live_def)
qed (simp_all add: raw_request_def ws_request_def is_raw_traffic_def)

text \<open>
  A raw connection of a client from its opening to its end, with sends, writeable events and
  received data in any order: the user's object is called with \<open>on_connected\<close>, then with the data
  in the order they came, then with \<open>on_disconnected\<close>, and with nothing else; what is written are
  the first of the messages sent.
\<close>

theorem raw_whole_life:
  assumes "raw_ready wsi c r"
    and "legal_after (raw_open wsi lws)
      (life_legal raw_fits (socket_send ndebug) (raw_pump wsi) (raw_receive wsi) ms) r"
  shows "\<exists>effs t rest. whole_life (raw_open wsi lws)
       (life_run (socket_send ndebug) (raw_pump wsi) (raw_receive wsi) ms)
       (raw_finish wsi lws closed) r = Done (effs, t)
     \<and> client_calls_of c effs = On_connected # life_data raw_data ms @ [On_disconnected]
     \<and> life_sends ms = written effs @ rest"
  by (rule raw_life.life[OF assms])

theorem raw_whole_life_witness:
  "\<exists>effs t rest. whole_life (raw_open 3 lws_ok)
       (life_run (socket_send False) (raw_pump 3) (raw_receive 3)
         [Move (Send [1, 2]), Receive lws_ok (Some ''tick'') 4, Move (Writeable lws_ok), Move (Send [3])])
       (raw_finish 3 lws_ok False) raw_request = Done (effs, t)
     \<and> client_calls_of 9 effs = On_connected # life_data raw_data
         [Move (Send [1, 2]), Receive lws_ok (Some ''tick'') 4, Move (Writeable lws_ok), Move (Send [3])]
         @ [On_disconnected]
     \<and> life_sends [Move (Send [1, 2]), Receive lws_ok (Some ''tick'') 4, Move (Writeable lws_ok), Move (Send [3])]
         = written effs @ rest"
proof (rule raw_whole_life)
  show "raw_ready 3 9 raw_request"
    using raw_request_live by (auto simp: raw_ready_def raw_live_def raw_request_def ws_request_def)
  show "legal_after (raw_open 3 lws_ok)
      (life_legal raw_fits (socket_send False) (raw_pump 3) (raw_receive 3)
        [Move (Send [1, 2]), Receive lws_ok (Some ''tick'') 4, Move (Writeable lws_ok), Move (Send [3])]) raw_request"
    by code_simp
qed

end
