(* ===== verification/Socket_Service.thy ===== *)
theory Socket_Service
  imports Ring_Buffer Socket_Callback
begin

text \<open>
  \<open>socket_service\<close> (src/socket_service.h, src/socket_service.cpp): the thread that owns the
  connections. Clients obtain a request object from the pool, fill it in and push it into the
  queue; \<open>serve\<close> pops it, connects it, runs the callbacks of libwebsockets and disposes of
  the requests that are done. The objects live in a memory \<open>sv_heap\<close>; an access to an object
  that is not there any more is \<open>Out_of_bounds\<close>.
\<close>

section \<open>State\<close>

text \<open>\<open>sv_requests\<close> lists the \<open>unordered_set\<close> in the order of its iteration.\<close>

record service =
  sv_context :: bool
  sv_cursor :: u64
  sv_run :: bool
  sv_pool :: object_pool
  sv_queue :: "obj ring_buffer"
  sv_ca_file :: string
  sv_global :: bool
  sv_requests :: "obj list"
  sv_heap :: "obj \<Rightarrow> request_info option"

definition QUEUE_SIZE :: u64 where
  "QUEUE_SIZE = 65536"

text \<open>
  The constructor, for a pool and a queue of \<open>sz\<close> entries (\<open>QUEUE_SIZE\<close> in the code). \<open>context\<close> is
  whether \<open>lws_create_context\<close> succeeds, \<open>mem\<close> and \<open>cells\<close> are what the memory of the objects
  and of the queue holds.
\<close>

definition service_new ::
  "u64 \<Rightarrow> bool \<Rightarrow> (nat \<Rightarrow> byte list \<times> string) \<Rightarrow> obj list \<Rightarrow> string \<Rightarrow> bool \<Rightarrow> service"
where
  "service_new sz context mem cells ca_file is_global = \<lparr>
     sv_context = context, sv_cursor = 0, sv_run = True, sv_pool = pool_new sz,
     sv_queue = rb_new cells sz, sv_ca_file = ca_file, sv_global = is_global, sv_requests = [],
     sv_heap = (\<lambda>ob. case ob of
        Pooled i \<Rightarrow> if i < unat sz then Some (request_info_new (fst (mem i)) (snd (mem i))) else None
      | Heap a \<Rightarrow> None)\<rparr>"

text \<open>
  The destructor stops the thread, destroys the context and, with the members, the
  pre-allocated objects.
\<close>

definition service_destroy :: "service \<Rightarrow> service" where
  "service_destroy s = s\<lparr>sv_run := False, sv_context := False,
     sv_heap := (\<lambda>ob. case ob of Pooled i \<Rightarrow> None | Heap a \<Rightarrow> sv_heap s ob)\<rparr>"

text \<open>A store into an object.\<close>

definition with_obj ::
  "obj \<Rightarrow> (request_info \<Rightarrow> request_info) \<Rightarrow> service \<Rightarrow> service result"
where
  "with_obj ob f s = (case sv_heap s ob of
     None \<Rightarrow> Out_of_bounds
   | Some r \<Rightarrow> Done (s\<lparr>sv_heap := (sv_heap s)(ob \<mapsto> f r)\<rparr>))"

section \<open>The operations of the clients\<close>

text \<open>
  \<open>alloc\<close> is what \<open>new\<close> returns when the pool is used up; a new object on the heap is
  constructed over the memory \<open>mem\<close>.
\<close>

definition get_request_info ::
  "request_type \<Rightarrow> obj option \<Rightarrow> byte list \<times> string \<Rightarrow> service \<Rightarrow> (obj option \<times> service) result"
where
  "get_request_info type alloc mem s =
     (if \<not> sv_context s then Done (None, s)
      else result_bind (get_obj alloc (sv_pool s)) (\<lambda>(r, p).
        let s = s\<lparr>sv_pool := p\<rparr> in
        case r of
          None \<Rightarrow> Done (None, s)
        | Some ob \<Rightarrow>
            let s = (case ob of Pooled i \<Rightarrow> s
                     | Heap a \<Rightarrow> s\<lparr>sv_heap := (sv_heap s)(ob \<mapsto> request_info_new (fst mem) (snd mem))\<rparr>)
            in result_bind (with_obj ob (\<lambda>r. r\<lparr>ri_type := type\<rparr>) s) (\<lambda>s. Done (Some ob, s))))"

definition release_request :: "obj \<Rightarrow> service \<Rightarrow> service result" where
  "release_request ob s = result_bind (release_obj ob (sv_pool s)) (\<lambda>(deleted, p).
     let s = s\<lparr>sv_pool := p\<rparr> in
     Done (case deleted of None \<Rightarrow> s | Some d \<Rightarrow> s\<lparr>sv_heap := (sv_heap s)(d := None)\<rparr>))"

definition service_request :: "obj \<Rightarrow> service \<Rightarrow> (effect list \<times> service) result" where
  "service_request ob s = result_bind (rb_push ob (sv_queue s)) (\<lambda>q.
     Done ([Cancel_service], s\<lparr>sv_queue := q\<rparr>))"

definition service_wakeup :: "service \<Rightarrow> effect list" where
  "service_wakeup s = [Cancel_service]"

fun wanting :: "(obj \<Rightarrow> request_info option) \<Rightarrow> obj list \<Rightarrow> effect list result" where
  "wanting h [] = Done []"
| "wanting h (ob # obs) = (case h ob of
     None \<Rightarrow> Out_of_bounds
   | Some r \<Rightarrow> result_bind (wanting h obs) (\<lambda>effs.
       Done ((case ri_wsi r of None \<Rightarrow> [] | Some wsi \<Rightarrow> [Want_write wsi]) @ effs)))"

definition notify_all :: "service \<Rightarrow> effect list result" where
  "notify_all s = wanting (sv_heap s) (sv_requests s)"

section \<open>The service thread\<close>

text \<open>
  What libwebsockets does while the thread is in one of its functions: it stores a connection
  through \<open>pwsi\<close>, or it calls the callback of a protocol for a connection, with the object
  registered as its user data. The callback is called for \<open>ws\<close>, the first protocol, also where a
  connection has not got a protocol yet.
\<close>

datatype protocol = P_ws | P_http | P_raw

datatype lws_act = Set_wsi obj "nat option" | Call protocol "obj option" nat event

definition protocol_callback ::
  "bool \<Rightarrow> nat \<Rightarrow> protocol \<Rightarrow> lws_api \<Rightarrow> nat \<Rightarrow> reason \<Rightarrow> string option \<Rightarrow> u64 \<Rightarrow> request_info \<Rightarrow> answer"
where
  "protocol_callback ndebug pre p = (case p of
     P_ws \<Rightarrow> ws_callback pre
   | P_http \<Rightarrow> http_callback ndebug
   | P_raw \<Rightarrow> raw_socket_callback)"

fun service_act :: "bool \<Rightarrow> nat \<Rightarrow> lws_act \<Rightarrow> service \<Rightarrow> (effect list \<times> service) result" where
  "service_act ndebug pre (Set_wsi ob w) s =
     result_bind (with_obj ob (\<lambda>r. r\<lparr>ri_wsi := w\<rparr>) s) (\<lambda>s. Done ([], s))"
| "service_act ndebug pre (Call p None wsi e) s = Done ([], s)"
| "service_act ndebug pre (Call p (Some ob) wsi (lws, reason, inp, len)) s =
     (case sv_heap s ob of
        None \<Rightarrow> Out_of_bounds
      | Some r \<Rightarrow> result_bind (protocol_callback ndebug pre p lws wsi reason inp len r)
          (\<lambda>(_, effs, r). Done (effs, s\<lparr>sv_heap := (sv_heap s)(ob \<mapsto> r)\<rparr>)))"

fun service_acts :: "bool \<Rightarrow> nat \<Rightarrow> lws_act list \<Rightarrow> service \<Rightarrow> (effect list \<times> service) result" where
  "service_acts ndebug pre [] s = Done ([], s)"
| "service_acts ndebug pre (a # as) s =
     result_bind (service_act ndebug pre a s) (\<lambda>(effs, s).
       result_bind (service_acts ndebug pre as s) (\<lambda>(effs', s). Done (effs @ effs', s)))"

text \<open>The first part of an iteration: take one request from the queue and connect it.\<close>

definition serve_connect ::
  "bool \<Rightarrow> nat \<Rightarrow> lws_act list \<Rightarrow> service \<Rightarrow> (effect list \<times> service) result"
where
  "serve_connect ndebug pre acts s =
     result_bind (queue_pop (sv_queue s, sv_cursor s)) (\<lambda>(r, q, c).
       let s = s\<lparr>sv_cursor := c\<rparr> in
       case r of
         None \<Rightarrow> Done ([], s)
       | Some ob \<Rightarrow>
           result_bind (with_obj ob (\<lambda>r. r\<lparr>ri_cci := (ri_cci r)\<lparr>ci_context := sv_context s\<rparr>,
                                          ri_service := True\<rparr>) s) (\<lambda>s.
             let s = s\<lparr>sv_requests := (if ob \<in> set (sv_requests s) then sv_requests s
                                         else sv_requests s @ [ob])\<rparr>
             in result_bind (service_acts ndebug pre acts s) (\<lambda>(effs, t).
                  Done ((case sv_heap s ob of None \<Rightarrow> [] | Some r \<Rightarrow> [Connecting (ri_cci r)]) @ effs, t))))"

text \<open>The third part: dispose of the requests without a connection.\<close>

definition cleanup_one :: "obj \<Rightarrow> service \<Rightarrow> (bool \<times> effect list \<times> service) result" where
  "cleanup_one ob s =
     (case sv_heap s ob of
        None \<Rightarrow> Out_of_bounds
      | Some r \<Rightarrow>
          if ri_wsi r = None then
            (if ri_type r = Http then
               let r = http_complete r; s = s\<lparr>sv_heap := (sv_heap s)(ob \<mapsto> r)\<rparr> in
               (case hi_callback (ri_http r) of
                  None \<Rightarrow> Done (False, [], s)
                | Some c \<Rightarrow> result_bind (http_result (ri_http r)) (\<lambda>resp.
                    result_bind (release_request ob s) (\<lambda>s. Done (False, [Responded c resp], s))))
             else if si_shutdown (ri_socket r)
               then result_bind (release_request ob s) (\<lambda>s. Done (False, [], s))
               else Done (True, [], s))
          else Done (True, [], s))"

fun cleanup :: "obj list \<Rightarrow> service \<Rightarrow> (obj list \<times> effect list \<times> service) result" where
  "cleanup [] s = Done ([], [], s)"
| "cleanup (ob # obs) s =
     result_bind (cleanup_one ob s) (\<lambda>(keep, effs, s).
       result_bind (cleanup obs s) (\<lambda>(kept, effs', s).
         Done ((if keep then ob # kept else kept), effs @ effs', s)))"

definition serve_cleanup :: "service \<Rightarrow> (effect list \<times> service) result" where
  "serve_cleanup s = result_bind (cleanup (sv_requests s) s)
     (\<lambda>(kept, effs, s). Done (effs, s\<lparr>sv_requests := kept\<rparr>))"

text \<open>
  One iteration of the loop of \<open>serve\<close>: \<open>acts1\<close> happens while connecting, \<open>acts2\<close> in
  \<open>lws_service\<close>. Without requests the thread yields.
\<close>

definition serve_iteration ::
  "bool \<Rightarrow> nat \<Rightarrow> lws_act list \<Rightarrow> lws_act list \<Rightarrow> service \<Rightarrow> (effect list \<times> service) result"
where
  "serve_iteration ndebug pre acts1 acts2 s =
     result_bind (serve_connect ndebug pre acts1 s) (\<lambda>(effs1, s).
       if sv_requests s = [] then Done (effs1, s)
       else result_bind (service_acts ndebug pre acts2 s) (\<lambda>(effs2, s).
         result_bind (serve_cleanup s) (\<lambda>(effs3, s). Done (effs1 @ effs2 @ effs3, s))))"

text \<open>
  The loop; each iteration is given what libwebsockets does and whether the destructor has
  cleared \<open>run_\<close> meanwhile. Without further iterations it is still running.
\<close>

fun serve_loop ::
  "bool \<Rightarrow> nat \<Rightarrow> (lws_act list \<times> lws_act list \<times> bool) list \<Rightarrow> service \<Rightarrow> (effect list \<times> service) result"
where
  "serve_loop ndebug pre its s =
     (if \<not> sv_run s then Done ([], s)
      else case its of
        [] \<Rightarrow> Spinning
      | (acts1, acts2, stop) # its' \<Rightarrow>
          result_bind (serve_iteration ndebug pre acts1 acts2 s) (\<lambda>(effs, s).
            result_bind (serve_loop ndebug pre its' (s\<lparr>sv_run := sv_run s \<and> \<not> stop\<rparr>))
              (\<lambda>(effs', s). Done (effs @ effs', s))))"

declare serve_loop.simps [simp del]

section \<open>The invariant\<close>

text \<open>
  An object as it is constructed, over a memory of the size of its buffer.
\<close>

definition newly_made :: "request_info \<Rightarrow> bool" where
  "newly_made r \<longleftrightarrow> (\<exists>mem text. length mem = 8192 \<and> r = request_info_new mem text)"

text \<open>
  \<open>used\<close> are the objects handed out and not released, \<open>pend\<close> those in the queue. Queued and
  served requests are different objects in use, every object in use exists, and the objects of
  the pool that have not been handed out yet are as they were constructed.
\<close>

definition service_inv :: "service \<Rightarrow> obj set \<Rightarrow> obj list \<Rightarrow> bool" where
  "service_inv s used pend \<longleftrightarrow> pool_inv (sv_pool s) used
     \<and> rb_inv (sv_queue s, sv_cursor s) pend
     \<and> distinct (pend @ sv_requests s) \<and> set (pend @ sv_requests s) \<subseteq> used
     \<and> (\<forall>ob \<in> used. sv_heap s ob \<noteq> None)
     \<and> (\<forall>i. unat (op_read (sv_pool s)) \<le> i \<longrightarrow> i < unat (op_size (sv_pool s)) \<longrightarrow>
           (\<exists>r. sv_heap s (Pooled i) = Some r \<and> newly_made r))"

lemma service_new_inv:
  assumes "is_pow2 sz" "length cells = unat sz" "\<forall>i. length (fst (mem i)) = 8192"
  shows "service_inv (service_new sz context mem cells ca g) {} []"
  using pool_new_inv[OF assms(1)] rb_new_inv[OF assms(1,2)] assms(3)
  by (auto simp: service_inv_def service_new_def pool_new_def newly_made_def)

text \<open>What the disposal does with an object, read off the memory.\<close>

definition stays :: "(obj \<Rightarrow> request_info option) \<Rightarrow> obj \<Rightarrow> bool" where
  "stays h ob \<longleftrightarrow> (\<exists>r. h ob = Some r \<and>
     (ri_wsi r \<noteq> None \<or> ri_type r \<noteq> Http \<and> \<not> si_shutdown (ri_socket r)))"

definition freed :: "(obj \<Rightarrow> request_info option) \<Rightarrow> obj \<Rightarrow> bool" where
  "freed h ob \<longleftrightarrow> (\<exists>r. h ob = Some r \<and> ri_wsi r = None \<and>
     (if ri_type r = Http then hi_callback (ri_http r) \<noteq> None else si_shutdown (ri_socket r)))"

definition reply :: "(obj \<Rightarrow> request_info option) \<Rightarrow> obj \<Rightarrow> effect list" where
  "reply h ob = (case h ob of None \<Rightarrow> [] | Some r \<Rightarrow>
     if ri_wsi r = None \<and> ri_type r = Http
     then (case (hi_callback (ri_http r), http_result (ri_http r)) of
             (Some c, Done resp) \<Rightarrow> [Responded c resp] | _ \<Rightarrow> [])
     else [])"

definition disposed :: "(obj \<Rightarrow> request_info option) \<Rightarrow> obj \<Rightarrow> request_info option" where
  "disposed h ob = (case h ob of None \<Rightarrow> None | Some r \<Rightarrow>
     if freed h ob \<and> (\<exists>a. ob = Heap a) then None
     else if ri_wsi r = None \<and> ri_type r = Http then Some (http_complete r) else Some r)"

text \<open>The content type of a finished request must be a terminated string to be returned.\<close>

definition answerable :: "(obj \<Rightarrow> request_info option) \<Rightarrow> obj \<Rightarrow> bool" where
  "answerable h ob \<longleftrightarrow> (\<forall>r. h ob = Some r \<longrightarrow> ri_wsi r = None \<longrightarrow> ri_type r = Http \<longrightarrow>
     hi_callback (ri_http r) \<noteq> None \<longrightarrow> CHR 0x00 \<in> set (hi_content_type (ri_http r)))"

lemma release_request_Done:
  assumes "pool_inv (sv_pool s) used" "ob \<in> used"
  shows "\<exists>q. release_request ob s = Done (s\<lparr>sv_pool := q, sv_heap := (if \<exists>a. ob = Heap a
       then (sv_heap s)(ob := None) else sv_heap s)\<rparr>)
     \<and> pool_inv q (used - {ob}) \<and> op_size q = op_size (sv_pool s) \<and> op_read q = op_read (sv_pool s)"
proof -
  obtain d q where q: "release_obj ob (sv_pool s) = Done (d, q)" "pool_inv q (used - {ob})"
    using request_pool.release_law[OF assms] by blast
  have size: "op_size q = op_size (sv_pool s) \<and> op_read q = op_read (sv_pool s)"
    using q(1) by (cases ob) (auto simp: release_obj_def Let_def split: if_splits)
  show ?thesis
  proof (cases ob)
    case (Pooled i)
    have "i < unat (op_size (sv_pool s))" using assms Pooled by (auto simp: pool_inv_def)
    then have "d = None" using q(1) Pooled by (auto simp: release_obj_def Let_def split: if_splits)
    then show ?thesis using q size Pooled by (auto simp: release_request_def)
  next
    case (Heap a)
    then have "d = Some ob" using q(1) by (simp add: release_obj_def)
    then show ?thesis using q size Heap by (auto simp: release_request_def)
  qed
qed

lemma cleanup_one_Done:
  assumes pool: "pool_inv (sv_pool s) used" and ob: "ob \<in> used" and h: "sv_heap s ob \<noteq> None"
    and ans: "answerable (sv_heap s) ob"
  shows "\<exists>q. cleanup_one ob s = Done (stays (sv_heap s) ob, reply (sv_heap s) ob,
       s\<lparr>sv_pool := q, sv_heap := (sv_heap s)(ob := disposed (sv_heap s) ob)\<rparr>)
     \<and> pool_inv q (if freed (sv_heap s) ob then used - {ob} else used)
     \<and> op_size q = op_size (sv_pool s) \<and> op_read q = op_read (sv_pool s)"
proof -
  let ?h = "sv_heap s"
  obtain r where r: "?h ob = Some r" using h by auto
  have same: "?h(ob := Some r) = ?h" using r by (rule fun_upd_idem)
  have noop: "s\<lparr>sv_pool := sv_pool s, sv_heap := ?h\<rparr> = s" by simp
  show ?thesis
  proof (cases "ri_wsi r = None")
    case False
    then obtain w where w: "ri_wsi r = Some w" by auto
    then have "disposed ?h ob = Some r" "\<not> freed ?h ob" "reply ?h ob = []" "stays ?h ob"
      using r by (simp_all add: disposed_def freed_def reply_def stays_def)
    moreover have "cleanup_one ob s = Done (True, [], s)" using r w by (simp add: cleanup_one_def)
    ultimately show ?thesis using pool by (intro exI[of _ "sv_pool s"]) (simp only: same noop simp_thms if_False)
  next
    case wsi: True
    show ?thesis
    proof (cases "ri_type r = Http")
      case http: True
      let ?r = "http_complete r" and ?s = "s\<lparr>sv_heap := ?h(ob \<mapsto> http_complete r)\<rparr>"
      have cb: "hi_callback (ri_http ?r) = hi_callback (ri_http r)"
        and res: "http_result (ri_http ?r) = http_result (ri_http r)"
        by (simp_all add: http_complete_def http_upd_def http_result_def)
      show ?thesis
      proof (cases "hi_callback (ri_http r)")
        case None
        then have "disposed ?h ob = Some ?r" "\<not> freed ?h ob" "reply ?h ob = []" "\<not> stays ?h ob"
          using r wsi http by (simp_all add: disposed_def freed_def reply_def stays_def)
        moreover have "cleanup_one ob s = Done (False, [], s\<lparr>sv_pool := sv_pool s, sv_heap := ?h(ob := Some ?r)\<rparr>)"
          using r wsi http None cb by (simp add: cleanup_one_def Let_def)
        ultimately show ?thesis using pool
          by (intro exI[of _ "sv_pool s"]) (simp only: simp_thms if_False)
      next
        case (Some c)
        then have "CHR 0x00 \<in> set (hi_content_type (ri_http r))"
          using ans r wsi http by (simp add: answerable_def)
        then obtain resp where resp: "http_result (ri_http r) = Done resp"
          by (simp add: http_result_def c_string_def)
        from release_request_Done[of ?s used ob] pool ob obtain q where
          q: "release_request ob ?s = Done (?s\<lparr>sv_pool := q, sv_heap := (if \<exists>a. ob = Heap a
               then (sv_heap ?s)(ob := None) else sv_heap ?s)\<rparr>)"
             "pool_inv q (used - {ob})"
             "op_size q = op_size (sv_pool s) \<and> op_read q = op_read (sv_pool s)" by auto
        have fr: "freed ?h ob" using r wsi http Some by (simp add: freed_def)
        have "cleanup_one ob s = Done (False, [Responded c resp],
            ?s\<lparr>sv_pool := q, sv_heap := (if \<exists>a. ob = Heap a then (sv_heap ?s)(ob := None) else sv_heap ?s)\<rparr>)"
          using r wsi http Some cb res resp q(1) by (simp add: cleanup_one_def Let_def)
        moreover have "\<not> stays ?h ob" "reply ?h ob = [Responded c resp]"
          using r wsi http Some resp by (simp_all add: stays_def reply_def)
        moreover have "?s\<lparr>sv_pool := q, sv_heap := (if \<exists>a. ob = Heap a
             then (sv_heap ?s)(ob := None) else sv_heap ?s)\<rparr>
           = s\<lparr>sv_pool := q, sv_heap := ?h(ob := disposed ?h ob)\<rparr>"
          using r wsi http fr by (simp add: disposed_def)
        ultimately show ?thesis using q(2,3) fr by (intro exI[of _ q]) simp
      qed
    next
      case sock: False
      show ?thesis
      proof (cases "si_shutdown (ri_socket r)")
        case True
        from release_request_Done[OF pool ob] obtain q where
          q: "release_request ob s = Done (s\<lparr>sv_pool := q, sv_heap := (if \<exists>a. ob = Heap a
               then ?h(ob := None) else ?h)\<rparr>)"
             "pool_inv q (used - {ob})"
             "op_size q = op_size (sv_pool s) \<and> op_read q = op_read (sv_pool s)" by blast
        have fr: "freed ?h ob" using r wsi sock True by (simp add: freed_def)
        have "disposed ?h ob = (if \<exists>a. ob = Heap a then None else Some r)"
          using r sock fr by (simp add: disposed_def)
        then have d: "?h(ob := disposed ?h ob) = (if \<exists>a. ob = Heap a then ?h(ob := None) else ?h)"
          by (simp only: same split: if_split) simp
        have "reply ?h ob = []" "\<not> stays ?h ob"
          using r wsi sock True by (simp_all add: reply_def stays_def)
        moreover have "cleanup_one ob s = Done (False, [], s\<lparr>sv_pool := q, sv_heap := ?h(ob := disposed ?h ob)\<rparr>)"
          using r wsi sock True q(1) unfolding d by (simp add: cleanup_one_def)
        ultimately show ?thesis using q(2,3) fr by (intro exI[of _ q]) (simp only: simp_thms if_True)
      next
        case False
        then have "disposed ?h ob = Some r" "\<not> freed ?h ob" "reply ?h ob = []" "stays ?h ob"
          using r wsi sock by (simp_all add: disposed_def freed_def reply_def stays_def)
        moreover have "cleanup_one ob s = Done (True, [], s)"
          using r wsi sock False by (simp add: cleanup_one_def)
        ultimately show ?thesis using pool
          by (intro exI[of _ "sv_pool s"]) (simp only: same noop simp_thms if_False)
      qed
    qed
  qed
qed

text \<open>Disposing of one object does not show in what the disposal of another one reads.\<close>

lemma disposal_local:
  assumes "ob \<noteq> x"
  shows "stays (h(ob := v)) x = stays h x" and "freed (h(ob := v)) x = freed h x"
    and "reply (h(ob := v)) x = reply h x" and "disposed (h(ob := v)) x = disposed h x"
    and "answerable (h(ob := v)) x = answerable h x"
proof -
  have x: "(h(ob := v)) x = h x" using assms by simp
  then show "stays (h(ob := v)) x = stays h x" and f: "freed (h(ob := v)) x = freed h x"
    and "reply (h(ob := v)) x = reply h x" and "answerable (h(ob := v)) x = answerable h x"
    by (simp_all only: stays_def freed_def reply_def answerable_def)
  then show "disposed (h(ob := v)) x = disposed h x" using x by (simp only: disposed_def)
qed

lemma cleanup_Done:
  assumes "pool_inv (sv_pool s) used" "distinct obs" "set obs \<subseteq> used"
    and "\<forall>ob \<in> set obs. sv_heap s ob \<noteq> None \<and> answerable (sv_heap s) ob"
  shows "\<exists>q. cleanup obs s = Done (filter (stays (sv_heap s)) obs, concat (map (reply (sv_heap s)) obs),
       s\<lparr>sv_pool := q, sv_heap := (\<lambda>ob. if ob \<in> set obs then disposed (sv_heap s) ob else sv_heap s ob)\<rparr>)
     \<and> pool_inv q (used - {ob \<in> set obs. freed (sv_heap s) ob})
     \<and> op_size q = op_size (sv_pool s) \<and> op_read q = op_read (sv_pool s)"
  using assms
proof (induction obs arbitrary: s used)
  case Nil
  then show ?case by (intro exI[of _ "sv_pool s"]) simp
next
  case (Cons ob obs)
  let ?h = "sv_heap s"
  obtain q where q: "cleanup_one ob s = Done (stays ?h ob, reply ?h ob,
       s\<lparr>sv_pool := q, sv_heap := ?h(ob := disposed ?h ob)\<rparr>)"
     "pool_inv q (if freed ?h ob then used - {ob} else used)"
     "op_size q = op_size (sv_pool s) \<and> op_read q = op_read (sv_pool s)"
    using cleanup_one_Done[OF Cons.prems(1), of ob] Cons.prems(3,4) by auto
  let ?s = "s\<lparr>sv_pool := q, sv_heap := ?h(ob := disposed ?h ob)\<rparr>"
    and ?used = "if freed ?h ob then used - {ob} else used"
  have ne: "ob \<noteq> x" if "x \<in> set obs" for x using that Cons.prems(2) by auto
  have loc: "stays (sv_heap ?s) x = stays ?h x" "freed (sv_heap ?s) x = freed ?h x"
    "reply (sv_heap ?s) x = reply ?h x" "disposed (sv_heap ?s) x = disposed ?h x"
    "answerable (sv_heap ?s) x = answerable ?h x" if "x \<in> set obs" for x
    using disposal_local[OF ne[OF that]] by simp_all
  have "distinct obs" "set obs \<subseteq> ?used" using Cons.prems(2,3) by auto
  moreover have "\<forall>x \<in> set obs. sv_heap ?s x \<noteq> None \<and> answerable (sv_heap ?s) x"
    using Cons.prems(4) loc(5) ne by auto
  moreover have "pool_inv (sv_pool ?s) ?used" using q(2) by simp
  ultimately obtain p where p: "cleanup obs ?s = Done (filter (stays (sv_heap ?s)) obs,
       concat (map (reply (sv_heap ?s)) obs), ?s\<lparr>sv_pool := p, sv_heap :=
         (\<lambda>x. if x \<in> set obs then disposed (sv_heap ?s) x else sv_heap ?s x)\<rparr>)"
     "pool_inv p (?used - {x \<in> set obs. freed (sv_heap ?s) x})" "op_size p = op_size (sv_pool ?s) \<and> op_read p = op_read (sv_pool ?s)"
    using Cons.IH by blast
  have 1: "filter (stays (sv_heap ?s)) obs = filter (stays ?h) obs"
    by (rule filter_cong) (use loc(1) in auto)
  have 2: "map (reply (sv_heap ?s)) obs = map (reply ?h) obs" by (rule map_cong) (use loc(3) in auto)
  have 3: "(\<lambda>x. if x \<in> set obs then disposed (sv_heap ?s) x else sv_heap ?s x)
      = (\<lambda>x. if x \<in> set (ob # obs) then disposed ?h x else ?h x)"
    using loc(4) ne by (auto simp: fun_eq_iff)
  have 4: "?used - {x \<in> set obs. freed (sv_heap ?s) x} = used - {x \<in> set (ob # obs). freed ?h x}"
    using loc(2) by auto
  show ?case using q(1,3) p unfolding 1 2 3 4 by (intro exI[of _ p]) simp
qed

lemma disposed_None: "disposed h ob = None \<longleftrightarrow> h ob = None \<or> freed h ob \<and> (\<exists>a. ob = Heap a)"
  by (auto simp: disposed_def split: option.splits)

lemma stays_not_freed: "stays h ob \<Longrightarrow> \<not> freed h ob"
  by (auto simp: stays_def freed_def split: if_splits)

lemma serve_cleanup_Done:
  assumes inv: "service_inv s used pend" and ans: "\<forall>ob \<in> set (sv_requests s). answerable (sv_heap s) ob"
  shows "\<exists>t. serve_cleanup s = Done (concat (map (reply (sv_heap s)) (sv_requests s)), t)
     \<and> service_inv t (used - {ob \<in> set (sv_requests s). freed (sv_heap s) ob}) pend
     \<and> sv_requests t = filter (stays (sv_heap s)) (sv_requests s)
     \<and> (\<forall>ob. sv_heap t ob = (if ob \<in> set (sv_requests s) then disposed (sv_heap s) ob else sv_heap s ob))"
proof -
  let ?h = "sv_heap s" and ?R = "sv_requests s"
  let ?h' = "\<lambda>ob. if ob \<in> set ?R then disposed ?h ob else ?h ob"
  let ?used = "used - {ob \<in> set ?R. freed ?h ob}"
  have pool: "pool_inv (sv_pool s) used" and R: "distinct ?R" "set ?R \<subseteq> used"
    and heap: "\<forall>ob \<in> used. ?h ob \<noteq> None" and q0: "rb_inv (sv_queue s, sv_cursor s) pend"
    and dist: "distinct (pend @ ?R)" "set (pend @ ?R) \<subseteq> used"
    and fresh: "\<And>i. unat (op_read (sv_pool s)) \<le> i \<Longrightarrow> i < unat (op_size (sv_pool s)) \<Longrightarrow>
           \<exists>r. ?h (Pooled i) = Some r \<and> newly_made r"
    using inv by (auto simp: service_inv_def)
  obtain q where q: "cleanup ?R s = Done (filter (stays ?h) ?R, concat (map (reply ?h) ?R),
       s\<lparr>sv_pool := q, sv_heap := ?h'\<rparr>)" "pool_inv q ?used"
     "op_size q = op_size (sv_pool s)" "op_read q = op_read (sv_pool s)"
    using cleanup_Done[OF pool R] heap ans R by blast
  let ?t = "s\<lparr>sv_pool := q, sv_heap := ?h', sv_requests := filter (stays ?h) ?R\<rparr>"
  have "serve_cleanup s = Done (concat (map (reply ?h) ?R), ?t)"
    using q(1) by (simp add: serve_cleanup_def)
  moreover have "service_inv ?t ?used pend"
  proof -
    have "set (pend @ filter (stays ?h) ?R) \<subseteq> ?used"
      using dist stays_not_freed[of ?h] by auto
    moreover have "distinct (pend @ filter (stays ?h) ?R)" using dist(1) by auto
    moreover have "\<forall>ob \<in> ?used. ?h' ob \<noteq> None" using heap by (auto simp: disposed_None)
    moreover have "\<exists>r. ?h' (Pooled i) = Some r \<and> newly_made r"
      if "unat (op_read q) \<le> i" "i < unat (op_size q)" for i
    proof -
      have "Pooled i \<notin> used" using pool that(1) q(4) by (auto simp: pool_inv_def)
      then have "Pooled i \<notin> set ?R" using R(2) by auto
      then show ?thesis using fresh[of i] that q(3,4) by simp
    qed
    ultimately show ?thesis using q(2) q0 by (simp only: service_inv_def) simp
  qed
  ultimately show ?thesis by (intro exI[of _ ?t]) simp
qed

section \<open>What the clients do to it\<close>

text \<open>A change of an object in use.\<close>

lemma heap_upd_inv:
  assumes "service_inv s used pend" "ob \<in> used"
  shows "service_inv (s\<lparr>sv_heap := (sv_heap s)(ob \<mapsto> r)\<rparr>) used pend"
proof -
  have "Pooled i \<noteq> ob" if "unat (op_read (sv_pool s)) \<le> i" for i
    using assms that by (auto simp: service_inv_def pool_inv_def)
  then show ?thesis using assms by (auto simp: service_inv_def)
qed

lemma used_exists: "service_inv s used pend \<Longrightarrow> ob \<in> used \<Longrightarrow> \<exists>r. sv_heap s ob = Some r"
  by (auto simp: service_inv_def)

lemma with_obj_inv:
  assumes "service_inv s used pend" "ob \<in> used"
  shows "\<exists>r. sv_heap s ob = Some r \<and> with_obj ob f s = Done (s\<lparr>sv_heap := (sv_heap s)(ob \<mapsto> f r)\<rparr>)
     \<and> service_inv (s\<lparr>sv_heap := (sv_heap s)(ob \<mapsto> f r)\<rparr>) used pend"
  using used_exists[OF assms] heap_upd_inv[OF assms] by (auto simp: with_obj_def)

lemma get_request_info_Done:
  assumes inv: "service_inv s used pend" and al: "alloc_ok alloc used" and ctx: "sv_context s"
    and mem: "length (fst mem) = 8192"
  shows "\<exists>r t. get_request_info type alloc mem s = Done (r, t) \<and> sv_context t
     \<and> sv_requests t = sv_requests s \<and> sv_queue t = sv_queue s \<and> sv_cursor t = sv_cursor s
     \<and> sv_run t = sv_run s \<and> (case r of
       None \<Rightarrow> alloc = None \<and> service_inv t used pend
     | Some ob \<Rightarrow> ob \<notin> used \<and> service_inv t (insert ob used) pend
         \<and> (\<exists>i. newly_made i \<and> sv_heap t ob = Some (i\<lparr>ri_type := type\<rparr>))
         \<and> (\<forall>x. x \<noteq> ob \<longrightarrow> sv_heap t x = sv_heap s x))"
proof -
  have pool: "pool_inv (sv_pool s) used" using inv by (simp add: service_inv_def)
  show ?thesis
  proof (cases "get_check (sv_pool s)")
    case True
    let ?p = "sv_pool s" and ?r = "unat (op_read (sv_pool s))"
    let ?q = "?p\<lparr>op_read := op_read ?p + 1\<rparr>" and ?ob = "Pooled ?r"
    note G = pool_get_checked[OF pool True]
    obtain i where i: "sv_heap s ?ob = Some i" "newly_made i"
      using inv G(2) by (auto simp: service_inv_def)
    let ?t = "s\<lparr>sv_pool := ?q, sv_heap := (sv_heap s)(?ob \<mapsto> i\<lparr>ri_type := type\<rparr>)\<rparr>"
    have "get_request_info type alloc mem s = Done (Some ?ob, ?t)"
      using ctx G(1)[of alloc] i by (simp add: get_request_info_def with_obj_def Let_def)
    moreover have "service_inv ?t (insert ?ob used) pend"
      using inv G(4,5) by (auto simp: service_inv_def)
    ultimately show ?thesis using G(3) i(2) ctx
      by (intro exI[of _ "Some ?ob"] exI[of _ ?t]) auto
  next
    case False
    then have g: "get_obj alloc (sv_pool s) = Done (alloc, sv_pool s)" by (simp add: get_obj_def)
    show ?thesis
    proof (cases alloc)
      case None
      then show ?thesis using g inv ctx
        by (intro exI[of _ None] exI[of _ s]) (simp add: get_request_info_def Let_def)
    next
      case (Some ob)
      then obtain a where a: "ob = Heap a" "ob \<notin> used"
        using al by (cases ob) (auto simp: alloc_ok_def)
      let ?i = "request_info_new (fst mem) (snd mem)"
      let ?t = "s\<lparr>sv_heap := (sv_heap s)(ob \<mapsto> ?i\<lparr>ri_type := type\<rparr>)\<rparr>"
      have "get_request_info type alloc mem s = Done (Some ob, ?t)"
        using ctx g Some a by (simp add: get_request_info_def with_obj_def Let_def)
      moreover have "pool_inv (sv_pool s) (insert ob used)"
        using pool_get_law[OF pool al] g Some by auto
      then have "service_inv ?t (insert ob used) pend"
        using inv a(1) by (auto simp: service_inv_def)
      moreover have "newly_made ?i" using mem by (auto simp: newly_made_def)
      ultimately show ?thesis using a(2) ctx
        by (intro exI[of _ "Some ob"] exI[of _ ?t]) auto
    qed
  qed
qed

lemma service_request_Done:
  assumes inv: "service_inv s used pend" and ob: "ob \<in> used" "ob \<notin> set (pend @ sv_requests s)"
    and room: "rb_room (sv_queue s, sv_cursor s)"
  shows "\<exists>t. service_request ob s = Done ([Cancel_service], t) \<and> service_inv t used (pend @ [ob])
     \<and> sv_heap t = sv_heap s \<and> sv_requests t = sv_requests s \<and> sv_context t = sv_context s
     \<and> sv_run t = sv_run s"
proof -
  have "rb_inv (sv_queue s, sv_cursor s) pend" using inv by (simp add: service_inv_def)
  from request_queue.push_law[OF this room, of ob] obtain q where
    q: "rb_push ob (sv_queue s) = Done q" "rb_inv (q, sv_cursor s) (pend @ [ob])"
    by (auto simp: queue_push_def result_bind_eq_Done)
  then show ?thesis using inv ob by (auto simp: service_request_def service_inv_def)
qed

section \<open>What the service thread does to it\<close>

text \<open>Libwebsockets calls back only for objects that are still in use.\<close>

fun act_ok :: "obj set \<Rightarrow> lws_act \<Rightarrow> bool" where
  "act_ok used (Set_wsi ob w) \<longleftrightarrow> ob \<in> used"
| "act_ok used (Call p None wsi e) \<longleftrightarrow> True"
| "act_ok used (Call p (Some ob) wsi e) \<longleftrightarrow> ob \<in> used"

lemma service_act_inv:
  assumes "service_inv s used pend" "act_ok used a" "service_act ndebug pre a s = Done (effs, t)"
  shows "service_inv t used pend \<and> sv_requests t = sv_requests s \<and> sv_context t = sv_context s"
proof (cases a)
  case (Set_wsi ob w)
  then show ?thesis
    using with_obj_inv[OF assms(1), of ob "\<lambda>r. r\<lparr>ri_wsi := w\<rparr>"] assms(2,3) by auto
next
  case (Call p u wsi e)
  obtain lws reason inp len where e: "e = (lws, reason, inp, len)" by (cases e) auto
  show ?thesis
  proof (cases u)
    case None
    then show ?thesis using assms Call by simp
  next
    case (Some ob)
    then have "ob \<in> used" using assms(2) Call by simp
    then obtain r where r: "sv_heap s ob = Some r" using assms(1) by (auto simp: service_inv_def)
    then obtain r' where "t = s\<lparr>sv_heap := (sv_heap s)(ob \<mapsto> r')\<rparr>"
      using assms(3) Call Some e by (auto simp: result_bind_eq_Done)
    then show ?thesis using heap_upd_inv[OF assms(1) \<open>ob \<in> used\<close>] by simp
  qed
qed

lemma service_acts_inv:
  assumes "service_inv s used pend" "\<forall>a \<in> set as. act_ok used a" "service_acts ndebug pre as s = Done (effs, t)"
  shows "service_inv t used pend \<and> sv_requests t = sv_requests s \<and> sv_context t = sv_context s"
  using assms
proof (induction as arbitrary: s effs)
  case Nil
  then show ?case by simp
next
  case (Cons a as)
  then obtain e1 m e2 where m: "service_act ndebug pre a s = Done (e1, m)"
    "service_acts ndebug pre as m = Done (e2, t)"
    by (auto simp: result_bind_eq_Done)
  have "service_inv m used pend \<and> sv_requests m = sv_requests s \<and> sv_context m = sv_context s"
    using service_act_inv[OF Cons.prems(1) _ m(1)] Cons.prems(2) by simp
  then show ?case using Cons.IH[OF _ _ m(2)] Cons.prems(2) by simp
qed

text \<open>The request at the front of the queue is taken, noted and connected.\<close>

lemma serve_connect_front:
  assumes inv: "service_inv s used (ob # obs)"
  shows "\<exists>r m. sv_heap s ob = Some r \<and> service_inv m used obs
     \<and> sv_requests m = sv_requests s @ [ob] \<and> sv_context m = sv_context s \<and> sv_run m = sv_run s
     \<and> sv_heap m = (sv_heap s)(ob \<mapsto> r\<lparr>ri_cci := (ri_cci r)\<lparr>ci_context := sv_context s\<rparr>, ri_service := True\<rparr>)
     \<and> serve_connect ndebug pre acts s = result_bind (service_acts ndebug pre acts m) (\<lambda>(effs, t).
          Done ((case sv_heap m ob of None \<Rightarrow> [] | Some r \<Rightarrow> [Connecting (ri_cci r)]) @ effs, t))"
proof -
  have "rb_inv (sv_queue s, sv_cursor s) (ob # obs)" using inv by (simp add: service_inv_def)
  from request_queue.pop_law[OF this] obtain c where
    c: "queue_pop (sv_queue s, sv_cursor s) = Done (Some ob, sv_queue s, c)"
    "rb_inv (sv_queue s, c) obs"
    by (auto simp: queue_pop_def result_bind_eq_Done)
  have ob: "ob \<in> used" "ob \<notin> set (obs @ sv_requests s)" using inv by (auto simp: service_inv_def)
  then obtain r where r: "sv_heap s ob = Some r" using used_exists[OF inv] by blast
  let ?r = "r\<lparr>ri_cci := (ri_cci r)\<lparr>ci_context := sv_context s\<rparr>, ri_service := True\<rparr>"
  let ?m = "s\<lparr>sv_cursor := c, sv_heap := (sv_heap s)(ob \<mapsto> ?r), sv_requests := sv_requests s @ [ob]\<rparr>"
  have "service_inv (s\<lparr>sv_cursor := c, sv_requests := sv_requests s @ [ob]\<rparr>) used obs"
    using inv c(2) by (simp add: service_inv_def)
  from heap_upd_inv[OF this ob(1), of ?r]
  have "service_inv (s\<lparr>sv_cursor := c, sv_requests := sv_requests s @ [ob],
      sv_heap := (sv_heap s)(ob \<mapsto> ?r)\<rparr>) used obs" by simp
  moreover have "s\<lparr>sv_cursor := c, sv_requests := sv_requests s @ [ob],
      sv_heap := (sv_heap s)(ob \<mapsto> ?r)\<rparr> = ?m" by (cases s) simp
  ultimately have "service_inv ?m used obs" by (simp only:)
  moreover have "serve_connect ndebug pre acts s = result_bind (service_acts ndebug pre acts ?m) (\<lambda>(effs, t).
      Done ((case sv_heap ?m ob of None \<Rightarrow> [] | Some r \<Rightarrow> [Connecting (ri_cci r)]) @ effs, t))"
    using c(1) r ob(2) by (simp add: serve_connect_def with_obj_def Let_def)
  ultimately show ?thesis using r by (intro exI[of _ r] exI[of _ ?m]) simp
qed

lemma serve_connect_inv:
  assumes inv: "service_inv s used pend" and ok: "\<forall>a \<in> set acts. act_ok used a"
    and res: "serve_connect ndebug pre acts s = Done (effs, t)"
  shows "service_inv t used (tl pend) \<and> sv_context t = sv_context s
     \<and> sv_requests t = sv_requests s @ (case pend of [] \<Rightarrow> [] | ob # obs \<Rightarrow> [ob])"
proof (cases pend)
  case Nil
  have "queue_pop (sv_queue s, sv_cursor s) = Done (None, sv_queue s, sv_cursor s)"
    using request_queue.pop_empty_law[of "(sv_queue s, sv_cursor s)"] inv Nil by (simp add: service_inv_def)
  then have "t = s" using res by (simp add: serve_connect_def Let_def)
  then show ?thesis using inv Nil by simp
next
  case (Cons ob obs)
  from serve_connect_front[OF inv[unfolded Cons], of ndebug pre acts] obtain m where
    m: "service_inv m used obs" "sv_requests m = sv_requests s @ [ob]" "sv_context m = sv_context s"
    "serve_connect ndebug pre acts s = result_bind (service_acts ndebug pre acts m) (\<lambda>(effs, t).
       Done ((case sv_heap m ob of None \<Rightarrow> [] | Some r \<Rightarrow> [Connecting (ri_cci r)]) @ effs, t))" by blast
  then obtain effs' where "service_acts ndebug pre acts m = Done (effs', t)"
    using res unfolding m(4) by (auto simp: result_bind_eq_Done)
  from service_acts_inv[OF m(1) ok this] show ?thesis using Cons m(2,3) by simp
qed

text \<open>Nothing the thread does in an iteration stops it.\<close>

lemma with_obj_run: "with_obj ob f s = Done t \<Longrightarrow> sv_run t = sv_run s"
  by (auto simp: with_obj_def split: option.splits)

lemma service_acts_run: "service_acts ndebug pre as s = Done (effs, t) \<Longrightarrow> sv_run t = sv_run s"
proof (induction as arbitrary: s effs)
  case (Cons a as)
  then obtain e1 m e2 where m: "service_act ndebug pre a s = Done (e1, m)"
    "service_acts ndebug pre as m = Done (e2, t)" by (auto simp: result_bind_eq_Done)
  have "sv_run m = sv_run s"
  proof (cases a)
    case (Set_wsi ob w)
    then show ?thesis using m(1) by (auto simp: result_bind_eq_Done dest: with_obj_run)
  next
    case (Call p u wsi e)
    obtain lws reason inp len where "e = (lws, reason, inp, len)" by (cases e) auto
    then show ?thesis using m(1) Call by (cases u) (auto simp: result_bind_eq_Done split: option.splits)
  qed
  then show ?case using Cons.IH[OF m(2)] by simp
qed simp

lemma serve_connect_run: "serve_connect ndebug pre acts s = Done (effs, t) \<Longrightarrow> sv_run t = sv_run s"
  by (auto simp: serve_connect_def result_bind_eq_Done Let_def dest!: with_obj_run service_acts_run
      split: option.splits)

lemma release_request_run: "release_request ob s = Done t \<Longrightarrow> sv_run t = sv_run s"
  by (auto simp: release_request_def result_bind_eq_Done Let_def split: option.splits)

lemma cleanup_run: "cleanup obs s = Done (kept, effs, t) \<Longrightarrow> sv_run t = sv_run s"
proof (induction obs arbitrary: s kept effs)
  case (Cons ob obs)
  then obtain k e1 m kept' e2 where m: "cleanup_one ob s = Done (k, e1, m)"
    "cleanup obs m = Done (kept', e2, t)" by (auto simp: result_bind_eq_Done)
  have "sv_run m = sv_run s" using m(1)
    by (auto simp: cleanup_one_def result_bind_eq_Done Let_def dest!: release_request_run
        split: option.splits if_splits)
  then show ?case using Cons.IH[OF m(2)] by simp
qed simp

lemma serve_iteration_run: "serve_iteration ndebug pre acts1 acts2 s = Done (effs, t) \<Longrightarrow> sv_run t = sv_run s"
  by (auto simp: serve_iteration_def serve_cleanup_def result_bind_eq_Done
      dest!: serve_connect_run service_acts_run cleanup_run split: if_splits)

end
