(* ===== verification/Service_Facts.thy ===== *)
theory Service_Facts
  imports Socket_Service
begin

text \<open>
  What holds of the service in every sequence of submissions, iterations of the service thread
  and releases by clients, and the two ways in which a request object on the heap is used after
  it has been deleted.
\<close>

section \<open>The service over time\<close>

text \<open>
  A state of the service with the objects handed out and the queue, as ghosts. \<open>submit\<close> is what
  every client does: obtain an object, fill it in (\<open>f\<close>), push it. \<open>iterate\<close> is one iteration of
  the service thread, in which libwebsockets calls back only for objects in use. \<open>release\<close> is
  the release of a finished synchronous request by its client.
\<close>

type_synonym svc = "service \<times> obj set \<times> obj list"

inductive service_step :: "svc \<Rightarrow> svc \<Rightarrow> bool" where
  submit: "alloc_ok alloc used \<Longrightarrow> length (fst mem) = 8192 \<Longrightarrow>
    get_request_info type alloc mem s = Done (Some ob, s1) \<Longrightarrow>
    with_obj ob f s1 = Done s2 \<Longrightarrow> rb_room (sv_queue s2, sv_cursor s2) \<Longrightarrow>
    service_request ob s2 = Done (effs, t) \<Longrightarrow>
    service_step (s, used, pend) (t, insert ob used, pend @ [ob])"
| iterate: "\<forall>a \<in> set acts1. act_ok used a \<Longrightarrow> serve_connect ndebug pre acts1 s = Done (e1, m) \<Longrightarrow>
    \<forall>a \<in> set acts2. act_ok used a \<Longrightarrow> service_acts ndebug pre acts2 m = Done (e2, n) \<Longrightarrow>
    \<forall>ob \<in> set (sv_requests n). answerable (sv_heap n) ob \<Longrightarrow>
    serve_iteration ndebug pre acts1 acts2 s = Done (effs, t) \<Longrightarrow>
    service_step (s, used, pend)
      (t, if sv_requests m = [] then used else used - {ob \<in> set (sv_requests n). freed (sv_heap n) ob}, tl pend)"
| release: "ob \<in> used \<Longrightarrow> ob \<notin> set (pend @ sv_requests s) \<Longrightarrow> release_request ob s = Done t \<Longrightarrow>
    service_step (s, used, pend) (t, used - {ob}, pend)"

inductive_cases service_stepE: "service_step (s, used, pend) x"

inductive service_reach :: "svc \<Rightarrow> svc \<Rightarrow> bool" for i :: svc where
  start: "service_reach i i"
| step: "service_reach i x \<Longrightarrow> service_step x y \<Longrightarrow> service_reach i y"

lemma iteration_Done:
  assumes inv: "service_inv s used pend"
    and a1: "\<forall>a \<in> set acts1. act_ok used a" and c: "serve_connect ndebug pre acts1 s = Done (e1, m)"
    and a2: "\<forall>a \<in> set acts2. act_ok used a" and a: "service_acts ndebug pre acts2 m = Done (e2, n)"
    and ans: "\<forall>ob \<in> set (sv_requests n). answerable (sv_heap n) ob"
    and busy: "sv_requests m \<noteq> []"
  shows "\<exists>t. serve_iteration ndebug pre acts1 acts2 s
       = Done (e1 @ e2 @ concat (map (reply (sv_heap n)) (sv_requests n)), t)
     \<and> service_inv t (used - {ob \<in> set (sv_requests n). freed (sv_heap n) ob}) (tl pend)
     \<and> sv_requests n = sv_requests s @ (case pend of [] \<Rightarrow> [] | ob # obs \<Rightarrow> [ob])
     \<and> sv_requests t = filter (stays (sv_heap n)) (sv_requests n)
     \<and> (\<forall>ob. sv_heap t ob = (if ob \<in> set (sv_requests n) then disposed (sv_heap n) ob else sv_heap n ob))"
proof -
  from serve_connect_inv[OF inv a1 c] have m: "service_inv m used (tl pend)"
    "sv_requests m = sv_requests s @ (case pend of [] \<Rightarrow> [] | ob # obs \<Rightarrow> [ob])" by auto
  from service_acts_inv[OF m(1) a2 a] have n: "service_inv n used (tl pend)" "sv_requests n = sv_requests m"
    by auto
  from serve_cleanup_Done[OF n(1) ans] obtain t where
    t: "serve_cleanup n = Done (concat (map (reply (sv_heap n)) (sv_requests n)), t)"
    "service_inv t (used - {ob \<in> set (sv_requests n). freed (sv_heap n) ob}) (tl pend)"
    "sv_requests t = filter (stays (sv_heap n)) (sv_requests n)"
    "\<forall>ob. sv_heap t ob = (if ob \<in> set (sv_requests n) then disposed (sv_heap n) ob else sv_heap n ob)"
    by blast
  have "serve_iteration ndebug pre acts1 acts2 s
      = Done (e1 @ e2 @ concat (map (reply (sv_heap n)) (sv_requests n)), t)"
    using c a t(1) busy by (simp add: serve_iteration_def)
  then show ?thesis using t(2-4) n(2) m(2) by (intro exI[of _ t]) simp
qed

lemma release_inv:
  assumes inv: "service_inv s used pend" and ob: "ob \<in> used" "ob \<notin> set (pend @ sv_requests s)"
    and rel: "release_request ob s = Done t"
  shows "service_inv t (used - {ob}) pend"
proof -
  have pool: "pool_inv (sv_pool s) used" using inv by (simp add: service_inv_def)
  from release_request_Done[OF this ob(1)] rel obtain q where
    t: "t = s\<lparr>sv_pool := q, sv_heap := (if \<exists>a. ob = Heap a then (sv_heap s)(ob := None) else sv_heap s)\<rparr>"
    "pool_inv q (used - {ob})" "op_size q = op_size (sv_pool s)" "op_read q = op_read (sv_pool s)" by auto
  then show ?thesis using inv ob by (auto simp: service_inv_def)
qed

lemma service_step_inv:
  assumes "service_step x y" "service_inv (fst x) (fst (snd x)) (snd (snd x))"
  shows "service_inv (fst y) (fst (snd y)) (snd (snd y))"
  using assms
proof (induction rule: service_step.induct)
  case (submit alloc used mem type s ob s1 f s2 effs t pend)
  then have inv: "service_inv s used pend" by simp
  have "sv_context s" using submit.hyps(3) by (auto simp: get_request_info_def split: if_splits)
  from get_request_info_Done[OF inv submit.hyps(1) this submit.hyps(2), of type] submit.hyps(3)
  have s1: "ob \<notin> used" "service_inv s1 (insert ob used) pend" "sv_requests s1 = sv_requests s" by auto
  from with_obj_inv[OF s1(2), of ob f] submit.hyps(4)
  have s2: "service_inv s2 (insert ob used) pend" "sv_requests s2 = sv_requests s" using s1(3) by auto
  have "ob \<notin> set (pend @ sv_requests s2)" using inv s1(1) s2(2) by (auto simp: service_inv_def)
  from service_request_Done[OF s2(1) _ this submit.hyps(5)] submit.hyps(6) show ?case by auto
next
  case (iterate acts1 used ndebug pre s e1 m acts2 e2 n effs t pend)
  then have inv: "service_inv s used pend" by simp
  show ?case
  proof (cases "sv_requests m = []")
    case True
    then have "t = m" using iterate.hyps(2,6) by (simp add: serve_iteration_def)
    then show ?thesis using serve_connect_inv[OF inv iterate.hyps(1,2)] True by simp
  next
    case False
    from iteration_Done[OF inv iterate.hyps(1-5) False] iterate.hyps(6) show ?thesis using False by auto
  qed
next
  case (release ob used pend s t)
  then show ?case using release_inv[of s used pend ob t] by simp
qed

lemma service_reach_keeps:
  "service_reach i x \<Longrightarrow> service_inv (fst i) (fst (snd i)) (snd (snd i)) \<Longrightarrow>
   service_inv (fst x) (fst (snd x)) (snd (snd x))"
  by (induction rule: service_reach.induct) (auto intro: service_step_inv)

lemma served_exists:
  assumes "service_inv s used pend" "ob \<in> set (sv_requests s)"
  shows "\<exists>r. sv_heap s ob = Some r"
proof -
  have "ob \<in> used" using assms by (auto simp: service_inv_def)
  then show ?thesis using assms(1) by (simp add: service_inv_def)
qed

section \<open>A deleted object\<close>

lemma release_keeps_None:
  "release_request x s = Done t \<Longrightarrow> sv_heap s ob = None \<Longrightarrow> sv_heap t ob = None"
  by (auto simp: release_request_def result_bind_eq_Done Let_def split: option.splits)

lemma cleanup_one_keeps_None:
  assumes "cleanup_one x s = Done (k, effs, t)" "sv_heap s ob = None"
  shows "sv_heap t ob = None \<and> x \<noteq> ob"
proof -
  have "x \<noteq> ob" using assms by (auto simp: cleanup_one_def)
  moreover have "sv_heap t ob = None"
    using assms \<open>x \<noteq> ob\<close>
    by (auto simp: cleanup_one_def result_bind_eq_Done Let_def dest!: release_keeps_None[where ob = ob]
        split: option.splits if_splits)
  ultimately show ?thesis by simp
qed

lemma cleanup_deleted:
  "sv_heap s ob = None \<Longrightarrow> ob \<in> set obs \<Longrightarrow> cleanup obs s \<noteq> Done res"
proof (induction obs arbitrary: s res)
  case (Cons x obs)
  show ?case
  proof
    assume "cleanup (x # obs) s = Done res"
    then obtain k e t r where t: "cleanup_one x s = Done (k, e, t)" "cleanup obs t = Done r"
      by (auto simp: result_bind_eq_Done)
    have "sv_heap t ob = None" "ob \<in> set obs"
      using cleanup_one_keeps_None[OF t(1) Cons.prems(1)] Cons.prems(2) by auto
    then show False using Cons.IH t(2) by blast
  qed
qed simp

text \<open>The event with which libwebsockets reports a complete response.\<close>

definition completed_event :: "lws_api \<Rightarrow> event" where
  "completed_event lws = (lws, Completed_client_http, None, 0)"

lemma completed_act:
  assumes "sv_heap s ob = Some r"
  shows "service_act ndebug pre (Call P_http (Some ob) wsi (completed_event lws)) s
    = Done ([Cancel_service], s\<lparr>sv_heap := (sv_heap s)(ob \<mapsto> http_complete (r\<lparr>ri_wsi := None\<rparr>))\<rparr>)"
  using assms by (simp add: completed_event_def protocol_callback_def http_callback_def)

section \<open>Properties\<close>


text \<open>A small service for the witnesses.\<close>

definition zeros :: "byte list \<times> string" where
  "zeros = (replicate 8192 0, [CHR 0x00])"

lemma zeros_size [simp]: "length (fst zeros) = 8192" "snd zeros = [CHR 0x00]"
  by (simp_all add: zeros_def)

definition small_service :: service where
  "small_service = service_new 2 True (\<lambda>_. zeros) [Heap 0, Heap 0] [] False"

lemma small_service_inv: "service_inv small_service {} []"
  unfolding small_service_def by (rule service_new_inv) (simp_all add: is_pow2_def)



text \<open>A service that serves one asynchronous request, on the heap.\<close>

definition async_request :: request_info where
  "async_request = (request_info_new [] [CHR 0x00])\<lparr>ri_wsi := Some 3, ri_http :=
     (ri_http (request_info_new [] [CHR 0x00]))\<lparr>hi_callback := Some 8\<rparr>\<rparr>"

definition serving :: service where
  "serving = small_service\<lparr>sv_requests := [Heap 1],
     sv_heap := (sv_heap small_service)(Heap 1 \<mapsto> async_request)\<rparr>"

lemma serving_inv: "service_inv serving {Heap 1} []"
proof -
  have "pool_inv (sv_pool small_service) {Heap 1}"
    using small_service_inv by (simp add: service_inv_def pool_inv_def)
  then show ?thesis using small_service_inv
    by (auto simp: serving_def service_inv_def small_service_def service_new_def)
qed

lemma serving_idle: "serve_connect ndebug pre [] serving = Done ([], serving)"
  using request_queue.pop_empty_law[of "(sv_queue serving, sv_cursor serving)"] serving_inv
  by (simp add: serve_connect_def service_inv_def Let_def)


text \<open>
  C35: a synchronous request whose object is on the heap is used after it was deleted when its
  client is fast: the complete response ends the client's wait, the client releases the object,
  and the disposal in the same iteration reads it.
\<close>

theorem sync_request_race:
  assumes "service_inv s used pend" and "Heap a \<in> set (sv_requests s)"
  shows "\<exists>s1 i s2. service_act ndebug pre (Call P_http (Some (Heap a)) wsi (completed_event lws)) s
       = Done ([Cancel_service], s1)
     \<and> sv_heap s1 (Heap a) = Some i \<and> hi_completed (ri_http i)
     \<and> release_request (Heap a) s1 = Done s2 \<and> (\<forall>res. serve_cleanup s2 \<noteq> Done res)"
proof -
  obtain r where r: "sv_heap s (Heap a) = Some r" using served_exists[OF assms] by blast
  let ?i = "http_complete (r\<lparr>ri_wsi := None\<rparr>)"
  let ?s1 = "s\<lparr>sv_heap := (sv_heap s)(Heap a \<mapsto> ?i)\<rparr>"
  let ?s2 = "?s1\<lparr>sv_heap := (sv_heap ?s1)(Heap a := None)\<rparr>"
  have "release_request (Heap a) ?s1 = Done ?s2"
    by (simp add: release_request_def release_obj_def)
  moreover have "cleanup (sv_requests ?s2) ?s2 \<noteq> Done res" for res
    by (rule cleanup_deleted[of _ "Heap a"]) (use assms(2) in simp_all)
  then have "\<forall>res. serve_cleanup ?s2 \<noteq> Done res" by (auto simp: serve_cleanup_def result_bind_eq_Done)
  moreover have "hi_completed (ri_http ?i)" by (simp add: http_complete_def http_upd_def)
  ultimately show ?thesis using completed_act[OF r, of ndebug pre wsi lws]
    by (intro exI[of _ ?s1] exI[of _ ?i] exI[of _ ?s2]) simp
qed

theorem sync_request_race_witness:
  "\<exists>s1 i s2. service_act False 16 (Call P_http (Some (Heap 1)) 3 (completed_event lws_ok)) serving
       = Done ([Cancel_service], s1)
     \<and> sv_heap s1 (Heap 1) = Some i \<and> hi_completed (ri_http i)
     \<and> release_request (Heap 1) s1 = Done s2 \<and> (\<forall>res. serve_cleanup s2 \<noteq> Done res)"
  by (rule sync_request_race[OF serving_inv]) (simp add: serving_def)

text \<open>
  C36: an asynchronous request whose object is on the heap is released as soon as its response is
  complete; the event with which libwebsockets later destroys the connection then goes to a
  deleted object.
\<close>

theorem late_event_after_release:
  assumes "service_inv s used pend" and "Heap a \<in> set (sv_requests s)"
    and "sv_heap s (Heap a) = Some r" and "ri_type r = Http" and "hi_callback (ri_http r) = Some c"
    and "\<forall>ob \<in> set (sv_requests s). answerable (sv_heap s) ob"
    and "CHR 0x00 \<in> set (hi_content_type (ri_http r))"
  shows "\<exists>s1 effs s2. service_act ndebug pre (Call P_http (Some (Heap a)) wsi (completed_event lws)) s
       = Done ([Cancel_service], s1)
     \<and> serve_cleanup s1 = Done (effs, s2)
     \<and> service_act ndebug pre (Call P_http (Some (Heap a)) wsi (lws', Wsi_destroy, None, 0)) s2 = Out_of_bounds"
proof -
  let ?i = "http_complete (r\<lparr>ri_wsi := None\<rparr>)"
  let ?s1 = "s\<lparr>sv_heap := (sv_heap s)(Heap a \<mapsto> ?i)\<rparr>"
  have act: "service_act ndebug pre (Call P_http (Some (Heap a)) wsi (completed_event lws)) s
      = Done ([Cancel_service], ?s1)"
    by (rule completed_act[OF assms(3)])
  have "Heap a \<in> used" using assms(1,2) by (auto simp: service_inv_def)
  then have inv1: "service_inv ?s1 used pend"
    using service_act_inv[OF assms(1) _ act] by (simp add: completed_event_def)
  have "answerable (sv_heap ?s1) ob" if "ob \<in> set (sv_requests ?s1)" for ob
    using that assms(6,7) by (auto simp: answerable_def http_complete_def http_upd_def)
  then obtain effs t where t: "serve_cleanup ?s1 = Done (effs, t)"
    "\<forall>ob. sv_heap t ob = (if ob \<in> set (sv_requests ?s1) then disposed (sv_heap ?s1) ob else sv_heap ?s1 ob)"
    using serve_cleanup_Done[OF inv1] by blast
  have "freed (sv_heap ?s1) (Heap a)"
    using assms(4,5) by (simp add: freed_def http_complete_def http_upd_def)
  then have "sv_heap t (Heap a) = None" using t(2) assms(2) by (simp add: disposed_def)
  then show ?thesis using act t(1) by (intro exI[of _ ?s1] exI[of _ effs] exI[of _ t]) simp
qed

theorem late_event_after_release_witness:
  "\<exists>s1 effs s2. service_act False 16 (Call P_http (Some (Heap 1)) 3 (completed_event lws_ok)) serving
       = Done ([Cancel_service], s1)
     \<and> serve_cleanup s1 = Done (effs, s2)
     \<and> service_act False 16 (Call P_http (Some (Heap 1)) 3 (lws_ok, Wsi_destroy, None, 0)) s2 = Out_of_bounds"
  by (rule late_event_after_release[OF serving_inv])
    (auto simp: serving_def async_request_def request_info_new_def answerable_def)

end
