(* ===== verification/Http_Client.thy ===== *)
theory Http_Client
  imports Service_Facts
begin

text \<open>
  \<open>http_client\<close> of src/http_client.cpp: the constructor and the three forms of \<open>request\<close>. A
  client and its service are values side by side; the object obtained from the service is
  filled in and pushed, and the synchronous form waits for \<open>completed\<close> while the service
  thread, given by a schedule, does its iterations.
\<close>

section \<open>State\<close>

record http_client =
  hc_address :: string
  hc_origin :: string
  hc_port :: "16 word"

definition http_client_new :: "string \<Rightarrow> string \<Rightarrow> cpp_exn + http_client" where
  "http_client_new address origin = try_bind (http_endpoint address)
     (\<lambda>(a, p). Inr \<lparr>hc_address = a, hc_origin = origin, hc_port = p\<rparr>)"

text \<open>
  The destructor deletes a service of its own: what \<open>service_\<close> is afterwards, \<open>None\<close> for null, and
  what is left of the service that was deleted.
\<close>

definition http_client_destroy :: "service option \<Rightarrow> service option \<times> service option" where
  "http_client_destroy service = (case service of
     None \<Rightarrow> (None, None)
   | Some s \<Rightarrow> if sv_global s then (Some s, None) else (None, Some (service_destroy s)))"

section \<open>Filling in the request\<close>

definition http_cci ::
  "http_client \<Rightarrow> string option \<Rightarrow> string \<Rightarrow> string \<Rightarrow> obj \<Rightarrow> connect_info"
where
  "http_cci hc origin method path ob = connect_info_zero\<lparr>
     ci_port := scast (hc_port hc), ci_address := Some (hc_address hc),
     ci_host := Some (hc_address hc), ci_origin := origin, ci_alpn := Some ''http/1.1'',
     ci_path := Some path, ci_pwsi := Some ob, ci_userdata := Some ob,
     ci_protocol := Some ''http'', ci_method := Some method, ci_ssl := (hc_port hc = 443)\<rparr>"

definition http_fill ::
  "http_client \<Rightarrow> string option \<Rightarrow> string \<Rightarrow> string \<Rightarrow> http_request option \<Rightarrow> nat option \<Rightarrow> obj \<Rightarrow>
   request_info \<Rightarrow> request_info"
where
  "http_fill hc origin method path request callback ob r = r\<lparr>
     ri_path := path, ri_cci := http_cci hc origin method path ob,
     ri_http := (ri_http r)\<lparr>hi_request := request, hi_callback := callback\<rparr>\<rparr>"

definition http_unavailable :: http_response where
  "http_unavailable = http_response_new 500 [] ''Failed to create lws_context''"

section \<open>Asynchronous requests\<close>

text \<open>
  The two asynchronous forms; they take the address for the origin. \<open>callback\<close> names the user's
  function.
\<close>

definition http_request_async ::
  "http_client \<Rightarrow> string \<Rightarrow> string \<Rightarrow> http_request option \<Rightarrow> nat \<Rightarrow> obj option \<Rightarrow> byte list \<times> string \<Rightarrow>
   service \<Rightarrow> (effect list \<times> service) result"
where
  "http_request_async hc method path request callback alloc mem s =
     result_bind (get_request_info Http alloc mem s) (\<lambda>(r, s).
       case r of
         None \<Rightarrow> Done ([Responded callback http_unavailable], s)
       | Some ob \<Rightarrow>
           result_bind (with_obj ob (http_fill hc (Some (hc_address hc)) method path request (Some callback) ob) s)
             (service_request ob))"

definition http_request_callback ::
  "http_client \<Rightarrow> string \<Rightarrow> string \<Rightarrow> nat \<Rightarrow> obj option \<Rightarrow> byte list \<times> string \<Rightarrow>
   service \<Rightarrow> (effect list \<times> service) result"
where
  "http_request_callback hc method path callback alloc mem s =
     result_bind (get_request_info Http alloc mem s) (\<lambda>(r, s).
       case r of
         None \<Rightarrow> Done ([Responded callback http_unavailable], s)
       | Some ob \<Rightarrow> result_bind (with_obj ob (\<lambda>i. i\<lparr>ri_type := Http\<rparr>) s) (\<lambda>s.
           result_bind (with_obj ob (http_fill hc (Some (hc_address hc)) method path None (Some callback) ob) s)
             (service_request ob)))"

section \<open>Synchronous requests\<close>

definition awaited :: "obj \<Rightarrow> service \<Rightarrow> bool" where
  "awaited ob s = (case sv_heap s ob of None \<Rightarrow> False | Some r \<Rightarrow> \<not> hi_completed (ri_http r))"

definition http_request_sync ::
  "http_client \<Rightarrow> string \<Rightarrow> string \<Rightarrow> http_request option \<Rightarrow> obj option \<Rightarrow> byte list \<times> string \<Rightarrow>
   service schedule \<Rightarrow> service \<Rightarrow> (http_response \<times> service \<times> service schedule) result"
where
  "http_request_sync hc method path request alloc mem sched s =
     result_bind (get_request_info Http alloc mem s) (\<lambda>(r, s).
       case r of
         None \<Rightarrow> Done (http_unavailable, s, sched)
       | Some ob \<Rightarrow>
           let origin = (if hc_origin hc \<noteq> [] then Some (hc_origin hc) else None) in
           result_bind (with_obj ob (http_fill hc origin method path request None ob) s) (\<lambda>s.
           result_bind (service_request ob s) (\<lambda>(_, s).
           result_bind (spin_while (awaited ob) sched s) (\<lambda>(s, sched).
             case sv_heap s ob of
               None \<Rightarrow> Out_of_bounds
             | Some r \<Rightarrow> result_bind (http_result (ri_http r)) (\<lambda>response.
                 result_bind (release_request ob s) (\<lambda>s. Done (response, s, sched)))))))"

text \<open>The service thread as a schedule: what an iteration leaves, where it returns.\<close>

definition service_turn :: "bool \<Rightarrow> nat \<Rightarrow> lws_act list \<Rightarrow> lws_act list \<Rightarrow> service \<Rightarrow> service" where
  "service_turn ndebug pre acts1 acts2 s =
     (case serve_iteration ndebug pre acts1 acts2 s of Done (_, t) \<Rightarrow> t | _ \<Rightarrow> s)"

section \<open>What a request leaves in the queue\<close>

lemma http_fill_simps [simp]:
  "ri_type (http_fill hc origin method path request callback ob r) = ri_type r"
  "ri_wsi (http_fill hc origin method path request callback ob r) = ri_wsi r"
  "hi_request (ri_http (http_fill hc origin method path request callback ob r)) = request"
  "hi_callback (ri_http (http_fill hc origin method path request callback ob r)) = callback"
  "hi_response (ri_http (http_fill hc origin method path request callback ob r)) = hi_response (ri_http r)"
  "hi_completed (ri_http (http_fill hc origin method path request callback ob r)) = hi_completed (ri_http r)"
  "hi_content_type (ri_http (http_fill hc origin method path request callback ob r)) = hi_content_type (ri_http r)"
  "ri_socket (http_fill hc origin method path request callback ob r) = ri_socket r"
  "ri_cci (http_fill hc origin method path request callback ob r) = http_cci hc origin method path ob"
  "ri_path (http_fill hc origin method path request callback ob r) = path"
  by (simp_all add: http_fill_def)

text \<open>Obtain, fill in, push: the common part of every request of every client.\<close>

lemma submit_Done:
  assumes inv: "service_inv s used pend" and al: "alloc_ok alloc used" and ctx: "sv_context s"
    and mem: "length (fst mem) = 8192" and room: "rb_room (sv_queue s, sv_cursor s)"
    and got: "get_request_info type alloc mem s = Done (Some ob, s1)"
  shows "\<exists>i s2 t. newly_made i \<and> ob \<notin> used
     \<and> with_obj ob f s1 = Done s2 \<and> service_request ob s2 = Done ([Cancel_service], t)
     \<and> service_inv t (insert ob used) (pend @ [ob]) \<and> sv_heap t ob = Some (f (i\<lparr>ri_type := type\<rparr>))
     \<and> (\<forall>x. x \<noteq> ob \<longrightarrow> sv_heap t x = sv_heap s x) \<and> sv_requests t = sv_requests s \<and> sv_context t
     \<and> sv_run t = sv_run s"
proof -
  from get_request_info_Done[OF inv al ctx mem, of type] got
  have s1: "ob \<notin> used" "service_inv s1 (insert ob used) pend" "sv_requests s1 = sv_requests s"
    "sv_queue s1 = sv_queue s" "sv_cursor s1 = sv_cursor s" "sv_context s1" "sv_run s1 = sv_run s"
    "\<exists>i. newly_made i \<and> sv_heap s1 ob = Some (i\<lparr>ri_type := type\<rparr>)"
    "\<forall>x. x \<noteq> ob \<longrightarrow> sv_heap s1 x = sv_heap s x" by auto
  then obtain i where i: "newly_made i" "sv_heap s1 ob = Some (i\<lparr>ri_type := type\<rparr>)" by blast
  let ?s2 = "s1\<lparr>sv_heap := (sv_heap s1)(ob \<mapsto> f (i\<lparr>ri_type := type\<rparr>))\<rparr>"
  have s2: "with_obj ob f s1 = Done ?s2" "service_inv ?s2 (insert ob used) pend"
    using with_obj_inv[OF s1(2), of ob f] i(2) by auto
  have "ob \<notin> set (pend @ sv_requests ?s2)" using inv s1(1,3) by (auto simp: service_inv_def)
  from service_request_Done[OF s2(2) _ this] room s1(4,5) obtain t where
    "service_request ob ?s2 = Done ([Cancel_service], t)" "service_inv t (insert ob used) (pend @ [ob])"
    "sv_heap t = sv_heap ?s2" "sv_requests t = sv_requests ?s2" "sv_context t = sv_context ?s2" "sv_run t = sv_run ?s2" by auto
  then show ?thesis using i(1) s1 s2(1)
    by (intro exI[of _ i] exI[of _ ?s2] exI[of _ t]) simp
qed

section \<open>The answer of the service\<close>

text \<open>
  An iteration in which libwebsockets connects the oldest request \<open>ob\<close> and receives its complete
  response.
\<close>

definition answer_acts :: "obj \<Rightarrow> nat \<Rightarrow> lws_api \<Rightarrow> string list \<Rightarrow> lws_act list" where
  "answer_acts ob wsi lws cs = map (Call P_http (Some ob) wsi)
     ([(lws, Established_client_http, None, 0)] @ chunk_events lws cs @ [completed_event lws])"

lemma service_acts_http_run:
  assumes "sv_heap s ob = Some r" "http_run ndebug wsi evs r = Done (effs, r')"
  shows "service_acts ndebug pre (map (Call P_http (Some ob) wsi) evs) s
    = Done (effs, s\<lparr>sv_heap := (sv_heap s)(ob \<mapsto> r')\<rparr>)"
  using assms
proof (induction evs arbitrary: s r effs)
  case Nil
  then show ?case by (simp add: fun_upd_idem)
next
  case (Cons e evs)
  obtain lws reason inp len where e: "e = (lws, reason, inp, len)" by (cases e) auto
  obtain ret e1 r1 e2 where r1: "http_callback ndebug lws wsi reason inp len r = Done (ret, e1, r1)"
    "http_run ndebug wsi evs r1 = Done (e2, r')" "effs = e1 @ e2"
    using Cons.prems(2) e by (auto simp: result_bind_eq_Done)
  have "service_acts ndebug pre (map (Call P_http (Some ob) wsi) evs) (s\<lparr>sv_heap := (sv_heap s)(ob \<mapsto> r1)\<rparr>)
      = Done (e2, s\<lparr>sv_heap := (sv_heap s)(ob \<mapsto> r')\<rparr>)"
    using Cons.IH[of "s\<lparr>sv_heap := (sv_heap s)(ob \<mapsto> r1)\<rparr>" r1 e2] r1(2)
    by (simp del: fun_upd_apply add: fun_upd_same)
  then show ?case using Cons.prems(1) e r1
    by (simp add: protocol_callback_def del: fun_upd_apply)
qed

lemma http_run_answer:
  assumes "la_hdr_length lws < 512" and "\<forall>c \<in> set cs. length c < 2 ^ 64"
    and "la_hdr_copy lws (hi_content_type (ri_http r)) = ct @ [CHR 0x00] @ rest"
    and "CHR 0x00 \<notin> set ct"
  shows "\<exists>t. http_run ndebug wsi
       ([(lws, Established_client_http, None, 0)] @ chunk_events lws cs @ [completed_event lws]) r
       = Done ([Cancel_service], t)
     \<and> ri_wsi t = None \<and> hi_completed (ri_http t) \<and> ri_type t = ri_type r
     \<and> hi_callback (ri_http t) = hi_callback (ri_http r)
     \<and> CHR 0x00 \<in> set (hi_content_type (ri_http t))
     \<and> http_result (ri_http t) =
         Done (http_response_new (la_status lws) ct (hi_response (ri_http r) @ concat cs))"
  using assms
  by (simp add: http_callback_def http_established_def http_run_chunks http_result_def completed_event_def
      c_string_terminated http_complete_def respond_text_def http_upd_def)

text \<open>
  The iteration answers the oldest request and lets go of it: where it is asynchronous its callback
  is told the response and the object is released, else the object keeps the response.
\<close>

lemma iteration_answers:
  assumes inv: "service_inv s used (ob # obs)" and idle: "sv_requests s = []"
    and r: "sv_heap s ob = Some r" "ri_type r = Http"
    and lws: "la_hdr_length lws < 512" "\<forall>c \<in> set cs. length c < 2 ^ 64"
      "\<forall>old. \<exists>rest. la_hdr_copy lws old = ct @ [CHR 0x00] @ rest" "CHR 0x00 \<notin> set ct"
  defines "resp \<equiv> http_response_new (la_status lws) ct (hi_response (ri_http r) @ concat cs)"
  shows "\<exists>t. serve_iteration ndebug pre [Set_wsi ob (Some wsi)] (answer_acts ob wsi lws cs) s = Done
       (Connecting ((ri_cci r)\<lparr>ci_context := sv_context s\<rparr>) # Cancel_service
          # (case hi_callback (ri_http r) of None \<Rightarrow> [] | Some c \<Rightarrow> [Responded c resp]), t)
     \<and> service_inv t (if hi_callback (ri_http r) = None then used else used - {ob}) obs
     \<and> sv_requests t = [] \<and> (\<forall>x. x \<noteq> ob \<longrightarrow> sv_heap t x = sv_heap s x)
     \<and> (if hi_callback (ri_http r) = None
        then \<exists>i. sv_heap t ob = Some i \<and> hi_completed (ri_http i) \<and> http_result (ri_http i) = Done resp
        else True)"
proof -
  let ?acts = "answer_acts ob wsi lws cs"
  from serve_connect_front[OF inv, of ndebug pre "[Set_wsi ob (Some wsi)]"] obtain r0 m where
    m: "sv_heap s ob = Some r0" "service_inv m used obs" "sv_requests m = [ob]"
    "sv_heap m = (sv_heap s)(ob \<mapsto> r0\<lparr>ri_cci := (ri_cci r0)\<lparr>ci_context := sv_context s\<rparr>, ri_service := True\<rparr>)"
    "serve_connect ndebug pre [Set_wsi ob (Some wsi)] s =
       result_bind (service_acts ndebug pre [Set_wsi ob (Some wsi)] m) (\<lambda>(effs, t).
         Done ((case sv_heap m ob of None \<Rightarrow> [] | Some r \<Rightarrow> [Connecting (ri_cci r)]) @ effs, t))"
    using idle by auto
  let ?i = "r\<lparr>ri_cci := (ri_cci r)\<lparr>ci_context := sv_context s\<rparr>, ri_service := True, ri_wsi := Some wsi\<rparr>"
  let ?m = "m\<lparr>sv_heap := (sv_heap m)(ob \<mapsto> ?i)\<rparr>"
  have "r0 = r" using m(1) r(1) by simp
  then have c: "serve_connect ndebug pre [Set_wsi ob (Some wsi)] s
      = Done ([Connecting ((ri_cci r)\<lparr>ci_context := sv_context s\<rparr>)], ?m)"
    using m(4,5) by (simp add: with_obj_def)
  have ob: "ob \<in> used" using inv by (simp add: service_inv_def)
  obtain rest where copy: "la_hdr_copy lws (hi_content_type (ri_http ?i)) = ct @ [CHR 0x00] @ rest"
    using lws(3) by blast
  from http_run_answer[OF lws(1,2) copy lws(4), of ndebug wsi] obtain i where
    i: "http_run ndebug wsi ([(lws, Established_client_http, None, 0)] @ chunk_events lws cs @ [completed_event lws]) ?i
      = Done ([Cancel_service], i)" "ri_wsi i = None" "hi_completed (ri_http i)" "ri_type i = Http"
    "hi_callback (ri_http i) = hi_callback (ri_http r)" "CHR 0x00 \<in> set (hi_content_type (ri_http i))"
    "http_result (ri_http i) = Done resp"
    using r(2) by (auto simp: resp_def)
  let ?n = "?m\<lparr>sv_heap := (sv_heap ?m)(ob \<mapsto> i)\<rparr>"
  have a: "service_acts ndebug pre ?acts ?m = Done ([Cancel_service], ?n)"
    unfolding answer_acts_def by (rule service_acts_http_run[OF _ i(1)]) simp
  have n: "sv_heap ?n ob = Some i" "sv_requests ?n = [ob]" "\<And>x. x \<noteq> ob \<Longrightarrow> sv_heap ?n x = sv_heap s x"
    using m(3,4) by simp_all
  have ok1: "\<forall>a \<in> set [Set_wsi ob (Some wsi)]. act_ok used a" using ob by simp
  have ok2: "\<forall>a \<in> set ?acts. act_ok used a" using ob by (auto simp: answer_acts_def)
  have ans: "\<forall>x \<in> set (sv_requests ?n). answerable (sv_heap ?n) x"
    using n i(6) by (simp add: answerable_def)
  have busy: "sv_requests ?m \<noteq> []" using m(3) by simp
  from iteration_Done[OF inv ok1 c ok2 a ans busy] obtain t where
    t: "serve_iteration ndebug pre [Set_wsi ob (Some wsi)] ?acts s = Done
        ([Connecting ((ri_cci r)\<lparr>ci_context := sv_context s\<rparr>)] @ [Cancel_service]
           @ concat (map (reply (sv_heap ?n)) (sv_requests ?n)), t)"
    "service_inv t (used - {x \<in> set (sv_requests ?n). freed (sv_heap ?n) x}) (tl (ob # obs))"
    "sv_requests t = filter (stays (sv_heap ?n)) (sv_requests ?n)"
    "\<forall>x. sv_heap t x = (if x \<in> set (sv_requests ?n) then disposed (sv_heap ?n) x else sv_heap ?n x)"
    by blast
  have gone: "\<not> stays (sv_heap ?n) ob" using n(1) i(2,4) by (simp add: stays_def)
  have others: "\<forall>x. x \<noteq> ob \<longrightarrow> sv_heap t x = sv_heap s x" using t(4) n(2,3) by simp
  have req: "sv_requests t = []" using t(3) gone unfolding n(2) by simp
  show ?thesis
  proof (cases "hi_callback (ri_http r)")
    case None
    then have st: "\<not> freed (sv_heap ?n) ob" "reply (sv_heap ?n) ob = []"
      "disposed (sv_heap ?n) ob = Some (http_complete i)"
      using n(1) i(2,4,5) by (simp_all add: freed_def reply_def disposed_def)
    then have none: "{x \<in> set (sv_requests ?n). freed (sv_heap ?n) x} = {}" using n(2) by auto
    have "sv_heap t ob = Some (http_complete i)" using t(4) n(2) st(3) by simp
    moreover have "hi_completed (ri_http (http_complete i))"
      "http_result (ri_http (http_complete i)) = http_result (ri_http i)"
      by (simp_all add: http_complete_def http_upd_def http_result_def)
    ultimately show ?thesis using t(1) t(2)[unfolded none] n(2) st(2) others req i(7) None
      by (intro exI[of _ t]) simp
  next
    case (Some c)
    then have st: "freed (sv_heap ?n) ob" "reply (sv_heap ?n) ob = [Responded c resp]"
      using n(1) i(2,4,5,7) by (simp_all add: freed_def reply_def)
    then have one: "{x \<in> set (sv_requests ?n). freed (sv_heap ?n) x} = {ob}" using n(2) by auto
    show ?thesis using t(1) t(2)[unfolded one] n(2) st(2) others req Some
      by (intro exI[of _ t]) simp
  qed
qed

lemma service_turn_answers:
  assumes inv: "service_inv s used [ob]" and idle: "sv_requests s = []"
    and r: "sv_heap s ob = Some r" "ri_type r = Http" "hi_callback (ri_http r) = None"
    and lws: "la_hdr_length lws < 512" "\<forall>c \<in> set cs. length c < 2 ^ 64"
      "\<forall>old. \<exists>rest. la_hdr_copy lws old = ct @ [CHR 0x00] @ rest" "CHR 0x00 \<notin> set ct"
  shows "\<exists>i. service_inv (service_turn ndebug pre [Set_wsi ob (Some wsi)] (answer_acts ob wsi lws cs) s) used []
     \<and> sv_requests (service_turn ndebug pre [Set_wsi ob (Some wsi)] (answer_acts ob wsi lws cs) s) = []
     \<and> sv_heap (service_turn ndebug pre [Set_wsi ob (Some wsi)] (answer_acts ob wsi lws cs) s) ob = Some i
     \<and> hi_completed (ri_http i)
     \<and> http_result (ri_http i) = Done (http_response_new (la_status lws) ct (hi_response (ri_http r) @ concat cs))"
  using iteration_answers[OF inv idle r(1,2) lws, of ndebug pre wsi] r(3) by (auto simp: service_turn_def)

section \<open>Properties\<close>

text \<open>
  C1: a synchronous request returns the response: on an idle service whose thread makes one
  iteration in which the connection answers with a status, a content type and a body in
  chunks, the call ends with exactly that status, that content type and the whole body, and
  the object is back in the pool.
\<close>

theorem sync_request_returns_response:
  assumes "service_inv s used []" and "sv_requests s = []" and "sv_context s"
    and "alloc_ok alloc used" and "length (fst mem) = 8192" and "rb_room (sv_queue s, sv_cursor s)"
    and "get_request_info Http alloc mem s = Done (Some ob, s1)"
    and "la_hdr_length lws < 512" and "\<forall>c \<in> set cs. length c < 2 ^ 64"
    and "\<forall>old. \<exists>rest. la_hdr_copy lws old = ct @ [CHR 0x00] @ rest" and "CHR 0x00 \<notin> set ct"
  shows "\<exists>t. http_request_sync hc method path request alloc mem
       [service_turn ndebug pre [Set_wsi ob (Some wsi)] (answer_acts ob wsi lws cs)] s
       = Done (http_response_new (la_status lws) ct (concat cs), t, [])
     \<and> service_inv t used [] \<and> sv_requests t = []"
proof -
  let ?origin = "if hc_origin hc \<noteq> [] then Some (hc_origin hc) else None"
  let ?f = "http_fill hc ?origin method path request None ob"
  let ?turn = "service_turn ndebug pre [Set_wsi ob (Some wsi)] (answer_acts ob wsi lws cs)"
  from submit_Done[OF assms(1,4,3,5,6,7), of ?f] obtain i s2 t0 where
    i: "newly_made i" and new: "ob \<notin> used" and s2: "with_obj ob ?f s1 = Done s2"
    and t0: "service_request ob s2 = Done ([Cancel_service], t0)" "service_inv t0 (insert ob used) [ob]"
      "sv_heap t0 ob = Some (?f (i\<lparr>ri_type := Http\<rparr>))" "sv_requests t0 = []"
    using assms(2) by auto
  let ?r = "?f (i\<lparr>ri_type := Http\<rparr>)"
  have fresh: "hi_response (ri_http ?r) = []" "\<not> hi_completed (ri_http ?r)"
    using i by (auto simp: newly_made_def request_info_new_def)
  from service_turn_answers[OF t0(2,4,3) _ _ assms(8-11), of ndebug pre wsi] obtain j where
    j: "service_inv (?turn t0) (insert ob used) []" "sv_requests (?turn t0) = []"
    "sv_heap (?turn t0) ob = Some j" "hi_completed (ri_http j)"
    "http_result (ri_http j) = Done (http_response_new (la_status lws) ct (concat cs))"
    using fresh(1) by auto
  have "spin_while (awaited ob) [?turn] t0 = Done (?turn t0, [])"
    using t0(3) fresh(2) j(3,4) by (simp add: awaited_def)
  moreover have "pool_inv (sv_pool (?turn t0)) (insert ob used)" using j(1) by (simp add: service_inv_def)
  from release_request_Done[OF this, of ob] obtain t where
    t: "release_request ob (?turn t0) = Done t" "sv_requests t = []"
    using j(2) by auto
  moreover have "service_inv t (insert ob used - {ob}) []"
    using release_inv[OF j(1) _ _ t(1)] j(2) by simp
  then have "service_inv t used []" using new by simp
  ultimately show ?thesis
    using assms(7) s2 t0(1) j(3,5) by (intro exI[of _ t]) (simp add: http_request_sync_def Let_def)
qed

definition some_client :: http_client where
  "some_client = \<lparr>hc_address = ''example.com'', hc_origin = [], hc_port = 443\<rparr>"

lemma small_service_facts:
  "sv_requests small_service = []" "sv_context small_service"
  "rb_room (sv_queue small_service, sv_cursor small_service)" "alloc_ok None {}"
  by (simp_all add: small_service_def service_new_def rb_room_def rb_new_def alloc_ok_def)

lemma small_service_get: "\<exists>s1. get_request_info type None zeros small_service = Done (Some (Pooled 0), s1)"
proof -
  have ck: "get_check (sv_pool small_service)"
    by (simp add: small_service_def service_new_def pool_new_def get_check_def)
  have pool: "pool_inv (sv_pool small_service) {}" using small_service_inv by (simp add: service_inv_def)
  have "unat (op_read (sv_pool small_service)) = 0"
    by (simp add: small_service_def service_new_def pool_new_def)
  then have g: "\<exists>q. get_obj None (sv_pool small_service) = Done (Some (Pooled 0), q)"
    using pool_get_checked(1)[OF pool ck, of None] by auto
  have "sv_heap small_service (Pooled 0) \<noteq> None" by (simp add: small_service_def service_new_def)
  then show ?thesis using g small_service_facts(2) by (auto simp: get_request_info_def with_obj_def Let_def)
qed

theorem sync_request_returns_response_witness:
  "\<exists>t. http_request_sync some_client ''GET'' ''/time'' None None zeros
       [service_turn False 16 [Set_wsi (Pooled 0) (Some 3)] (answer_acts (Pooled 0) 3 lws_ok [''12'', '':30''])]
       small_service
       = Done (http_response_new (la_status lws_ok) ''text'' (concat [''12'', '':30'']), t, [])
     \<and> service_inv t {} [] \<and> sv_requests t = []"
proof -
  obtain s1 where s1: "get_request_info Http None zeros small_service = Done (Some (Pooled 0), s1)"
    using small_service_get by blast
  show ?thesis
    by (rule sync_request_returns_response[OF small_service_inv small_service_facts(1,2,4) zeros_size(1)
          small_service_facts(3) s1]) (auto simp: lws_ok_def)
qed

text \<open>
  Without an lws context every form of \<open>request\<close> reports status 500 and leaves the service
  as it was; nothing is queued.
\<close>

theorem request_without_context:
  assumes "\<not> sv_context s"
  shows "http_request_sync hc method path request alloc mem sched s = Done (http_unavailable, s, sched)
     \<and> http_request_async hc method path request c alloc mem s = Done ([Responded c http_unavailable], s)
     \<and> http_request_callback hc method path c alloc mem s = Done ([Responded c http_unavailable], s)
     \<and> hp_status http_unavailable = 500"
  using assms
  by (simp add: http_request_sync_def http_request_async_def http_request_callback_def
      get_request_info_def http_unavailable_def http_response_new_def)

theorem request_without_context_witness:
  "http_request_sync some_client ''GET'' ''/'' None None zeros [] (small_service\<lparr>sv_context := False\<rparr>)
       = Done (http_unavailable, small_service\<lparr>sv_context := False\<rparr>, [])
     \<and> http_request_async some_client ''GET'' ''/'' None 8 None zeros (small_service\<lparr>sv_context := False\<rparr>)
       = Done ([Responded 8 http_unavailable], small_service\<lparr>sv_context := False\<rparr>)
     \<and> http_request_callback some_client ''GET'' ''/'' 8 None zeros (small_service\<lparr>sv_context := False\<rparr>)
       = Done ([Responded 8 http_unavailable], small_service\<lparr>sv_context := False\<rparr>)
     \<and> hp_status http_unavailable = 500"
  by (rule request_without_context) simp

text \<open>
  An asynchronous request queues one new object, filled in for the client's address and port
  with TLS exactly on port 443, which carries the request and the callback; but its origin is
  the address, whatever origin the client was made with.
\<close>

theorem async_request_queued:
  assumes "service_inv s used pend" and "alloc_ok alloc used" and "sv_context s"
    and "length (fst mem) = 8192" and "rb_room (sv_queue s, sv_cursor s)"
    and "get_request_info Http alloc mem s = Done (Some ob, s1)"
  shows "\<exists>t r. http_request_async hc method path request c alloc mem s = Done ([Cancel_service], t)
     \<and> service_inv t (insert ob used) (pend @ [ob]) \<and> ob \<notin> used
     \<and> sv_heap t ob = Some r \<and> ri_type r = Http \<and> ri_wsi r = None
     \<and> hi_request (ri_http r) = request \<and> hi_callback (ri_http r) = Some c
     \<and> \<not> hi_completed (ri_http r) \<and> hi_response (ri_http r) = []
     \<and> ci_port (ri_cci r) = scast (hc_port hc) \<and> ci_address (ri_cci r) = Some (hc_address hc)
     \<and> ci_path (ri_cci r) = Some path \<and> ci_method (ri_cci r) = Some method
     \<and> ci_ssl (ri_cci r) = (hc_port hc = 443) \<and> ci_userdata (ri_cci r) = Some ob
     \<and> ci_origin (ri_cci r) = Some (hc_address hc)"
proof -
  let ?f = "http_fill hc (Some (hc_address hc)) method path request (Some c) ob"
  from submit_Done[OF assms(1,2,3,4,5,6), of ?f] obtain i s2 t where
    i: "newly_made i" and new: "ob \<notin> used" and s2: "with_obj ob ?f s1 = Done s2"
    and t: "service_request ob s2 = Done ([Cancel_service], t)" "service_inv t (insert ob used) (pend @ [ob])"
      "sv_heap t ob = Some (?f (i\<lparr>ri_type := Http\<rparr>))" by auto
  have "ri_wsi i = None" "hi_response (ri_http i) = []" "\<not> hi_completed (ri_http i)"
    using i by (auto simp: newly_made_def request_info_new_def)
  then show ?thesis using assms(6) new s2 t
    by (intro exI[of _ t] exI[of _ "?f (i\<lparr>ri_type := Http\<rparr>)"])
      (simp add: http_request_async_def http_cci_def)
qed

theorem async_request_queued_witness:
  "\<exists>t r. http_request_async some_client ''GET'' ''/time'' None 8 None zeros small_service = Done ([Cancel_service], t)
     \<and> service_inv t (insert (Pooled 0) {}) ([] @ [Pooled 0]) \<and> Pooled 0 \<notin> {}
     \<and> sv_heap t (Pooled 0) = Some r \<and> ri_type r = Http \<and> ri_wsi r = None
     \<and> hi_request (ri_http r) = None \<and> hi_callback (ri_http r) = Some 8
     \<and> \<not> hi_completed (ri_http r) \<and> hi_response (ri_http r) = []
     \<and> ci_port (ri_cci r) = scast (hc_port some_client) \<and> ci_address (ri_cci r) = Some (hc_address some_client)
     \<and> ci_path (ri_cci r) = Some ''/time'' \<and> ci_method (ri_cci r) = Some ''GET''
     \<and> ci_ssl (ri_cci r) = (hc_port some_client = 443) \<and> ci_userdata (ri_cci r) = Some (Pooled 0)
     \<and> ci_origin (ri_cci r) = Some (hc_address some_client)"
proof -
  obtain s1 where s1: "get_request_info Http None zeros small_service = Done (Some (Pooled 0), s1)"
    using small_service_get by blast
  show ?thesis
    by (rule async_request_queued[OF small_service_inv small_service_facts(4,2) zeros_size(1)
          small_service_facts(3) s1])
qed

end
