(* ===== verification/Socket_Clients.thy ===== *)
theory Socket_Clients
  imports Http_Client
begin

text \<open>
  \<open>websocket_client\<close> (src/websocket_client.cpp) and \<open>socket_client\<close> (src/socket_client.cpp) on top of
  the service: \<open>connect\<close>, \<open>send\<close>, \<open>stop\<close> and the destructors. A client keeps a pointer to its
  request object, which the service releases when it has been shut down. The client's pointer to
  its service is \<open>None\<close> where it is null.
\<close>

section \<open>State\<close>

record websocket_client =
  wc_callback :: "nat option"
  wc_request :: "obj option"
  wc_url :: string
  wc_address :: string
  wc_origin :: string
  wc_path :: string
  wc_port :: "16 word"

definition websocket_client_new :: "nat option \<Rightarrow> string \<Rightarrow> string \<Rightarrow> cpp_exn + websocket_client" where
  "websocket_client_new callback url origin = try_bind (ws_endpoint url)
     (\<lambda>(address, path, port). Inr \<lparr>wc_callback = callback, wc_request = None, wc_url = url,
        wc_address = address, wc_origin = origin, wc_path = path, wc_port = port\<rparr>)"

record socket_client =
  sc_callback :: "nat option"
  sc_request :: "obj option"
  sc_port :: u32
  sc_address :: string

definition socket_client_new :: "nat option \<Rightarrow> string \<Rightarrow> u32 \<Rightarrow> socket_client" where
  "socket_client_new callback address port =
     \<lparr>sc_callback = callback, sc_request = None, sc_port = port, sc_address = address\<rparr>"

text \<open>A change of an object that may fail.\<close>

definition with_obj_try ::
  "obj \<Rightarrow> (request_info \<Rightarrow> ('a \<times> request_info) result) \<Rightarrow> service \<Rightarrow> ('a \<times> service) result"
where
  "with_obj_try ob f s = (case sv_heap s ob of
     None \<Rightarrow> Out_of_bounds
   | Some r \<Rightarrow> result_bind (f r) (\<lambda>(x, r). Done (x, s\<lparr>sv_heap := (sv_heap s)(ob \<mapsto> r)\<rparr>)))"

definition set_shutdown :: "bool \<Rightarrow> request_info \<Rightarrow> request_info" where
  "set_shutdown b = socket_upd (\<lambda>i. i\<lparr>si_shutdown := b\<rparr>)"

section \<open>websocket_client\<close>

definition ws_cci :: "websocket_client \<Rightarrow> obj \<Rightarrow> connect_info" where
  "ws_cci wc ob = connect_info_zero\<lparr>
     ci_port := scast (wc_port wc), ci_address := Some (wc_address wc), ci_host := Some (wc_address wc),
     ci_origin := (if wc_origin wc \<noteq> [] then Some (wc_origin wc) else None),
     ci_path := Some (wc_path wc), ci_protocol := Some ''ws'', ci_pwsi := Some ob,
     ci_userdata := Some ob, ci_ssl := (wc_port wc = 443)\<rparr>"

definition ws_fill :: "websocket_client \<Rightarrow> obj \<Rightarrow> request_info \<Rightarrow> (unit \<times> request_info) result" where
  "ws_fill wc ob r =
     (let r = socket_upd (\<lambda>i. i\<lparr>si_callback := wc_callback wc\<rparr>) (r\<lparr>ri_type := Ws, ri_cci := ws_cci wc ob\<rparr>)
      in result_bind (ring_reset (req_ring r)) (\<lambda>q. Done ((), set_shutdown False (set_ring q r))))"

definition ws_connect ::
  "obj option \<Rightarrow> byte list \<times> string \<Rightarrow> websocket_client \<Rightarrow> service \<Rightarrow>
   (bool \<times> effect list \<times> websocket_client \<times> service) result"
where
  "ws_connect alloc mem wc s =
     result_bind (case wc_request wc of None \<Rightarrow> Done s | Some ob \<Rightarrow> with_obj ob (set_shutdown True) s) (\<lambda>s.
     result_bind (get_request_info Ws alloc mem s) (\<lambda>(r, s).
       let wc = wc\<lparr>wc_request := r\<rparr> in
       case r of
         None \<Rightarrow> Done (False, [], wc, s)
       | Some ob \<Rightarrow> result_bind (with_obj_try ob (ws_fill wc ob) s) (\<lambda>(_, s).
           result_bind (service_request ob s) (\<lambda>(effs, s). Done (True, effs, wc, s)))))"

definition ws_stop ::
  "websocket_client \<Rightarrow> service option \<Rightarrow> (effect list \<times> websocket_client \<times> service option) result"
where
  "ws_stop wc service = (case wc_request wc of
     None \<Rightarrow> Done ([], wc, service)
   | Some ob \<Rightarrow> (case service of
       None \<Rightarrow> Out_of_bounds
     | Some s \<Rightarrow> result_bind (with_obj_try ob (\<lambda>r. Done (ri_wsi r, set_shutdown True r)) s) (\<lambda>(w, s).
         Done ((case w of None \<Rightarrow> [] | Some wsi \<Rightarrow> [Want_write wsi]) @ service_wakeup s,
               wc\<lparr>wc_request := None\<rparr>, Some s))))"

definition ws_client_send ::
  "bool \<Rightarrow> nat \<Rightarrow> byte list \<Rightarrow> websocket_client \<Rightarrow> service \<Rightarrow> (bool \<times> effect list \<times> service) result"
where
  "ws_client_send ndebug pre msg wc s = (case wc_request wc of
     None \<Rightarrow> Done (False, [], s)
   | Some ob \<Rightarrow> result_bind (with_obj_try ob (\<lambda>r. result_bind (ws_send ndebug pre msg r)
         (\<lambda>(b, effs, r). Done ((b, effs), r))) s) (\<lambda>((b, effs), s). Done (b, effs, s)))"

text \<open>The destructor deletes a service of its own first and calls \<open>stop\<close> afterwards.\<close>

definition ws_client_destroy ::
  "websocket_client \<Rightarrow> service option \<Rightarrow> (effect list \<times> websocket_client \<times> service option) result"
where
  "ws_client_destroy wc service =
     ws_stop wc (case service of None \<Rightarrow> None | Some s \<Rightarrow> if sv_global s then Some s else None)"

section \<open>socket_client\<close>

definition socket_cci :: "socket_client \<Rightarrow> obj \<Rightarrow> connect_info" where
  "socket_cci sc ob = connect_info_zero\<lparr>
     ci_port := sc_port sc, ci_address := Some (sc_address sc), ci_host := Some (sc_address sc),
     ci_origin := Some (sc_address sc), ci_protocol := Some ''raw_socket'', ci_pwsi := Some ob,
     ci_method := Some ''RAW'', ci_userdata := Some ob\<rparr>"

definition socket_fill :: "socket_client \<Rightarrow> obj \<Rightarrow> request_info \<Rightarrow> (unit \<times> request_info) result" where
  "socket_fill sc ob r =
     (let r = socket_upd (\<lambda>i. i\<lparr>si_callback := sc_callback sc\<rparr>) (r\<lparr>ri_cci := socket_cci sc ob\<rparr>)
      in result_bind (ring_reset (req_ring r)) (\<lambda>q. Done ((), set_shutdown False (set_ring q r))))"

definition socket_connect ::
  "obj option \<Rightarrow> byte list \<times> string \<Rightarrow> socket_client \<Rightarrow> service \<Rightarrow>
   (bool \<times> effect list \<times> socket_client \<times> service) result"
where
  "socket_connect alloc mem sc s =
     (if sc_request sc \<noteq> None then Done (True, [], sc, s)
      else result_bind (get_request_info Socket alloc mem s) (\<lambda>(r, s).
        let sc = sc\<lparr>sc_request := r\<rparr> in
        case r of
          None \<Rightarrow> Done (False, [], sc, s)
        | Some ob \<Rightarrow> result_bind (with_obj_try ob (socket_fill sc ob) s) (\<lambda>(_, s).
            result_bind (service_request ob s) (\<lambda>(effs, s). Done (True, effs, sc, s)))))"

definition socket_stop :: "socket_client \<Rightarrow> service \<Rightarrow> (socket_client \<times> service) result" where
  "socket_stop sc s = (case sc_request sc of
     None \<Rightarrow> Done (sc, s)
   | Some ob \<Rightarrow> result_bind (with_obj ob (set_shutdown True) s) (\<lambda>s. Done (sc\<lparr>sc_request := None\<rparr>, s)))"

definition socket_client_send ::
  "bool \<Rightarrow> byte list \<Rightarrow> socket_client \<Rightarrow> service \<Rightarrow> (bool \<times> effect list \<times> service) result"
where
  "socket_client_send ndebug msg sc s = (case sc_request sc of
     None \<Rightarrow> Done (False, [], s)
   | Some ob \<Rightarrow> result_bind (with_obj_try ob (\<lambda>r. result_bind (socket_send ndebug msg r)
         (\<lambda>(b, effs, r). Done ((b, effs), r))) s) (\<lambda>((b, effs), s). Done (b, effs, s)))"

definition socket_client_destroy ::
  "socket_client \<Rightarrow> service option \<Rightarrow> (socket_client \<times> service option) result"
where
  "socket_client_destroy sc service = (case service of
     None \<Rightarrow> (if sc_request sc = None then Done (sc, None) else Out_of_bounds)
   | Some s \<Rightarrow> result_bind (socket_stop sc s) (\<lambda>(sc, s).
       Done (sc, if sv_global s then Some s else None)))"

section \<open>Connecting\<close>

lemma set_shutdown_simps [simp]:
  "ri_type (set_shutdown b r) = ri_type r" "ri_wsi (set_shutdown b r) = ri_wsi r"
  "ri_cci (set_shutdown b r) = ri_cci r" "ri_http (set_shutdown b r) = ri_http r"
  "si_shutdown (ri_socket (set_shutdown b r)) = b"
  "si_callback (ri_socket (set_shutdown b r)) = si_callback (ri_socket r)"
  "si_invoked (ri_socket (set_shutdown b r)) = si_invoked (ri_socket r)"
  "req_ring (set_shutdown b r) = req_ring r"
  by (simp_all add: set_shutdown_def socket_upd_def)

lemma newly_made_ring: "newly_made r \<Longrightarrow> fifo_inv (req_ring r) [] None"
  by (auto simp: newly_made_def request_info_new_def is_pow2_def intro!: new_ring_inv)

lemma reset_size: "rs_size (reset_leave (reset_enter s)) = rs_size s"
  by (simp add: reset_leave_def reset_enter_def Let_def)

text \<open>A new object filled in for a websocket or a raw connection.\<close>

lemma fill_Done:
  assumes "newly_made i"
  shows "\<exists>q. ws_fill wc ob (i\<lparr>ri_type := t\<rparr>) = Done ((), set_shutdown False (set_ring q
         (socket_upd (\<lambda>x. x\<lparr>si_callback := wc_callback wc\<rparr>) (i\<lparr>ri_type := Ws, ri_cci := ws_cci wc ob\<rparr>))))
     \<and> fifo_inv q [] None \<and> rs_size q = 8192"
    and "\<exists>q. socket_fill sc ob (i\<lparr>ri_type := t\<rparr>) = Done ((), set_shutdown False (set_ring q
         (socket_upd (\<lambda>x. x\<lparr>si_callback := sc_callback sc\<rparr>) (i\<lparr>ri_type := t, ri_cci := socket_cci sc ob\<rparr>))))
     \<and> fifo_inv q [] None \<and> rs_size q = 8192"
proof -
  let ?q = "reset_leave (reset_enter (req_ring i))"
  have q: "ring_reset (req_ring i) = Done ?q" "fifo_inv ?q [] None" "rs_size ?q = 8192"
    using reset_Done[OF newly_made_ring[OF assms]] assms
    by (auto simp: ring_reset_def reset_size newly_made_def request_info_new_def string_ring_new_def)
  then show "\<exists>q. ws_fill wc ob (i\<lparr>ri_type := t\<rparr>) = Done ((), set_shutdown False (set_ring q
         (socket_upd (\<lambda>x. x\<lparr>si_callback := wc_callback wc\<rparr>) (i\<lparr>ri_type := Ws, ri_cci := ws_cci wc ob\<rparr>))))
     \<and> fifo_inv q [] None \<and> rs_size q = 8192"
    by (intro exI[of _ ?q]) (simp add: ws_fill_def socket_upd_def)
  from q show "\<exists>q. socket_fill sc ob (i\<lparr>ri_type := t\<rparr>) = Done ((), set_shutdown False (set_ring q
         (socket_upd (\<lambda>x. x\<lparr>si_callback := sc_callback sc\<rparr>) (i\<lparr>ri_type := t, ri_cci := socket_cci sc ob\<rparr>))))
     \<and> fifo_inv q [] None \<and> rs_size q = 8192"
    by (intro exI[of _ ?q]) (simp add: socket_fill_def socket_upd_def)
qed

lemma with_obj_try_Done:
  "sv_heap s ob = Some r \<Longrightarrow> f r = Done (x, r') \<Longrightarrow>
   with_obj_try ob f s = Done (x, s\<lparr>sv_heap := (sv_heap s)(ob \<mapsto> r')\<rparr>)"
  by (simp add: with_obj_try_def)

lemma with_obj_Done:
  "sv_heap s ob = Some r \<Longrightarrow> with_obj ob f s = Done (s\<lparr>sv_heap := (sv_heap s)(ob \<mapsto> f r)\<rparr>)"
  by (simp add: with_obj_def)

text \<open>A request that is ready for a connection.\<close>

definition prepared :: "request_type \<Rightarrow> nat option \<Rightarrow> request_info \<Rightarrow> bool" where
  "prepared type cb r \<longleftrightarrow> ri_type r = type \<and> \<not> si_shutdown (ri_socket r) \<and> ri_wsi r = None
     \<and> fifo_inv (req_ring r) [] None \<and> rs_size (req_ring r) = 8192 \<and> si_callback (ri_socket r) = cb \<and> \<not> si_invoked (ri_socket r)"

lemma ws_connect_Done:
  assumes inv: "service_inv s used pend" and al: "alloc_ok alloc used" and ctx: "sv_context s"
    and mem: "length (fst mem) = 8192" and room: "rb_room (sv_queue s, sv_cursor s)"
    and got: "get_request_info Ws alloc mem s = Done (Some ob, s1)" and none: "wc_request wc = None"
  shows "\<exists>t r. ws_connect alloc mem wc s = Done (True, [Cancel_service], wc\<lparr>wc_request := Some ob\<rparr>, t)
     \<and> service_inv t (insert ob used) (pend @ [ob]) \<and> ob \<notin> used \<and> sv_requests t = sv_requests s
     \<and> sv_heap t ob = Some r \<and> prepared Ws (wc_callback wc) r \<and> ri_cci r = ws_cci wc ob"
proof -
  from submit_Done[OF inv al ctx mem room got, of "\<lambda>r. r"] obtain i where
    i: "newly_made i" "ob \<notin> used" by blast
  let ?wc = "wc\<lparr>wc_request := Some ob\<rparr>"
  from get_request_info_Done[OF inv al ctx mem, of Ws] got obtain j where
    j: "newly_made j" "sv_heap s1 ob = Some (j\<lparr>ri_type := Ws\<rparr>)" by auto
  from fill_Done(1)[OF j(1), of ?wc ob Ws] obtain q where
    q: "ws_fill ?wc ob (j\<lparr>ri_type := Ws\<rparr>) = Done ((), set_shutdown False (set_ring q
         (socket_upd (\<lambda>x. x\<lparr>si_callback := wc_callback ?wc\<rparr>) (j\<lparr>ri_type := Ws, ri_cci := ws_cci ?wc ob\<rparr>))))"
    "fifo_inv q [] None" "rs_size q = 8192" by blast
  let ?r = "set_shutdown False (set_ring q (socket_upd (\<lambda>x. x\<lparr>si_callback := wc_callback ?wc\<rparr>)
         (j\<lparr>ri_type := Ws, ri_cci := ws_cci ?wc ob\<rparr>)))"
  from submit_Done[OF inv al ctx mem room got, of "\<lambda>_. ?r"] obtain s2 t where
    s2: "with_obj ob (\<lambda>_. ?r) s1 = Done s2" "service_request ob s2 = Done ([Cancel_service], t)"
    "service_inv t (insert ob used) (pend @ [ob])" "sv_heap t ob = Some ?r" "sv_requests t = sv_requests s" by auto
  have "with_obj_try ob (ws_fill ?wc ob) s1 = Done ((), s2)"
    using with_obj_try_Done[where f = "ws_fill ?wc ob", OF j(2) q(1)] with_obj_Done[OF j(2), of "\<lambda>_. ?r"] s2(1)
    by simp
  then have "ws_connect alloc mem wc s = Done (True, [Cancel_service], ?wc, t)"
    using none got s2(2) by (simp add: ws_connect_def Let_def)
  moreover have "prepared Ws (wc_callback wc) ?r" "ri_cci ?r = ws_cci wc ob"
    using q(2,3) j(1) by (auto simp: prepared_def newly_made_def request_info_new_def socket_upd_def
        set_ring_def ws_cci_def)
  ultimately show ?thesis using s2 i(2) by blast
qed

lemma socket_connect_Done:
  assumes inv: "service_inv s used pend" and al: "alloc_ok alloc used" and ctx: "sv_context s"
    and mem: "length (fst mem) = 8192" and room: "rb_room (sv_queue s, sv_cursor s)"
    and got: "get_request_info Socket alloc mem s = Done (Some ob, s1)" and none: "sc_request sc = None"
  shows "\<exists>t r. socket_connect alloc mem sc s = Done (True, [Cancel_service], sc\<lparr>sc_request := Some ob\<rparr>, t)
     \<and> service_inv t (insert ob used) (pend @ [ob]) \<and> ob \<notin> used \<and> sv_requests t = sv_requests s
     \<and> sv_heap t ob = Some r \<and> prepared Socket (sc_callback sc) r \<and> ri_cci r = socket_cci sc ob"
proof -
  from submit_Done[OF inv al ctx mem room got, of "\<lambda>r. r"] obtain i where
    i: "newly_made i" "ob \<notin> used" by blast
  let ?sc = "sc\<lparr>sc_request := Some ob\<rparr>"
  from get_request_info_Done[OF inv al ctx mem, of Socket] got obtain j where
    j: "newly_made j" "sv_heap s1 ob = Some (j\<lparr>ri_type := Socket\<rparr>)" by auto
  from fill_Done(2)[OF j(1), of ?sc ob Socket] obtain q where
    q: "socket_fill ?sc ob (j\<lparr>ri_type := Socket\<rparr>) = Done ((), set_shutdown False (set_ring q
         (socket_upd (\<lambda>x. x\<lparr>si_callback := sc_callback ?sc\<rparr>) (j\<lparr>ri_type := Socket, ri_cci := socket_cci ?sc ob\<rparr>))))"
    "fifo_inv q [] None" "rs_size q = 8192" by blast
  let ?r = "set_shutdown False (set_ring q (socket_upd (\<lambda>x. x\<lparr>si_callback := sc_callback ?sc\<rparr>)
         (j\<lparr>ri_type := Socket, ri_cci := socket_cci ?sc ob\<rparr>)))"
  from submit_Done[OF inv al ctx mem room got, of "\<lambda>_. ?r"] obtain s2 t where
    s2: "with_obj ob (\<lambda>_. ?r) s1 = Done s2" "service_request ob s2 = Done ([Cancel_service], t)"
    "service_inv t (insert ob used) (pend @ [ob])" "sv_heap t ob = Some ?r" "sv_requests t = sv_requests s" by auto
  have "with_obj_try ob (socket_fill ?sc ob) s1 = Done ((), s2)"
    using with_obj_try_Done[where f = "socket_fill ?sc ob", OF j(2) q(1)] with_obj_Done[OF j(2), of "\<lambda>_. ?r"] s2(1)
    by simp
  then have "socket_connect alloc mem sc s = Done (True, [Cancel_service], ?sc, t)"
    using none got s2(2) by (simp add: socket_connect_def Let_def)
  moreover have "prepared Socket (sc_callback sc) ?r" "ri_cci ?r = socket_cci sc ob"
    using q(2,3) j(1) by (auto simp: prepared_def newly_made_def request_info_new_def socket_upd_def
        set_ring_def socket_cci_def)
  ultimately show ?thesis using s2 i(2) by blast
qed

section \<open>Being served\<close>

lemma service_acts_conn_run:
  assumes "sv_heap s ob = Some r"
    and "conn_run (\<lambda>lws. protocol_callback ndebug pre p lws wsi) evs r = Done (effs, r')"
  shows "service_acts ndebug pre (map (Call p (Some ob) wsi) evs) s
    = Done (effs, s\<lparr>sv_heap := (sv_heap s)(ob \<mapsto> r')\<rparr>)"
  using assms
proof (induction evs arbitrary: s r effs)
  case Nil
  then show ?case by (simp add: fun_upd_idem)
next
  case (Cons e evs)
  obtain lws reason inp len where e: "e = (lws, reason, inp, len)" by (cases e) auto
  obtain ret e1 r1 e2 where r1: "protocol_callback ndebug pre p lws wsi reason inp len r = Done (ret, e1, r1)"
    "conn_run (\<lambda>lws. protocol_callback ndebug pre p lws wsi) evs r1 = Done (e2, r')" "effs = e1 @ e2"
    using Cons.prems(2) e by (auto simp: result_bind_eq_Done)
  have "service_acts ndebug pre (map (Call p (Some ob) wsi) evs) (s\<lparr>sv_heap := (sv_heap s)(ob \<mapsto> r1)\<rparr>)
      = Done (e2, s\<lparr>sv_heap := (sv_heap s)(ob \<mapsto> r')\<rparr>)"
    using Cons.IH[of "s\<lparr>sv_heap := (sv_heap s)(ob \<mapsto> r1)\<rparr>" r1 e2] r1(2)
    by (simp del: fun_upd_apply add: fun_upd_same)
  then show ?case using Cons.prems(1) e r1 by (simp del: fun_upd_apply)
qed

text \<open>
  One iteration on a service with one queued socket request: it is connected as \<open>wsi\<close>, its events
  run, and as its connection lives on, it stays.
\<close>

lemma iteration_serves:
  assumes inv: "service_inv s used [ob]" and idle: "sv_requests s = []"
    and r: "sv_heap s ob = Some r"
    and run: "conn_run (\<lambda>lws. protocol_callback ndebug pre p lws wsi) evs
      (r\<lparr>ri_cci := (ri_cci r)\<lparr>ci_context := sv_context s\<rparr>, ri_service := True, ri_wsi := Some wsi\<rparr>)
      = Done (effs, r')"
    and alive: "ri_wsi r' \<noteq> None"
  shows "\<exists>t. serve_iteration ndebug pre [Set_wsi ob (Some wsi)] (map (Call p (Some ob) wsi) evs) s
       = Done (Connecting ((ri_cci r)\<lparr>ci_context := sv_context s\<rparr>) # effs, t)
     \<and> service_inv t used [] \<and> sv_requests t = [ob] \<and> sv_heap t ob = Some r'"
proof -
  let ?acts = "map (Call p (Some ob) wsi) evs"
  from serve_connect_front[OF inv, of ndebug pre "[Set_wsi ob (Some wsi)]"] obtain r0 m where
    m: "sv_heap s ob = Some r0" "service_inv m used []" "sv_requests m = [ob]"
    "sv_heap m = (sv_heap s)(ob \<mapsto> r0\<lparr>ri_cci := (ri_cci r0)\<lparr>ci_context := sv_context s\<rparr>, ri_service := True\<rparr>)"
    "serve_connect ndebug pre [Set_wsi ob (Some wsi)] s =
       result_bind (service_acts ndebug pre [Set_wsi ob (Some wsi)] m) (\<lambda>(effs, t).
         Done ((case sv_heap m ob of None \<Rightarrow> [] | Some r \<Rightarrow> [Connecting (ri_cci r)]) @ effs, t))"
    using idle by auto
  let ?i = "r\<lparr>ri_cci := (ri_cci r)\<lparr>ci_context := sv_context s\<rparr>, ri_service := True, ri_wsi := Some wsi\<rparr>"
  let ?m = "m\<lparr>sv_heap := (sv_heap m)(ob \<mapsto> ?i)\<rparr>" and ?cci = "(ri_cci r)\<lparr>ci_context := sv_context s\<rparr>"
  have "r0 = r" using m(1) r by simp
  then have c: "serve_connect ndebug pre [Set_wsi ob (Some wsi)] s = Done ([Connecting ?cci], ?m)"
    using m(4,5) by (simp add: with_obj_def)
  have ob: "ob \<in> used" using inv by (simp add: service_inv_def)
  let ?n = "?m\<lparr>sv_heap := (sv_heap ?m)(ob \<mapsto> r')\<rparr>"
  have a: "service_acts ndebug pre ?acts ?m = Done (effs, ?n)"
    by (rule service_acts_conn_run[OF _ run]) simp
  have n: "sv_heap ?n ob = Some r'" "sv_requests ?n = [ob]" using m(3) by simp_all
  have ok1: "\<forall>a \<in> set [Set_wsi ob (Some wsi)]. act_ok used a" using ob by simp
  have ok2: "\<forall>a \<in> set ?acts. act_ok used a" using ob by auto
  obtain w where w: "ri_wsi r' = Some w" using alive by auto
  have ans: "\<forall>x \<in> set (sv_requests ?n). answerable (sv_heap ?n) x"
    using n w by (simp add: answerable_def)
  have busy: "sv_requests ?m \<noteq> []" using m(3) by simp
  have st: "stays (sv_heap ?n) ob" "\<not> freed (sv_heap ?n) ob" "reply (sv_heap ?n) ob = []"
    "disposed (sv_heap ?n) ob = Some r'"
    using n(1) w by (simp_all add: stays_def freed_def reply_def disposed_def)
  have none: "{x \<in> set (sv_requests ?n). freed (sv_heap ?n) x} = {}" using n(2) st(2) by auto
  from iteration_Done[OF inv ok1 c ok2 a ans busy] obtain t where
    "serve_iteration ndebug pre [Set_wsi ob (Some wsi)] ?acts s
      = Done ([Connecting ?cci] @ effs @ concat (map (reply (sv_heap ?n)) (sv_requests ?n)), t)"
    "service_inv t (used - {x \<in> set (sv_requests ?n). freed (sv_heap ?n) x}) (tl [ob])"
    "sv_requests t = filter (stays (sv_heap ?n)) (sv_requests ?n)"
    "sv_heap t ob = (if ob \<in> set (sv_requests ?n) then disposed (sv_heap ?n) ob else sv_heap ?n ob)"
    by (elim exE conjE) (rule that, auto)
  moreover have "used - {x \<in> set (sv_requests ?n). freed (sv_heap ?n) x} = used"
    unfolding none by simp
  ultimately show ?thesis using st n(2) by (intro exI[of _ t]) (simp only: set_simps list.map
    filter.simps concat.simps append.simps append_Nil2 insertI1 if_True if_False list.sel)
qed

section \<open>Properties\<close>

text \<open>
  A websocket client that connects is served: on an idle service the connection is asked for
  with the client's address, port and path, with TLS exactly on port 443, its user is told that
  it is connected, and the object is a live connection with an empty buffer that has room for
  every message of less than \<open>8192 - 5\<close> bytes with its header.
\<close>

theorem ws_connect_established:
  assumes "service_inv s used []" and "sv_requests s = []" and "sv_context s"
    and "alloc_ok alloc used" and "length (fst mem) = 8192" and "rb_room (sv_queue s, sv_cursor s)"
    and "get_request_info Ws alloc mem s = Done (Some ob, s1)"
    and "wc_request wc = None" and "wc_callback wc = Some c"
  shows "\<exists>wc' t u r. ws_connect alloc mem wc s = Done (True, [Cancel_service], wc', t)
     \<and> wc_request wc' = Some ob
     \<and> serve_iteration ndebug pre [Set_wsi ob (Some wsi)]
          [Call P_ws (Some ob) wsi (lws, Client_established, None, 0)] t
        = Done ([Connecting ((ws_cci wc ob)\<lparr>ci_context := sv_context t\<rparr>), Connected c], u)
     \<and> service_inv u (insert ob used) [] \<and> sv_requests u = [ob]
     \<and> sv_heap u ob = Some r \<and> ws_live pre wsi r [] \<and> si_callback (ri_socket r) = Some c
     \<and> room (req_ring r) 8186"
proof -
  let ?wc = "wc\<lparr>wc_request := Some ob\<rparr>"
  from ws_connect_Done[OF assms(1,4,3,5,6,7,8)] obtain t r where
    t: "ws_connect alloc mem wc s = Done (True, [Cancel_service], ?wc, t)"
    "service_inv t (insert ob used) [ob]" "sv_requests t = []" "sv_heap t ob = Some r"
    "prepared Ws (wc_callback wc) r" "ri_cci r = ws_cci wc ob" using assms(2) by auto
  let ?i = "r\<lparr>ri_cci := (ri_cci r)\<lparr>ci_context := sv_context t\<rparr>, ri_service := True, ri_wsi := Some wsi\<rparr>"
  let ?q = "reset_leave (reset_enter (req_ring r))"
  let ?r = "socket_upd (\<lambda>i. i\<lparr>si_invoked := False\<rparr>) (set_ring ?q ?i)"
  have p: "ri_type r = Ws" "\<not> si_shutdown (ri_socket r)" "fifo_inv (req_ring r) [] None"
    "rs_size (req_ring r) = 8192" "si_callback (ri_socket r) = Some c"
    using t(5) assms(9) by (simp_all add: prepared_def)
  have q: "ring_reset (req_ring r) = Done ?q" "fifo_inv ?q [] None"
    using reset_Done[OF p(3)] by (simp_all add: ring_reset_def)
  have "conn_run (\<lambda>lws. protocol_callback ndebug pre P_ws lws wsi) [(lws, Client_established, None, 0)] ?i
      = Done ([Connected c], ?r)"
    using p q by (simp add: protocol_callback_def ws_callback_def ws_established_def tell_user_def user_call_def)
  from iteration_serves[OF t(2,3,4) this] obtain u where
    u: "serve_iteration ndebug pre [Set_wsi ob (Some wsi)]
          [Call P_ws (Some ob) wsi (lws, Client_established, None, 0)] t
        = Done ([Connecting ((ri_cci r)\<lparr>ci_context := sv_context t\<rparr>), Connected c], u)"
    "service_inv u (insert ob used) []" "sv_requests u = [ob]" "sv_heap u ob = Some ?r"
    by (auto simp: set_ring_def socket_upd_def)
  have "ws_live pre wsi ?r []" "si_callback (ri_socket ?r) = Some c" "room (req_ring ?r) 8186"
    using p q reset_room[OF p(3), of 8186]
    by (simp_all add: ws_live_def set_ring_def socket_upd_def messages_def List.map_filter_def)
  then show ?thesis using t(1,6) u
    by (intro exI[of _ ?wc] exI[of _ t] exI[of _ u] exI[of _ ?r]) simp
qed

definition some_ws_client :: websocket_client where
  "some_ws_client = \<lparr>wc_callback = Some 9, wc_request = None, wc_url = ''ws://localhost/'',
     wc_address = ''localhost'', wc_origin = [], wc_path = ''/'', wc_port = 80\<rparr>"

theorem ws_connect_established_witness:
  "\<exists>wc' t u r. ws_connect None zeros some_ws_client small_service = Done (True, [Cancel_service], wc', t)
     \<and> wc_request wc' = Some (Pooled 0)
     \<and> serve_iteration False 16 [Set_wsi (Pooled 0) (Some 3)]
          [Call P_ws (Some (Pooled 0)) 3 (lws_ok, Client_established, None, 0)] t
        = Done ([Connecting ((ws_cci some_ws_client (Pooled 0))\<lparr>ci_context := sv_context t\<rparr>), Connected 9], u)
     \<and> service_inv u (insert (Pooled 0) {}) [] \<and> sv_requests u = [Pooled 0]
     \<and> sv_heap u (Pooled 0) = Some r \<and> ws_live 16 3 r [] \<and> si_callback (ri_socket r) = Some 9
     \<and> room (req_ring r) 8186"
proof -
  obtain s1 where s1: "get_request_info Ws None zeros small_service = Done (Some (Pooled 0), s1)"
    using small_service_get by blast
  show ?thesis
    by (rule ws_connect_established[OF small_service_inv small_service_facts(1,2,4) zeros_size(1)
          small_service_facts(3) s1]) (simp_all add: some_ws_client_def)
qed

end
