(* ===== verification/Client_Lifecycle.thy ===== *)
theory Client_Lifecycle
  imports Socket_Clients
begin

text \<open>
  The clients over several iterations of the service: a message from \<open>send\<close> to \<open>lws_write\<close>, what
  \<open>stop\<close> does and does not do, and the order of the steps in the destructors
  (src/websocket_client.cpp, src/socket_client.cpp, src/socket_service.cpp).
\<close>

section \<open>Iterations on a single connection\<close>

lemma serve_connect_idle:
  assumes "service_inv s used []"
  shows "serve_connect ndebug pre acts s = Done ([], s)"
  using request_queue.pop_empty_law[of "(sv_queue s, sv_cursor s)"] assms
  by (simp add: serve_connect_def service_inv_def Let_def)

text \<open>The events of the connection run; afterwards it stays unless it is closed and shut down.\<close>

lemma iteration_single:
  assumes inv: "service_inv s used []" and one: "sv_requests s = [ob]" and r: "sv_heap s ob = Some r"
    and run: "conn_run (\<lambda>lws. protocol_callback ndebug pre p lws wsi) evs r = Done (effs, r')"
    and type: "ri_type r' \<noteq> Http"
  shows "\<exists>t. serve_iteration ndebug pre acts (map (Call p (Some ob) wsi) evs) s = Done (effs, t)
     \<and> (if ri_wsi r' = None \<and> si_shutdown (ri_socket r')
         then service_inv t (used - {ob}) [] \<and> sv_requests t = []
         else service_inv t used [] \<and> sv_requests t = [ob] \<and> sv_heap t ob = Some r')"
proof -
  let ?acts = "map (Call p (Some ob) wsi) evs" and ?n = "s\<lparr>sv_heap := (sv_heap s)(ob \<mapsto> r')\<rparr>"
  have ob: "ob \<in> used" using inv one by (simp add: service_inv_def)
  have c: "serve_connect ndebug pre [] s = Done ([], s)" and c': "serve_connect ndebug pre acts s = Done ([], s)"
    by (rule serve_connect_idle[OF inv])+
  have a: "service_acts ndebug pre ?acts s = Done (effs, ?n)" by (rule service_acts_conn_run[OF r run])
  have ok: "\<forall>a \<in> set ?acts. act_ok used a" using ob by auto
  have n: "sv_heap ?n ob = Some r'" "sv_requests ?n = [ob]" using one by simp_all
  have ans: "\<forall>x \<in> set (sv_requests ?n). answerable (sv_heap ?n) x"
    using n type by (auto simp: answerable_def)
  have busy: "sv_requests s \<noteq> []" using one by simp
  have ok0: "\<forall>a \<in> set []. act_ok used a" by simp
  from iteration_Done[OF inv ok0 c ok a ans busy] obtain t where
    t: "serve_iteration ndebug pre [] ?acts s
      = Done ([] @ effs @ concat (map (reply (sv_heap ?n)) (sv_requests ?n)), t)"
    "service_inv t (used - {x \<in> set (sv_requests ?n). freed (sv_heap ?n) x}) (tl [])"
    "sv_requests t = filter (stays (sv_heap ?n)) (sv_requests ?n)"
    "sv_heap t ob = (if ob \<in> set (sv_requests ?n) then disposed (sv_heap ?n) ob else sv_heap ?n ob)"
    by (elim exE conjE) (rule that, auto)
  have same: "serve_iteration ndebug pre acts ?acts s = serve_iteration ndebug pre [] ?acts s"
    using c c' by (simp add: serve_iteration_def)
  have reply: "reply (sv_heap ?n) ob = []" using n(1) type by (simp add: reply_def)
  show ?thesis
  proof (cases "ri_wsi r' = None \<and> si_shutdown (ri_socket r')")
    case True
    then have "freed (sv_heap ?n) ob" "\<not> stays (sv_heap ?n) ob"
      using n(1) type by (simp_all add: freed_def stays_def)
    moreover from this(1) have "{x \<in> set (sv_requests ?n). freed (sv_heap ?n) x} = {ob}"
      using n(2) by auto
    ultimately show ?thesis using t(1-3) n(2) reply True same
      by (intro exI[of _ t]) (simp del: fun_upd_apply)
  next
    case False
    then have st: "\<not> freed (sv_heap ?n) ob" "stays (sv_heap ?n) ob" "disposed (sv_heap ?n) ob = Some r'"
      using n(1) type by (auto simp: freed_def stays_def disposed_def)
    from st(1) have "{x \<in> set (sv_requests ?n). freed (sv_heap ?n) x} = {}" using n(2) by auto
    then have e: "used - {x \<in> set (sv_requests ?n). freed (sv_heap ?n) x} = used" by (simp only: Diff_empty)
    show ?thesis using t(1,3,4) t(2)[unfolded e] n(2) reply st same False
      by (intro exI[of _ t]) (simp del: fun_upd_apply)
  qed
qed

text \<open>A run of writeable events is a session without sends.\<close>

lemma conn_run_writeables:
  "conn_run cb (replicate n (lws, reason, inp, len)) r
    = channel_run send (\<lambda>lws. cb lws reason inp len) (replicate n (Writeable lws)) r"
  by (induction n arbitrary: r) auto

lemma protocol_callback_simps [simp]:
  "protocol_callback ndebug pre P_ws = ws_callback pre"
  "protocol_callback ndebug pre P_http = http_callback ndebug"
  "protocol_callback ndebug pre P_raw = raw_socket_callback"
  by (simp_all add: protocol_callback_def)

text \<open>No operation turns a service into a global one.\<close>

lemma with_obj_global:
  "with_obj ob f s = Done t \<Longrightarrow> sv_global t = sv_global s"
  "with_obj_try ob g s = Done (x, t) \<Longrightarrow> sv_global t = sv_global s"
  by (auto simp: with_obj_def with_obj_try_def result_bind_eq_Done split: option.splits)

lemma get_request_global:
  assumes "get_request_info type alloc mem s = Done (r, t)"
  shows "sv_global t = sv_global s"
proof (cases "sv_context s")
  case True
  then obtain x p where x: "get_obj alloc (sv_pool s) = Done (x, p)"
    using assms by (auto simp: get_request_info_def result_bind_eq_Done Let_def)
  show ?thesis
  proof (cases x)
    case None
    then show ?thesis using assms True x by (auto simp: get_request_info_def)
  next
    case (Some ob)
    then show ?thesis using assms True x
      by (cases ob) (auto simp: get_request_info_def result_bind_eq_Done Let_def dest!: with_obj_global(1))
  qed
qed (use assms in \<open>simp add: get_request_info_def\<close>)

lemma service_request_global: "service_request ob s = Done (effs, t) \<Longrightarrow> sv_global t = sv_global s"
  by (auto simp: service_request_def result_bind_eq_Done)

lemma ws_connect_global:
  assumes "ws_connect alloc mem wc s = Done (b, effs, wc', t)"
  shows "sv_global t = sv_global s"
proof -
  obtain s1 r s2 where "(case wc_request wc of None \<Rightarrow> Done s | Some ob \<Rightarrow> with_obj ob (set_shutdown True) s) = Done s1"
    "get_request_info Ws alloc mem s1 = Done (r, s2)"
    and k: "(case r of None \<Rightarrow> Done (False, [], wc\<lparr>wc_request := r\<rparr>, s2)
       | Some ob \<Rightarrow> result_bind (with_obj_try ob (ws_fill (wc\<lparr>wc_request := r\<rparr>) ob) s2) (\<lambda>(_, s).
           result_bind (service_request ob s) (\<lambda>(effs, s). Done (True, effs, wc\<lparr>wc_request := r\<rparr>, s))))
       = Done (b, effs, wc', t)"
    using assms by (auto simp: ws_connect_def result_bind_eq_Done Let_def)
  then have "sv_global s2 = sv_global s"
    by (auto dest: with_obj_global(1) get_request_global split: option.splits)
  then show ?thesis using k
    by (auto simp: result_bind_eq_Done dest!: with_obj_global(2) service_request_global split: option.splits)
qed

section \<open>A raw client after stop\<close>

text \<open>\<open>raw_socket_callback\<close> never looks at \<open>shutdown\<close>.\<close>

lemma raw_callback_shutdown:
  "raw_socket_callback lws wsi reason inp len (set_shutdown b r)
    = result_bind (raw_socket_callback lws wsi reason inp len r)
        (\<lambda>(ret, effs, t). Done (ret, effs, set_shutdown b t))"
proof -
  have u: "set_shutdown b x\<lparr>ri_wsi := None\<rparr> = set_shutdown b (x\<lparr>ri_wsi := None\<rparr>)"
    "set_ring s (set_shutdown b x) = set_shutdown b (set_ring s x)"
    "socket_upd (\<lambda>i. i\<lparr>si_invoked := c\<rparr>) (set_shutdown b x)
       = set_shutdown b (socket_upd (\<lambda>i. i\<lparr>si_invoked := c\<rparr>) x)" for s x c
    by (cases r; cases x; simp add: set_shutdown_def set_ring_def socket_upd_def)+
  show ?thesis
    by (cases reason)
      (auto simp: raw_socket_callback_def raw_connected_def raw_writeable_def raw_closed_def
        raw_destroyed_def tell_user_def result_bind_assoc u Let_def split_beta
        intro!: result_bind_cong split: option.splits)
qed

lemma raw_acts_shutdown:
  assumes "sv_heap s ob = Some r" "sv_heap t ob = Some (set_shutdown b r)"
  shows "result_bind (service_acts ndebug pre (map (Call P_raw (Some ob) wsi) evs) t) (\<lambda>(effs, _). Done effs)
    = result_bind (service_acts ndebug pre (map (Call P_raw (Some ob) wsi) evs) s) (\<lambda>(effs, _). Done effs)"
  using assms
proof (induction evs arbitrary: s t r)
  case Nil
  then show ?case by simp
next
  case (Cons e evs)
  obtain lws reason inp len where e: "e = (lws, reason, inp, len)" by (cases e) auto
  show ?case
  proof (cases "raw_socket_callback lws wsi reason inp len r")
    case (Done x)
    obtain ret effs r' where x: "x = (ret, effs, r')" by (cases x) auto
    let ?s = "s\<lparr>sv_heap := (sv_heap s)(ob \<mapsto> r')\<rparr>"
      and ?t = "t\<lparr>sv_heap := (sv_heap t)(ob \<mapsto> set_shutdown b r')\<rparr>"
    have "result_bind (service_acts ndebug pre (map (Call P_raw (Some ob) wsi) evs) ?t) (\<lambda>(effs, _). Done effs)
      = result_bind (service_acts ndebug pre (map (Call P_raw (Some ob) wsi) evs) ?s) (\<lambda>(effs, _). Done effs)"
      by (rule Cons.IH[of _ r']) simp_all
    then show ?thesis using Cons.prems Done x e
      by (cases "service_acts ndebug pre (map (Call P_raw (Some ob) wsi) evs) ?t";
          cases "service_acts ndebug pre (map (Call P_raw (Some ob) wsi) evs) ?s")
        (auto simp del: fun_upd_apply simp: raw_callback_shutdown)
  qed (use Cons.prems e in \<open>simp_all add: raw_callback_shutdown\<close>)
qed

section \<open>A raw client that is connected\<close>

lemma raw_served:
  assumes inv: "service_inv t used [ob]" and idle: "sv_requests t = []" and r: "sv_heap t ob = Some r"
    and p: "prepared Socket (Some c) r"
  shows "\<exists>u x. serve_iteration ndebug pre [Set_wsi ob (Some wsi)]
          [Call P_raw (Some ob) wsi (lws, Raw_connected, None, 0)] t
        = Done ([Connecting ((ri_cci r)\<lparr>ci_context := sv_context t\<rparr>), Connected c], u)
     \<and> service_inv u used [] \<and> sv_requests u = [ob] \<and> sv_heap u ob = Some x \<and> raw_live wsi x []
     \<and> (\<forall>n. n + 5 < 8192 \<longrightarrow> room (req_ring x) n)"
proof -
  let ?i = "r\<lparr>ri_cci := (ri_cci r)\<lparr>ci_context := sv_context t\<rparr>, ri_service := True, ri_wsi := Some wsi\<rparr>"
  let ?q = "reset_leave (reset_enter (req_ring r))"
  let ?x = "socket_upd (\<lambda>i. i\<lparr>si_invoked := False\<rparr>) (set_ring ?q ?i)"
  have q: "ring_reset (req_ring r) = Done ?q" "fifo_inv ?q [] None"
    using p reset_Done[of "req_ring r" "[]" None] by (simp_all add: prepared_def ring_reset_def)
  have "conn_run (\<lambda>lws. protocol_callback ndebug pre P_raw lws wsi) [(lws, Raw_connected, None, 0)] ?i
      = Done ([Connected c], ?x)"
    using p q by (simp add: prepared_def raw_socket_callback_def raw_connected_def tell_user_def user_call_def)
  moreover have "ri_wsi ?x \<noteq> None" by (simp add: socket_upd_def set_ring_def)
  ultimately obtain u where
    "serve_iteration ndebug pre [Set_wsi ob (Some wsi)]
          (map (Call P_raw (Some ob) wsi) [(lws, Raw_connected, None, 0)]) t
        = Done (Connecting ((ri_cci r)\<lparr>ci_context := sv_context t\<rparr>) # [Connected c], u)"
    "service_inv u used []" "sv_requests u = [ob]" "sv_heap u ob = Some ?x"
    using iteration_serves[OF inv idle r] by blast
  moreover have "raw_live wsi ?x []" "\<forall>n. n + 5 < 8192 \<longrightarrow> room (req_ring ?x) n"
    using p q reset_room[of "req_ring r" "[]" None]
    by (simp_all add: prepared_def raw_live_def set_ring_def socket_upd_def messages_def List.map_filter_def)
  ultimately show ?thesis by (intro exI[of _ u] exI[of _ ?x]) simp
qed

text \<open>A message of a live client, from \<open>send\<close> to \<open>lws_write\<close>.\<close>

lemma raw_sent:
  assumes inv: "service_inv s used []" and one: "sv_requests s = [ob]" and r: "sv_heap s ob = Some r"
    and live: "raw_live wsi r fs" and fits: "msg \<noteq> []" "room (req_ring r) (length msg)"
    and sc: "sc_request sc = Some ob"
  shows "\<exists>t n0. socket_client_send ndebug msg sc s = Done (True, [Want_write wsi, Cancel_service], t)
     \<and> (\<forall>n \<ge> n0. \<exists>effs u. serve_iteration ndebug' pre acts
           (replicate n (Call P_raw (Some ob) wsi (lws, Raw_writeable, None, 0))) t = Done (effs, u)
         \<and> written effs = messages fs @ [msg] \<and> service_inv u used [] \<and> sv_requests u = [ob])"
proof -
  from socket_send_live[OF live fits(1), of ndebug] fits(2) obtain x gs where
    x: "socket_send ndebug msg r = Done (True, [Want_write wsi, Cancel_service], x)"
    "raw_live wsi x gs" "messages gs = messages fs @ [msg]" by (auto simp: raw_fits_def)
  let ?t = "s\<lparr>sv_heap := (sv_heap s)(ob \<mapsto> x)\<rparr>"
  have ob: "ob \<in> used" using inv one by (simp add: service_inv_def)
  have send: "socket_client_send ndebug msg sc s = Done (True, [Want_write wsi, Cancel_service], ?t)"
    using sc r x(1) by (simp add: socket_client_send_def with_obj_try_def)
  have t: "service_inv ?t used []" "sv_requests ?t = [ob]" "sv_heap ?t ob = Some x"
    using heap_upd_inv[OF inv ob] one by simp_all
  have "\<exists>effs u. serve_iteration ndebug' pre acts
           (replicate n (Call P_raw (Some ob) wsi (lws, Raw_writeable, None, 0))) ?t = Done (effs, u)
         \<and> written effs = messages fs @ [msg] \<and> service_inv u used [] \<and> sv_requests u = [ob]"
    if n: "length gs \<le> n" for n
  proof -
    from raw.drains[OF x(2) n, of ndebug lws] obtain effs y where
      y: "raw_session ndebug wsi (replicate n (Writeable lws)) x = Done (effs, y)"
      "raw_live wsi y []" "written effs = messages gs" by blast
    have run: "conn_run (\<lambda>lws. protocol_callback ndebug' pre P_raw lws wsi)
        (replicate n (lws, Raw_writeable, None, 0)) x = Done (effs, y)"
      using y(1) by (simp add: conn_run_writeables[where send = "socket_send ndebug"])
    have "ri_type y \<noteq> Http" "ri_wsi y \<noteq> None" using y(2) by (simp_all add: raw_live_def)
    with iteration_single[OF t run, of acts] show ?thesis using y(3) x(3) by (auto simp: map_replicate)
  qed
  then show ?thesis using send by blast
qed

lemma ws_sent:
  assumes inv: "service_inv s used []" and one: "sv_requests s = [ob]" and r: "sv_heap s ob = Some r"
    and live: "ws_live pre wsi r fs" and pre: "0 < pre" and msg: "msg \<noteq> []"
    and fits: "room (req_ring r) (pre + length msg)" and wc: "wc_request wc = Some ob"
  shows "\<exists>t n0. ws_client_send ndebug pre msg wc s = Done (True, [Want_write wsi, Cancel_service], t)
     \<and> (\<forall>n \<ge> n0. \<exists>effs u. serve_iteration ndebug pre acts
           (replicate n (Call P_ws (Some ob) wsi (lws, Client_writeable, None, 0))) t = Done (effs, u)
         \<and> written effs = queued_texts pre fs @ [msg] \<and> service_inv u used [] \<and> sv_requests u = [ob])"
proof -
  have "length msg < 2 ^ 64" using fits by (simp add: room_def)
  from ws_send_live[OF live pre msg this fits, of ndebug] obtain x gs where
    x: "ws_send ndebug pre msg r = Done (True, [Want_write wsi, Cancel_service], x)"
    "ws_live pre wsi x gs" "queued_texts pre gs = queued_texts pre fs @ [msg]" by blast
  let ?t = "s\<lparr>sv_heap := (sv_heap s)(ob \<mapsto> x)\<rparr>"
  have ob: "ob \<in> used" using inv one by (simp add: service_inv_def)
  have send: "ws_client_send ndebug pre msg wc s = Done (True, [Want_write wsi, Cancel_service], ?t)"
    using wc r x(1) by (simp add: ws_client_send_def with_obj_try_def)
  have t: "service_inv ?t used []" "sv_requests ?t = [ob]" "sv_heap ?t ob = Some x"
    using heap_upd_inv[OF inv ob] one by simp_all
  have "\<exists>effs u. serve_iteration ndebug pre acts
           (replicate n (Call P_ws (Some ob) wsi (lws, Client_writeable, None, 0))) ?t = Done (effs, u)
         \<and> written effs = queued_texts pre fs @ [msg] \<and> service_inv u used [] \<and> sv_requests u = [ob]"
    if n: "length gs \<le> n" for n
  proof -
    have "0 < pre \<and> ws_live pre wsi x gs" using pre x(2) by simp
    from ws.drains[OF this n, of ndebug lws] obtain effs y where
      y: "ws_session ndebug pre wsi (replicate n (Writeable lws)) x = Done (effs, y)"
      "ws_live pre wsi y []" "written effs = queued_texts pre gs" by blast
    have run: "conn_run (\<lambda>lws. protocol_callback ndebug pre P_ws lws wsi)
        (replicate n (lws, Client_writeable, None, 0)) x = Done (effs, y)"
      using y(1) by (simp add: conn_run_writeables[where send = "ws_send ndebug pre"])
    have "ri_type y \<noteq> Http" "ri_wsi y \<noteq> None" using y(2) by (simp_all add: ws_live_def)
    with iteration_single[OF t run, of acts] show ?thesis using y(3) x(3) by (auto simp: map_replicate)
  qed
  then show ?thesis using send by blast
qed

section \<open>Properties\<close>

text \<open>
  C9: a raw client end to end: on an idle service, \<open>connect\<close> asks for a connection to the client's
  address, the user is told that it is connected, a following \<open>send\<close> of up to 8186 bytes returns
  true, and after enough writeable events exactly this message has been handed to \<open>lws_write\<close>.
\<close>

theorem socket_client_delivers:
  assumes "service_inv s used []" and "sv_requests s = []" and "sv_context s"
    and "alloc_ok alloc used" and "length (fst mem) = 8192" and "rb_room (sv_queue s, sv_cursor s)"
    and "get_request_info Socket alloc mem s = Done (Some ob, s1)"
    and "sc_request sc = None" and "sc_callback sc = Some c" and "msg \<noteq> []" and "length msg + 5 < 8192"
  shows "\<exists>sc' t u v n0. socket_connect alloc mem sc s = Done (True, [Cancel_service], sc', t)
     \<and> serve_iteration ndebug pre [Set_wsi ob (Some wsi)]
          [Call P_raw (Some ob) wsi (lws, Raw_connected, None, 0)] t
        = Done ([Connecting ((socket_cci sc ob)\<lparr>ci_context := sv_context t\<rparr>), Connected c], u)
     \<and> socket_client_send ndebug msg sc' u = Done (True, [Want_write wsi, Cancel_service], v)
     \<and> (\<forall>n \<ge> n0. \<exists>effs w. serve_iteration ndebug pre []
           (replicate n (Call P_raw (Some ob) wsi (lws, Raw_writeable, None, 0))) v = Done (effs, w)
         \<and> written effs = [msg] \<and> service_inv w (insert ob used) [] \<and> sv_requests w = [ob])"
proof -
  let ?sc = "sc\<lparr>sc_request := Some ob\<rparr>"
  from socket_connect_Done[OF assms(1,4,3,5,6,7,8)] assms(2,9) obtain t r where
    t: "socket_connect alloc mem sc s = Done (True, [Cancel_service], ?sc, t)"
    "service_inv t (insert ob used) [ob]" "sv_requests t = []" "sv_heap t ob = Some r"
    "prepared Socket (Some c) r" "ri_cci r = socket_cci sc ob" by auto
  from raw_served[OF t(2-5), of ndebug pre wsi lws] obtain u x where
    u: "serve_iteration ndebug pre [Set_wsi ob (Some wsi)]
          [Call P_raw (Some ob) wsi (lws, Raw_connected, None, 0)] t
        = Done ([Connecting ((socket_cci sc ob)\<lparr>ci_context := sv_context t\<rparr>), Connected c], u)"
    "service_inv u (insert ob used) []" "sv_requests u = [ob]" "sv_heap u ob = Some x"
    "raw_live wsi x []" "room (req_ring x) (length msg)" using t(6) assms(11) by auto
  have "sc_request ?sc = Some ob" by simp
  from raw_sent[OF u(2-5) assms(10) u(6) this, of ndebug ndebug pre "[]" lws] show ?thesis
    using t(1) u(1) by (fastforce simp: messages_def List.map_filter_def)
qed

definition some_socket_client :: socket_client where
  "some_socket_client = socket_client_new (Some 9) ''localhost'' 9000"

theorem socket_client_delivers_witness:
  "\<exists>sc' t u v n0. socket_connect None zeros some_socket_client small_service
       = Done (True, [Cancel_service], sc', t)
     \<and> serve_iteration False 16 [Set_wsi (Pooled 0) (Some 3)]
          [Call P_raw (Some (Pooled 0)) 3 (lws_ok, Raw_connected, None, 0)] t
        = Done ([Connecting ((socket_cci some_socket_client (Pooled 0))\<lparr>ci_context := sv_context t\<rparr>),
            Connected 9], u)
     \<and> socket_client_send False [1, 2] sc' u = Done (True, [Want_write 3, Cancel_service], v)
     \<and> (\<forall>n \<ge> n0. \<exists>effs w. serve_iteration False 16 []
           (replicate n (Call P_raw (Some (Pooled 0)) 3 (lws_ok, Raw_writeable, None, 0))) v = Done (effs, w)
         \<and> written effs = [[1, 2]] \<and> service_inv w (insert (Pooled 0) {}) [] \<and> sv_requests w = [Pooled 0])"
proof -
  obtain s1 where s1: "get_request_info Socket None zeros small_service = Done (Some (Pooled 0), s1)"
    using small_service_get by blast
  show ?thesis
    by (rule socket_client_delivers[OF small_service_inv small_service_facts(1,2,4) zeros_size(1)
          small_service_facts(3) s1]) (simp_all add: some_socket_client_def socket_client_new_def)
qed


text \<open>
  C23: \<open>stop\<close> of a raw client does not end the connection: whatever events follow, they have exactly
  the effects they would have had without it.
\<close>

theorem socket_stop_changes_nothing:
  assumes "sc_request sc = Some ob" and "sv_heap s ob = Some r"
  shows "\<exists>t. socket_stop sc s = Done (sc\<lparr>sc_request := None\<rparr>, t)
     \<and> result_bind (service_acts ndebug pre (map (Call P_raw (Some ob) wsi) evs) t) (\<lambda>(effs, _). Done effs)
       = result_bind (service_acts ndebug pre (map (Call P_raw (Some ob) wsi) evs) s) (\<lambda>(effs, _). Done effs)"
proof -
  let ?t = "s\<lparr>sv_heap := (sv_heap s)(ob \<mapsto> set_shutdown True r)\<rparr>"
  have "socket_stop sc s = Done (sc\<lparr>sc_request := None\<rparr>, ?t)"
    using assms by (simp add: socket_stop_def with_obj_def)
  moreover have "sv_heap ?t ob = Some (set_shutdown True r)" by simp
  ultimately show ?thesis using raw_acts_shutdown[OF assms(2)] by blast
qed


text \<open>A service with one live websocket connection.\<close>

definition ws_serving :: service where
  "ws_serving = small_service\<lparr>sv_requests := [Heap 1],
     sv_heap := (sv_heap small_service)(Heap 1 \<mapsto> ws_request)\<rparr>"

lemma ws_serving_inv: "service_inv ws_serving {Heap 1} []"
  using heap_upd_inv[OF serving_inv, of "Heap 1" ws_request] by (simp add: ws_serving_def serving_def)

lemma ws_serving_simps [simp]:
  "sv_requests ws_serving = [Heap 1]" "sv_heap ws_serving (Heap 1) = Some ws_request"
  by (simp_all add: ws_serving_def)



theorem socket_stop_changes_nothing_witness:
  "\<exists>t. socket_stop (some_socket_client\<lparr>sc_request := Some (Heap 1)\<rparr>)
          (ws_serving\<lparr>sv_heap := [Heap 1 \<mapsto> raw_request]\<rparr>)
       = Done (some_socket_client\<lparr>sc_request := Some (Heap 1), sc_request := None\<rparr>, t)
     \<and> result_bind (service_acts False 16 (map (Call P_raw (Some (Heap 1)) 3)
          [(lws_ok, Raw_rx, Some ''tick'', 4)]) t) (\<lambda>(effs, _). Done effs)
       = result_bind (service_acts False 16 (map (Call P_raw (Some (Heap 1)) 3)
          [(lws_ok, Raw_rx, Some ''tick'', 4)]) (ws_serving\<lparr>sv_heap := [Heap 1 \<mapsto> raw_request]\<rparr>))
          (\<lambda>(effs, _). Done effs)"
  by (rule socket_stop_changes_nothing) simp_all

text \<open>
  C38: the destructor of a websocket client with a service of its own uses the request object after
  the service that holds it has been deleted, unless the client was stopped before.
\<close>

theorem ws_destroy_after_connect:
  assumes "service_inv s used []" and "alloc_ok alloc used" and "sv_context s"
    and "length (fst mem) = 8192" and "rb_room (sv_queue s, sv_cursor s)"
    and "get_request_info Ws alloc mem s = Done (Some ob, s1)"
    and "wc_request wc = None" and "\<not> sv_global s"
  shows "\<exists>wc' t u. ws_connect alloc mem wc s = Done (True, [Cancel_service], wc', t)
     \<and> ws_client_destroy wc' (Some t) = Out_of_bounds
     \<and> ws_stop wc' (Some t) = Done ([Cancel_service], wc'\<lparr>wc_request := None\<rparr>, Some u)
     \<and> ws_client_destroy (wc'\<lparr>wc_request := None\<rparr>) (Some u) = Done ([], wc'\<lparr>wc_request := None\<rparr>, None)"
proof -
  let ?wc = "wc\<lparr>wc_request := Some ob\<rparr>"
  from ws_connect_Done[OF assms(1-7)] obtain t r where
    t: "ws_connect alloc mem wc s = Done (True, [Cancel_service], ?wc, t)"
    "sv_heap t ob = Some r" "prepared Ws (wc_callback wc) r" by blast
  let ?u = "t\<lparr>sv_heap := (sv_heap t)(ob \<mapsto> set_shutdown True r)\<rparr>"
  have g: "\<not> sv_global t" using ws_connect_global[OF t(1)] assms(8) by simp
  then have "ws_client_destroy ?wc (Some t) = Out_of_bounds"
    by (simp add: ws_client_destroy_def ws_stop_def)
  moreover have "ws_stop ?wc (Some t) = Done ([Cancel_service], ?wc\<lparr>wc_request := None\<rparr>, Some ?u)"
    using t(2,3) by (simp add: ws_stop_def with_obj_try_def service_wakeup_def prepared_def)
  moreover have "ws_client_destroy (?wc\<lparr>wc_request := None\<rparr>) (Some ?u) = Done ([], ?wc\<lparr>wc_request := None\<rparr>, None)"
    using g by (simp add: ws_client_destroy_def ws_stop_def)
  ultimately show ?thesis using t(1) by blast
qed

theorem ws_destroy_after_connect_witness:
  "\<exists>wc' t u. ws_connect None zeros some_ws_client small_service = Done (True, [Cancel_service], wc', t)
     \<and> ws_client_destroy wc' (Some t) = Out_of_bounds
     \<and> ws_stop wc' (Some t) = Done ([Cancel_service], wc'\<lparr>wc_request := None\<rparr>, Some u)
     \<and> ws_client_destroy (wc'\<lparr>wc_request := None\<rparr>) (Some u) = Done ([], wc'\<lparr>wc_request := None\<rparr>, None)"
proof -
  obtain s1 where s1: "get_request_info Ws None zeros small_service = Done (Some (Pooled 0), s1)"
    using small_service_get by blast
  show ?thesis
    by (rule ws_destroy_after_connect[OF small_service_inv small_service_facts(4,2) zeros_size(1)
          small_service_facts(3) s1])
      (simp_all add: some_ws_client_def small_service_def service_new_def)
qed

end
