(* ===== verification/Service_Loop.thy ===== *)
theory Service_Loop
  imports Http_Client
begin

text \<open>
  The loop of \<open>socket_service::serve\<close> (src/socket_service.cpp) over several iterations: asynchronous
  requests of any number of clients are answered one after another, in the order in which they were
  made, and everything they used is given back.
\<close>

section \<open>A queue of asynchronous requests\<close>

text \<open>
  A queued request, the user's function that waits for it, and how its connection answers: status,
  content type and the chunks of the body.
\<close>

record job =
  j_obj :: obj
  j_user :: nat
  j_wsi :: nat
  j_lws :: lws_api
  j_type :: string
  j_chunks :: "string list"

definition job_response :: "job \<Rightarrow> http_response" where
  "job_response j = http_response_new (la_status (j_lws j)) (j_type j) (concat (j_chunks j))"

text \<open>
  The content type is shorter than the array it is copied into, and libwebsockets terminates it.
\<close>

definition job_ok :: "job \<Rightarrow> bool" where
  "job_ok j \<longleftrightarrow> la_hdr_length (j_lws j) < 512 \<and> (\<forall>c \<in> set (j_chunks j). length c < 2 ^ 64)
     \<and> (\<forall>old. \<exists>rest. la_hdr_copy (j_lws j) old = j_type j @ [CHR 0x00] @ rest) \<and> CHR 0x00 \<notin> set (j_type j)"

definition job_queued :: "service \<Rightarrow> job \<Rightarrow> bool" where
  "job_queued s j \<longleftrightarrow> (\<exists>r. sv_heap s (j_obj j) = Some r \<and> ri_type r = Http
     \<and> hi_callback (ri_http r) = Some (j_user j) \<and> hi_response (ri_http r) = [])"

text \<open>
  One iteration per job, and a last one in which there is nothing to do and the service is stopped.
\<close>

definition job_turn :: "job \<Rightarrow> lws_act list \<times> lws_act list \<times> bool" where
  "job_turn j = ([Set_wsi (j_obj j) (Some (j_wsi j))], answer_acts (j_obj j) (j_wsi j) (j_lws j) (j_chunks j), False)"

abbreviation job_turns :: "job list \<Rightarrow> (lws_act list \<times> lws_act list \<times> bool) list" where
  "job_turns jobs \<equiv> map job_turn jobs @ [([], [], True)]"

text \<open>The responses the users are told.\<close>

fun responses :: "effect list \<Rightarrow> (nat \<times> http_response) list" where
  "responses [] = []"
| "responses (Responded c resp # effs) = (c, resp) # responses effs"
| "responses (_ # effs) = responses effs"

lemma responses_append [simp]: "responses (a @ b) = responses a @ responses b"
  by (induction a rule: responses.induct) simp_all

lemma idle_turn_stops:
  assumes "service_inv s used []" "sv_requests s = []" "sv_run s"
  shows "\<exists>t. serve_loop ndebug pre [([], [], True)] s = Done ([], t) \<and> service_inv t used [] \<and> sv_requests t = []"
proof -
  have "queue_pop (sv_queue s, sv_cursor s) = Done (None, sv_queue s, sv_cursor s)"
    using request_queue.pop_empty_law[of "(sv_queue s, sv_cursor s)"] assms(1) by (simp add: service_inv_def)
  then have "serve_iteration ndebug pre [] [] s = Done ([], s)"
    using assms(2) by (simp add: serve_iteration_def serve_connect_def Let_def)
  then have "serve_loop ndebug pre [([], [], True)] s = Done ([], s\<lparr>sv_run := False\<rparr>)"
    using assms(3) by (simp add: serve_loop.simps)
  moreover have "service_inv (s\<lparr>sv_run := False\<rparr>) used []" using assms(1) by (simp add: service_inv_def)
  ultimately show ?thesis using assms(2) by simp
qed

lemma jobs_answered:
  assumes "service_inv s used (map j_obj jobs)" "sv_requests s = []" "sv_run s"
    and "\<forall>j \<in> set jobs. job_queued s j \<and> job_ok j"
  shows "\<exists>effs t. serve_loop ndebug pre (job_turns jobs) s = Done (effs, t)
     \<and> responses effs = map (\<lambda>j. (j_user j, job_response j)) jobs
     \<and> service_inv t (used - j_obj ` set jobs) [] \<and> sv_requests t = []"
  using assms
proof (induction jobs arbitrary: s used)
  case Nil
  then show ?case using idle_turn_stops[of s used ndebug pre] by auto
next
  case (Cons j jobs)
  then have inv: "service_inv s used (j_obj j # map j_obj jobs)" by simp
  from Cons.prems(4) obtain r where r: "sv_heap s (j_obj j) = Some r" "ri_type r = Http"
    "hi_callback (ri_http r) = Some (j_user j)" "hi_response (ri_http r) = []" and ok: "job_ok j"
    by (auto simp: job_queued_def)
  from iteration_answers[OF inv Cons.prems(2) r(1,2), of "j_lws j" "j_chunks j" "j_type j" ndebug pre "j_wsi j"]
  obtain t where t: "serve_iteration ndebug pre [Set_wsi (j_obj j) (Some (j_wsi j))]
      (answer_acts (j_obj j) (j_wsi j) (j_lws j) (j_chunks j)) s = Done
       ([Connecting ((ri_cci r)\<lparr>ci_context := sv_context s\<rparr>), Cancel_service, Responded (j_user j) (job_response j)], t)"
    "service_inv t (used - {j_obj j}) (map j_obj jobs)" "sv_requests t = []"
    "\<forall>x. x \<noteq> j_obj j \<longrightarrow> sv_heap t x = sv_heap s x"
    using ok r(3,4) by (auto simp: job_ok_def job_response_def)
  have run: "sv_run t" using serve_iteration_run[OF t(1)] Cons.prems(3) by simp
  have "j_obj j \<notin> j_obj ` set jobs" using inv by (auto simp: service_inv_def)
  then have "sv_heap t (j_obj k) = sv_heap s (j_obj k)" if "k \<in> set jobs" for k
    using that t(4) by (metis image_eqI)
  then have "\<forall>k \<in> set jobs. job_queued t k \<and> job_ok k"
    using Cons.prems(4) by (simp add: job_queued_def)
  from Cons.IH[OF t(2,3) run this] obtain effs u where
    u: "serve_loop ndebug pre (job_turns jobs) t = Done (effs, u)"
    "responses effs = map (\<lambda>j. (j_user j, job_response j)) jobs"
    "service_inv u (used - {j_obj j} - j_obj ` set jobs) []" "sv_requests u = []" by blast
  have "t\<lparr>sv_run := True\<rparr> = t" using run by (cases t) simp
  then have "serve_loop ndebug pre (job_turns jobs) (t\<lparr>sv_run := True\<rparr>) = Done (effs, u)"
    using u(1) by (simp only:)
  then have "serve_loop ndebug pre (job_turns (j # jobs)) s = Done
      ([Connecting ((ri_cci r)\<lparr>ci_context := sv_context s\<rparr>), Cancel_service,
        Responded (j_user j) (job_response j)] @ effs, u)"
    using Cons.prems(3) t(1) run by (simp add: serve_loop.simps[of _ _ "_ # _"] job_turn_def)
  moreover have "used - {j_obj j} - j_obj ` set jobs = used - j_obj ` set (j # jobs)" by auto
  ultimately show ?case using u(2-4) by simp
qed

section \<open>Properties\<close>



definition some_job :: job where
  "some_job = \<lparr>j_obj = Pooled 0, j_user = 8, j_wsi = 3, j_lws = lws_ok, j_type = ''text'', j_chunks = [''12'', '':30'']\<rparr>"

lemma some_job_ok: "job_ok some_job"
  by (simp add: job_ok_def some_job_def lws_ok_def)


text \<open>A service with a queued request, for the witness.\<close>

lemma queued_service:
  "\<exists>s. service_inv s {Pooled 0} (map j_obj [some_job]) \<and> sv_requests s = [] \<and> sv_run s \<and> job_queued s some_job"
proof -
  obtain s1 where s1: "get_request_info Http None zeros small_service = Done (Some (Pooled 0), s1)"
    using small_service_get by blast
  have run: "sv_run small_service" by (simp add: small_service_def service_new_def)
  let ?f = "http_fill some_client None ''GET'' ''/'' None (Some 8) (Pooled 0)"
  from submit_Done[OF small_service_inv small_service_facts(4,2) zeros_size(1) small_service_facts(3) s1, of ?f]
  obtain i t where "newly_made i" "service_inv t (insert (Pooled 0) {}) ([] @ [Pooled 0])"
    "sv_heap t (Pooled 0) = Some (?f (i\<lparr>ri_type := Http\<rparr>))" "sv_requests t = []" "sv_run t"
    using run small_service_facts(1) by auto
  then show ?thesis
    by (intro exI[of _ t]) (auto simp: job_queued_def some_job_def newly_made_def request_info_new_def)
qed


end
