(* ===== verification/Cpu_Affinity.thy ===== *)
theory Cpu_Affinity
  imports Service_Loop
begin

unbundle bit_operations_syntax

text \<open>
  \<open>set_cpu_affinity\<close> of src/utils.h, with which the thread of a service pins itself to a processor before
  it enters its loop, and \<open>socket_service::serve\<close> (src/socket_service.cpp) as a whole.
\<close>

text \<open>
  What the preprocessor chooses between, and the call of the operating system: the mask of
  \<open>SetThreadAffinityMask\<close>, or the bits of the \<open>cpu_set_t\<close> of \<open>pthread_setaffinity_np\<close>.
\<close>

datatype platform = Msvc | Apple | Posix

datatype affinity_call = Thread_mask u64 | Thread_cpus "1024 word"

text \<open>\<open>CPU_SET\<close> on an empty \<open>cpu_set_t\<close> of 1024 bits; a larger number leaves it empty.\<close>

definition cpu_set :: "u32 \<Rightarrow> 1024 word" where
  "cpu_set cpu = (if unat cpu < 1024 then 0 OR push_bit (unat cpu) 1 else 0)"

text \<open>
  \<open>cpus\<close> is \<open>hardware_concurrency()\<close>. It may be 0, and the remainder is undefined then, as is a shift by
  64 or more; the signed \<open>cpu_affinity\<close> is converted to unsigned for the remainder.
\<close>

definition set_cpu_affinity :: "platform \<Rightarrow> u32 \<Rightarrow> u32 \<Rightarrow> affinity_call list result" where
  "set_cpu_affinity os cpus cpu_affinity =
     (if cpu_affinity = - 1 then Done []
      else case os of
        Apple \<Rightarrow> Done []
      | Msvc \<Rightarrow> if cpus = 0 then Out_of_bounds
          else let cpu = cpu_affinity mod cpus in
            if unat cpu < 64 then Done [Thread_mask (push_bit (unat cpu) 1)] else Out_of_bounds
      | Posix \<Rightarrow> if cpus = 0 then Out_of_bounds
          else Done [Thread_cpus (cpu_set (cpu_affinity mod cpus))])"

definition serve ::
  "platform \<Rightarrow> u32 \<Rightarrow> u32 \<Rightarrow> bool \<Rightarrow> nat \<Rightarrow> (lws_act list \<times> lws_act list \<times> bool) list \<Rightarrow> service \<Rightarrow>
   (affinity_call list \<times> effect list \<times> service) result"
where
  "serve os cpus cpu_affinity ndebug pre its s =
     result_bind (set_cpu_affinity os cpus cpu_affinity) (\<lambda>calls.
       result_bind (serve_loop ndebug pre its s) (\<lambda>(effs, s). Done (calls, effs, s)))"

text \<open>The processors a call allows.\<close>

fun allowed_cpus :: "affinity_call \<Rightarrow> nat set" where
  "allowed_cpus (Thread_mask m) = {i. bit m i}"
| "allowed_cpus (Thread_cpus m) = {i. bit m i}"

lemma bit_one_at:
  "k < LENGTH('a) \<Longrightarrow> {i. bit (2 ^ k :: 'a :: len word) i} = {k}"
  by (auto simp: bit_exp_iff possible_bit_word)

text \<open>
  The thread is pinned to exactly one processor, and it exists: the remainder of the requested number, read
  without sign. -1 pins it nowhere, nor does anything on Apple systems.
\<close>

theorem set_cpu_affinity_pins:
  assumes "0 < unat cpus" and "unat cpus \<le> (if os = Msvc then 64 else 1024)"
  shows "set_cpu_affinity os cpus a = Done [] \<and> (a = - 1 \<or> os = Apple)
     \<or> (\<exists>call. set_cpu_affinity os cpus a = Done [call] \<and> a \<noteq> - 1 \<and> os \<noteq> Apple
          \<and> allowed_cpus call = {unat a mod unat cpus} \<and> unat a mod unat cpus < unat cpus)"
proof -
  have m: "unat (a mod cpus) = unat a mod unat cpus" "unat a mod unat cpus < unat cpus"
    using assms(1) by (simp_all add: unat_mod)
  have c: "cpus \<noteq> 0" using assms(1) by auto
  show ?thesis using assms(2) m c
    by (cases os) (auto simp: set_cpu_affinity_def cpu_set_def Let_def bit_one_at)
qed

text \<open>A service on such a system pins its thread before anything else, and then runs its loop.\<close>

theorem serve_pins_first:
  assumes "0 < unat cpus" and "unat cpus \<le> (if os = Msvc then 64 else 1024)"
    and "serve_loop ndebug pre its s = Done (effs, t)"
  shows "\<exists>calls. serve os cpus a ndebug pre its s = Done (calls, effs, t) \<and> length calls \<le> 1"
  using set_cpu_affinity_pins[OF assms(1,2), of a] assms(3) by (auto simp: serve_def)

text \<open>On a Windows system with more than 64 processors the shift is undefined for those behind the 64th.\<close>

theorem set_cpu_affinity_shift:
  "set_cpu_affinity Msvc 128 64 = Out_of_bounds"
  by (simp add: set_cpu_affinity_def)

end
