(* ===== verification/Socket_Server.thy ===== *)
theory Socket_Server
  imports String_Ring_Limits Connection_Life Http_Callback
begin

text \<open>
  \<open>socket_server\<close> of src/socket_server.cpp: a raw TCP server. The map from connections to
  send buffers and the user's callback are variables of the file, shared by every server of
  the process; a connection is the number that stands for its \<open>lws*\<close>, which is also the
  client handle of the user.
\<close>

section \<open>State\<close>

record server_state =
  ss_clients :: "nat \<Rightarrow> string_ring option"
  ss_callback :: "nat option"

record socket_server =
  sr_callback :: "nat option"
  sr_run :: bool

definition socket_server_new :: "nat option \<Rightarrow> socket_server" where
  "socket_server_new cb = \<lparr>sr_callback = cb, sr_run = True\<rparr>"

definition server_stop :: "socket_server \<Rightarrow> socket_server" where
  "server_stop s = s\<lparr>sr_run := False\<rparr>"

definition server_start :: server_state where
  "server_start = \<lparr>ss_clients = (\<lambda>_. None), ss_callback = None\<rparr>"

section \<open>send\<close>

type_synonym server_answer = "(int \<times> effect list \<times> server_state) result"

definition set_client :: "nat \<Rightarrow> string_ring \<Rightarrow> server_state \<Rightarrow> server_state" where
  "set_client wsi s g = g\<lparr>ss_clients := (ss_clients g)(wsi := Some s)\<rparr>"

text \<open>The result of \<open>buffer.write\<close> is dropped.\<close>

definition server_send ::
  "bool \<Rightarrow> nat \<Rightarrow> byte list \<Rightarrow> server_state \<Rightarrow> (bool \<times> effect list \<times> server_state) result"
where
  "server_send ndebug wsi msg g =
     (case ss_clients g wsi of
        None \<Rightarrow> Done (False, [], g)
      | Some s \<Rightarrow> result_bind (ring_write ndebug msg 0 s)
          (\<lambda>(_, s). Done (True, [Want_write wsi], set_client wsi s g)))"

section \<open>raw_socket_server_callback\<close>

text \<open>
  \<open>emplace\<close> constructs the buffer of a client that is not in the map; \<open>mem\<close> is what its memory
  holds.
\<close>

definition server_adopt :: "byte list \<Rightarrow> lws_api \<Rightarrow> nat \<Rightarrow> server_state \<Rightarrow> server_answer" where
  "server_adopt mem lws wsi g =
     (let g = (if ss_clients g wsi = None then set_client wsi (string_ring_new mem 8192) g else g) in
      result_bind (user_call (ss_callback g) (\<lambda>c. Client_connected c wsi))
        (\<lambda>effs. Done (la_dummy lws, effs, g)))"

definition server_writeable :: "lws_api \<Rightarrow> nat \<Rightarrow> u64 \<Rightarrow> server_state \<Rightarrow> server_answer" where
  "server_writeable lws wsi len g =
     (case ss_clients g wsi of
        None \<Rightarrow> Done (la_dummy lws, [], g)
      | Some s \<Rightarrow> result_bind (ring_read s) (\<lambda>(msg, s). let g = set_client wsi s g in
          case msg of
            None \<Rightarrow> Done (la_dummy lws, [], g)
          | Some bs \<Rightarrow>
              if bs = [] then Done (la_dummy lws, [], g)
              else let n = size_of_int (la_write lws bs) in
                if n < len then Done (- 1, [Written bs], g)
                else Done (1, [Written bs, Want_write wsi], g)))"

definition raw_socket_server_callback ::
  "byte list \<Rightarrow> lws_api \<Rightarrow> nat \<Rightarrow> reason \<Rightarrow> string option \<Rightarrow> u64 \<Rightarrow> server_state \<Rightarrow> server_answer"
where
  "raw_socket_server_callback mem lws wsi reason inp len g =
     (case reason of
        Raw_adopt \<Rightarrow> server_adopt mem lws wsi g
      | Raw_close \<Rightarrow> result_bind (user_call (ss_callback g) (\<lambda>c. Client_disconnected c wsi))
          (\<lambda>effs. Done (la_dummy lws, effs, g))
      | Raw_rx \<Rightarrow> result_bind (user_call (ss_callback g) (\<lambda>c. Client_data c wsi (in_text inp len)))
          (\<lambda>effs. Done (la_dummy lws, effs, g))
      | Raw_writeable \<Rightarrow> server_writeable lws wsi len g
      | _ \<Rightarrow> Done (la_dummy lws, [], g))"

section \<open>serve\<close>

text \<open>
  The events \<open>lws_service\<close> delivers during one call, on any of the connections, and the loop of
  \<open>serve\<close>. An iteration is given the events, the value \<open>lws_service\<close> returns and whether
  another thread has called \<open>stop\<close> meanwhile; with no more iterations given, the loop is
  still running (\<open>Spinning\<close>). \<open>cpu_affinity\<close> is not used.
\<close>

type_synonym server_event = "byte list \<times> nat \<times> event"

fun server_events :: "server_event list \<Rightarrow> server_state \<Rightarrow> (effect list \<times> server_state) result" where
  "server_events [] g = Done ([], g)"
| "server_events ((mem, wsi, lws, reason, inp, len) # evs) g =
     result_bind (raw_socket_server_callback mem lws wsi reason inp len g)
       (\<lambda>(_, effs, g). result_bind (server_events evs g) (\<lambda>(effs', g). Done (effs @ effs', g)))"

fun server_loop ::
  "int \<Rightarrow> (server_event list \<times> int \<times> bool) list \<Rightarrow> socket_server \<Rightarrow> server_state \<Rightarrow>
   (effect list \<times> socket_server \<times> server_state) result"
where
  "server_loop n its s g =
     (if \<not> (n \<ge> 0 \<and> sr_run s) then Done ([], s, g)
      else case its of
        [] \<Rightarrow> Spinning
      | (evs, n', stop) # its' \<Rightarrow>
          result_bind (server_events evs g) (\<lambda>(effs, g).
            result_bind (server_loop n' its' (if stop then server_stop s else s) g)
              (\<lambda>(effs', r). Done (effs @ effs', r))))"

declare server_loop.simps [simp del]

text \<open>\<open>context\<close> says whether \<open>lws_create_context\<close> succeeds.\<close>

definition server_serve ::
  "bool \<Rightarrow> (server_event list \<times> int \<times> bool) list \<Rightarrow> socket_server \<Rightarrow> server_state \<Rightarrow>
   (effect list \<times> socket_server \<times> server_state) result"
where
  "server_serve context its s g =
     (let g = g\<lparr>ss_callback := sr_callback s\<rparr> in
      if \<not> context then Done ([], s, g) else server_loop 0 its s g)"

section \<open>A client as a channel\<close>

definition server_live :: "nat \<Rightarrow> server_state \<Rightarrow> frame list \<Rightarrow> bool" where
  "server_live wsi g fs \<longleftrightarrow> (\<exists>s. ss_clients g wsi = Some s \<and> fifo_inv s fs None) \<and> [] \<notin> set (messages fs)"

definition server_fits :: "nat \<Rightarrow> server_state \<Rightarrow> byte list \<Rightarrow> bool" where
  "server_fits wsi g msg \<longleftrightarrow> (case ss_clients g wsi of None \<Rightarrow> False | Some s \<Rightarrow> room s (length msg))"

abbreviation server_pump :: "byte list \<Rightarrow> nat \<Rightarrow> lws_api \<Rightarrow> server_state \<Rightarrow> server_answer" where
  "server_pump mem wsi \<equiv> \<lambda>lws. raw_socket_server_callback mem lws wsi Raw_writeable None 0"

lemma set_client_simps [simp]:
  "ss_clients (set_client wsi s g) = (ss_clients g)(wsi := Some s)"
  "ss_callback (set_client wsi s g) = ss_callback g"
  by (simp_all add: set_client_def)

lemma server_send_live:
  assumes "server_live wsi g fs" and "msg \<noteq> []" and "server_fits wsi g msg"
  shows "\<exists>t gs. server_send ndebug wsi msg g = Done (True, [Want_write wsi], t)
    \<and> server_live wsi t gs \<and> messages gs = messages fs @ [msg]"
proof -
  from assms(1) obtain s where s: "ss_clients g wsi = Some s" "fifo_inv s fs None"
    by (auto simp: server_live_def)
  from assms(3) s obtain t gs where
    "ring_write ndebug msg 0 s = Done (True, t)" "fifo_inv t gs None" "messages gs = messages fs @ [msg]"
    using ring_whole_message[OF s(2) assms(2), of ndebug] by (auto simp: server_fits_def)
  then show ?thesis using assms(1,2) s(1)
    by (intro exI[of _ "set_client wsi t g"] exI[of _ gs]) (simp add: server_send_def server_live_def)
qed

lemma server_writeable_live:
  assumes live: "server_live wsi g fs"
  shows "\<exists>ret effs t gs. raw_socket_server_callback mem lws wsi Raw_writeable inp 0 g = Done (ret, effs, t)
    \<and> server_live wsi t gs \<and> messages fs = written effs @ messages gs
    \<and> (gs = [] \<or> length gs < length fs) \<and> (written effs \<noteq> [] \<longrightarrow> ret = 1)"
proof -
  from live obtain s where s: "ss_clients g wsi = Some s" "fifo_inv s fs None" by (auto simp: server_live_def)
  from ring_read_any[OF s(2)] obtain m t gs where
    t: "ring_read s = Done (m, t)" "fifo_inv t gs None"
    "messages fs = (case m of None \<Rightarrow> [] | Some b \<Rightarrow> [b]) @ messages gs" "gs = [] \<and> m = None \<or> length gs < length fs"
    by auto
  show ?thesis
  proof (cases m)
    case None
    then show ?thesis using live s t
      by (intro exI[of _ "la_dummy lws"] exI[of _ "[]"] exI[of _ "set_client wsi t g"] exI[of _ gs])
        (auto simp: raw_socket_server_callback_def server_writeable_def server_live_def)
  next
    case (Some bs)
    then have "bs \<noteq> []" using live t(3) by (auto simp: server_live_def)
    then show ?thesis using live s t Some
      by (intro exI[of _ 1] exI[of _ "[Written bs, Want_write wsi]"] exI[of _ "set_client wsi t g"] exI[of _ gs])
        (auto simp: raw_socket_server_callback_def server_writeable_def server_live_def Let_def)
  qed
qed

interpretation served: message_channel "server_live wsi" messages "server_fits wsi"
  "server_send ndebug wsi" "server_pump mem wsi" for ndebug mem wsi
proof (unfold_locales, goal_cases)
  case (1 g fs msg)
  then show ?case using server_send_live[OF 1, of ndebug] by fastforce
next
  case (2 g fs lws)
  then show ?case using server_writeable_live[OF 2, of mem lws None] by blast
next
  case 3
  then show ?case by (simp add: messages_def List.map_filter_def)
qed

abbreviation server_session ::
  "bool \<Rightarrow> byte list \<Rightarrow> nat \<Rightarrow> move list \<Rightarrow> server_state \<Rightarrow> (effect list \<times> server_state) result"
where
  "server_session ndebug mem wsi \<equiv> channel_run (server_send ndebug wsi) (server_pump mem wsi)"

section \<open>A client from its opening to its end\<close>

definition server_up :: "nat \<Rightarrow> nat \<Rightarrow> server_state \<Rightarrow> frame list \<Rightarrow> bool" where
  "server_up wsi c g fs \<longleftrightarrow> server_live wsi g fs \<and> ss_callback g = Some c"

definition server_ready :: "byte list \<Rightarrow> nat \<Rightarrow> nat \<Rightarrow> server_state \<Rightarrow> bool" where
  "server_ready mem wsi c g \<longleftrightarrow> ss_clients g wsi = None \<and> ss_callback g = Some c \<and> length mem = 8192"

abbreviation server_open :: "byte list \<Rightarrow> nat \<Rightarrow> lws_api \<Rightarrow> server_state \<Rightarrow> server_answer" where
  "server_open mem wsi lws \<equiv> raw_socket_server_callback mem lws wsi Raw_adopt None 0"

abbreviation server_receive ::
  "byte list \<Rightarrow> nat \<Rightarrow> lws_api \<Rightarrow> string option \<Rightarrow> u64 \<Rightarrow> server_state \<Rightarrow> server_answer"
where
  "server_receive mem wsi \<equiv> \<lambda>lws. raw_socket_server_callback mem lws wsi Raw_rx"

definition server_finish ::
  "byte list \<Rightarrow> nat \<Rightarrow> lws_api \<Rightarrow> server_state \<Rightarrow> (effect list \<times> server_state) result"
where
  "server_finish mem wsi lws = server_events [(mem, wsi, lws, Raw_close, None, 0)]"

definition server_data :: "nat \<Rightarrow> lws_api \<Rightarrow> string option \<Rightarrow> u64 \<Rightarrow> server_call" where
  "server_data wsi lws inp len = On_client_data wsi (in_text inp len)"

lemma server_send_keeps:
  "server_send ndebug wsi msg g = Done (b, effs, t) \<Longrightarrow>
     ss_callback t = ss_callback g \<and> server_calls_of c effs = []"
  by (auto simp: server_send_def result_bind_eq_Done split: option.splits)

lemma server_writeable_keeps:
  assumes "raw_socket_server_callback mem lws wsi Raw_writeable inp len g = Done (ret, effs, t)"
  shows "ss_callback t = ss_callback g \<and> server_calls_of c effs = []"
proof (cases "ss_clients g wsi")
  case (Some s)
  then obtain m u where "ring_read s = Done (m, u)"
    using assms by (auto simp: raw_socket_server_callback_def server_writeable_def result_bind_eq_Done)
  then show ?thesis using assms Some
    by (cases m) (auto simp: raw_socket_server_callback_def server_writeable_def Let_def split: if_splits)
qed (use assms in \<open>simp add: raw_socket_server_callback_def server_writeable_def\<close>)

interpretation server_life: connection_life "server_up wsi c" messages "server_fits wsi"
  "server_send ndebug wsi" "server_pump mem wsi" "server_ready mem wsi c" "server_open mem wsi lws"
  "server_receive mem wsi" "server_finish mem wsi lws" "server_calls_of c"
  "On_client_connected wsi" "On_client_disconnected wsi" "server_data wsi"
  for ndebug mem wsi c lws
proof (unfold_locales, goal_cases)
  case (1 g fs msg)
  then obtain t gs where t: "server_send ndebug wsi msg g = Done (True, [Want_write wsi], t)"
    "server_live wsi t gs" "messages gs = messages fs @ [msg]"
    using server_send_live[of wsi g fs msg ndebug] by (auto simp: server_up_def)
  then have "server_up wsi c t gs" using 1(1) server_send_keeps[OF t(1)] by (simp add: server_up_def)
  then show ?case using t(1,3) by auto
next
  case (2 g fs lws)
  then obtain ret effs t gs where t: "server_pump mem wsi lws g = Done (ret, effs, t)"
    "server_live wsi t gs" "messages fs = written effs @ messages gs" "gs = [] \<or> length gs < length fs"
    using server_writeable_live[of wsi g fs mem lws None] by (auto simp: server_up_def)
  then have "server_up wsi c t gs" using 2 server_writeable_keeps[OF t(1)] by (simp add: server_up_def)
  then show ?case using t by blast
next
  case 3
  then show ?case by simp
next
  case 4
  then show ?case by simp
next
  case (5 a b)
  then show ?case by (rule server_calls_of_append)
next
  case (6 g)
  have "is_pow2 8192" by (simp add: is_pow2_def)
  then have "fifo_inv (string_ring_new mem 8192) [] None" using 6 by (intro new_ring_inv) (simp_all add: server_ready_def)
  then show ?case using 6
    by (simp add: server_ready_def raw_socket_server_callback_def server_adopt_def user_call_def
        server_up_def server_live_def)
next
  case (7 g fs lws inp len)
  then show ?case by (simp add: server_up_def raw_socket_server_callback_def user_call_def server_data_def)
next
  case (8 msg g ok effs t)
  then show ?case using server_send_keeps by blast
next
  case (9 g fs lws ret effs t)
  then show ?case using server_writeable_keeps by blast
next
  case (10 g fs)
  then show ?case by (simp add: server_finish_def server_up_def raw_socket_server_callback_def user_call_def)
qed

section \<open>Clients do not disturb each other\<close>

lemma server_adopt_update:
  "server_adopt mem lws wsi g = Done (ret, effs, t) \<Longrightarrow> t = g \<or> (\<exists>s. t = set_client wsi s g)"
  by (auto simp: server_adopt_def result_bind_eq_Done Let_def split: if_splits)

lemma server_writeable_update:
  "server_writeable lws wsi len g = Done (ret, effs, t) \<Longrightarrow> t = g \<or> (\<exists>s. t = set_client wsi s g)"
  by (auto simp: server_writeable_def result_bind_eq_Done Let_def split: option.splits if_splits)

lemma server_callback_update:
  "raw_socket_server_callback mem lws wsi reason inp len g = Done (ret, effs, t) \<Longrightarrow>
   t = g \<or> (\<exists>s. t = set_client wsi s g)"
  using server_adopt_update[of mem lws wsi g ret effs t] server_writeable_update[of lws wsi len g ret effs t]
  by (cases reason) (auto simp: raw_socket_server_callback_def result_bind_eq_Done)

lemma server_callback_other:
  assumes "raw_socket_server_callback mem lws wsi reason inp len g = Done (ret, effs, t)"
  shows "w \<noteq> wsi \<Longrightarrow> ss_clients t w = ss_clients g w"
    and "ss_clients g w \<noteq> None \<Longrightarrow> ss_clients t w \<noteq> None"
  using server_callback_update[OF assms] by (metis fun_upd_apply option.distinct(1) set_client_simps(1))+

lemma server_events_keep:
  "server_events evs g = Done (effs, t) \<Longrightarrow>
     (\<forall>w. w \<notin> (\<lambda>e. fst (snd e)) ` set evs \<longrightarrow> ss_clients t w = ss_clients g w)
     \<and> (\<forall>w. ss_clients g w \<noteq> None \<longrightarrow> ss_clients t w \<noteq> None)"
proof (induction evs g arbitrary: effs t rule: server_events.induct)
  case (1 g)
  then show ?case by simp
next
  case (2 mem wsi lws reason inp len evs g)
  then obtain ret effs1 h effs2 where
    h: "raw_socket_server_callback mem lws wsi reason inp len g = Done (ret, effs1, h)"
    "server_events evs h = Done (effs2, t)"
    by (auto simp: result_bind_eq_Done split: prod.splits)
  have IH: "(\<forall>w. w \<notin> (\<lambda>e. fst (snd e)) ` set evs \<longrightarrow> ss_clients t w = ss_clients h w)
     \<and> (\<forall>w. ss_clients h w \<noteq> None \<longrightarrow> ss_clients t w \<noteq> None)"
    using "2.IH" h(2) by blast
  show ?case using IH server_callback_other[OF h(1)] by auto
qed

section \<open>What the user of a server is told\<close>

text \<open>The call that an event should make.\<close>

fun told :: "server_event \<Rightarrow> server_call list" where
  "told (mem, wsi, lws, reason, inp, len) = (case reason of
     Raw_adopt \<Rightarrow> [On_client_connected wsi]
   | Raw_close \<Rightarrow> [On_client_disconnected wsi]
   | Raw_rx \<Rightarrow> [On_client_data wsi (in_text inp len)]
   | _ \<Rightarrow> [])"

lemma server_callback_told:
  assumes "raw_socket_server_callback mem lws wsi reason inp len g = Done (ret, effs, t)" "ss_callback g = Some c"
  shows "server_calls_of c effs = told (mem, wsi, lws, reason, inp, len) \<and> ss_callback t = Some c"
proof (cases "reason = Raw_writeable")
  case True
  then show ?thesis using server_writeable_keeps[of mem lws wsi inp len g ret effs t c] assms by simp
next
  case False
  then show ?thesis using assms
    by (cases reason) (auto simp: raw_socket_server_callback_def server_adopt_def user_call_def Let_def
        split: if_splits)
qed

lemma server_events_told:
  "server_events evs g = Done (effs, t) \<Longrightarrow> ss_callback g = Some c \<Longrightarrow>
     server_calls_of c effs = concat (map told evs)"
proof (induction evs g arbitrary: effs rule: server_events.induct)
  case (2 mem wsi lws reason inp len evs g)
  from "2.prems"(1) obtain ret effs1 u effs2 where
    u: "raw_socket_server_callback mem lws wsi reason inp len g = Done (ret, effs1, u)"
    "server_events evs u = Done (effs2, t)" "effs = effs1 @ effs2"
    by (auto simp: result_bind_eq_Done)
  from server_callback_told[OF u(1) "2.prems"(2)] have
    "server_calls_of c effs1 = told (mem, wsi, lws, reason, inp, len)" "ss_callback u = Some c" by auto
  then show ?case using "2.IH"[OF u(2)] u(3) by (simp add: server_calls_of_append)
qed simp

section \<open>Properties\<close>

text \<open>A server with one client and a small buffer for the witnesses.\<close>

definition server_one :: server_state where
  "server_one = \<lparr>ss_clients = [5 \<mapsto> ring16], ss_callback = Some 7\<rparr>"

lemma server_one_live: "server_live 5 server_one []"
  using ring16_inv by (simp add: server_live_def server_one_def messages_def List.map_filter_def)

text \<open>
  What the server sends to a client arrives at \<open>lws_write\<close> whole, once and in order, under
  any interleaving of sends within the room of the client's buffer with its writeable events.
\<close>

theorem server_session_delivers:
  assumes "server_live wsi g fs"
    and "channel_legal (server_fits wsi) (server_send ndebug wsi) (server_pump mem wsi) ms g"
  shows "\<exists>n0. \<forall>n \<ge> n0. \<exists>effs t.
     server_session ndebug mem wsi (ms @ replicate n (Writeable lws)) g = Done (effs, t)
     \<and> written effs = messages fs @ sends ms"
  by (rule served.delivers[OF assms])

theorem server_session_delivers_witness:
  "\<exists>n0. \<forall>n \<ge> n0. \<exists>effs t.
     server_session False [] 5 ([Send [1, 2], Writeable lws_ok, Send [3]] @ replicate n (Writeable lws_ok))
       server_one = Done (effs, t)
     \<and> written effs = messages [] @ sends [Send [1, 2], Writeable lws_ok, Send [3]]"
proof (rule server_session_delivers[OF server_one_live])
  show "channel_legal (server_fits 5) (server_send False 5) (server_pump [] 5)
     [Send [1, 2], Writeable lws_ok, Send [3]] server_one" by code_simp
qed

text \<open>
  Events of some clients never touch the buffer of another one, and no event whatever, the
  closing of the connection included, removes a client from the map.
\<close>

theorem server_events_isolated:
  assumes "server_events evs g = Done (effs, t)"
  shows "(\<forall>w. w \<notin> (\<lambda>e. fst (snd e)) ` set evs \<longrightarrow> ss_clients t w = ss_clients g w)
     \<and> (\<forall>w. ss_clients g w \<noteq> None \<longrightarrow> ss_clients t w \<noteq> None)"
  by (rule server_events_keep[OF assms])

theorem server_events_isolated_witness:
  "\<exists>effs t. server_events [([], 5, lws_ok, Raw_rx, Some ''tick'', 4), ([], 5, lws_ok, Raw_close, None, 0)]
       server_one = Done (effs, t)
     \<and> ss_clients t 6 = ss_clients server_one 6 \<and> ss_clients t 5 \<noteq> None"
proof -
  let ?evs = "[([], 5, lws_ok, Raw_rx, Some ''tick'', 4), ([], 5, lws_ok, Raw_close, None, 0)] :: server_event list"
  have run: "server_events ?evs server_one
      = Done ([Client_data 7 5 ''tick'', Client_disconnected 7 5], server_one)"
    by (simp add: raw_socket_server_callback_def user_call_def server_one_def in_text_def)
  from server_events_isolated[OF run] show ?thesis
    using run by (auto simp: server_one_def)
qed



text \<open>
  The callback asks libwebsockets to close the connection after every message it writes: it
  returns 1 whenever it has written something.
\<close>

theorem server_write_closes:
  assumes "server_live wsi g fs"
    and "raw_socket_server_callback mem lws wsi Raw_writeable inp 0 g = Done (ret, effs, t)"
    and "written effs \<noteq> []"
  shows "ret = 1 \<and> (\<exists>m ms. messages fs = m # ms \<and> effs = [Written m, Want_write wsi])"
proof -
  obtain gs where gs: "messages fs = written effs @ messages gs" "ret = 1"
    using server_writeable_live[OF assms(1), of mem lws inp] assms(2,3) by auto
  have "effs = [] \<or> (\<exists>m. effs = [Written m, Want_write wsi]) \<or> ret = - 1"
    using assms(2)
    by (auto simp: raw_socket_server_callback_def server_writeable_def result_bind_eq_Done Let_def
        split: option.splits if_splits)
  with assms(3) gs(2) obtain m where m: "effs = [Written m, Want_write wsi]" by auto
  with gs show ?thesis by simp
qed

theorem server_write_closes_witness:
  "\<exists>g fs t. messages fs = [[1]]
     \<and> raw_socket_server_callback [] lws_ok 5 Raw_writeable None 0 g = Done (1, [Written [1], Want_write 5], t)"
proof -
  have "write_ok room [1] 0 ring16 None" by code_simp
  from ring.write_law[OF ring16_inv this, of False] obtain s new where
    s: "ring_write False [1] 0 ring16 = Done (True, s)" "fifo_inv s new None" "messages new = [[1]]"
    by (auto simp: joined_def next_partial_def messages_def)
  have "result_bind (ring_write False [1] 0 ring16) (\<lambda>(_, s). result_bind (ring_read s) (\<lambda>(m, _). Done m))
      = Done (Some [1])" by code_simp
  with s(1) obtain u where u: "ring_read s = Done (Some [1], u)" by (auto simp: result_bind_eq_Done)
  let ?g = "set_client 5 s server_one"
  have live: "server_live 5 ?g new" using s by (simp add: server_live_def)
  have "raw_socket_server_callback [] lws_ok 5 Raw_writeable None 0 ?g
      = Done (1, [Written [1], Want_write 5], set_client 5 u ?g)"
    using u by (simp add: raw_socket_server_callback_def server_writeable_def Let_def)
  with server_write_closes[OF live this] s(3) show ?thesis by blast
qed

text \<open>
  Messages still queued when a client disconnects are sent to whoever connects next under
  the same connection pointer, because the closing leaves the client in the map and \<open>emplace\<close>
  keeps the old buffer.
\<close>

theorem server_stale_messages:
  assumes "server_live wsi g fs" and "ss_callback g = Some c"
  shows "\<exists>t. server_events [(mem, wsi, lws, Raw_close, None, 0), (mem, wsi, lws, Raw_adopt, None, 0)] g
       = Done ([Client_disconnected c wsi, Client_connected c wsi], t)
     \<and> (\<exists>n effs u. server_session ndebug mem wsi (replicate n (Writeable lws)) t = Done (effs, u)
          \<and> written effs = messages fs)"
proof -
  from assms(1) obtain s where s: "ss_clients g wsi = Some s" by (auto simp: server_live_def)
  then have "server_events [(mem, wsi, lws, Raw_close, None, 0), (mem, wsi, lws, Raw_adopt, None, 0)] g
      = Done ([Client_disconnected c wsi, Client_connected c wsi], g)"
    using assms(2) by (simp add: raw_socket_server_callback_def server_adopt_def user_call_def)
  then show ?thesis using served.drains[OF assms(1) order_refl, of ndebug mem lws] by blast
qed

theorem server_stale_messages_witness:
  "\<exists>g. \<exists>t. server_events [([], 5, lws_ok, Raw_close, None, 0), ([], 5, lws_ok, Raw_adopt, None, 0)] g
       = Done ([Client_disconnected 7 5, Client_connected 7 5], t)
     \<and> (\<exists>n effs u. server_session False [] 5 (replicate n (Writeable lws_ok)) t = Done (effs, u)
          \<and> written effs = [[1]])"
proof -
  obtain g fs where g: "server_send False 5 [1] server_one = Done (True, [Want_write 5], g)"
    "server_live 5 g fs" "messages fs = messages [] @ [[1]]"
    using server_send_live[OF server_one_live, of "[1]" False]
    by (auto simp: server_fits_def server_one_def room_def padding_def ring16_def string_ring_new_def)
  then have "ss_callback g = Some 7"
    by (auto simp: server_send_def result_bind_eq_Done server_one_def)
  note stale = server_stale_messages[OF g(2) this, of "[]" lws_ok False]
  have m: "messages fs = [[1]]" using g(3) by (simp add: messages_def List.map_filter_def)
  show ?thesis using stale[unfolded m] by (rule exI[of _ g])
qed

text \<open>
  \<open>send\<close> reports success for a message that does not fit the client's buffer, and for the
  one after it; neither is ever written.
\<close>

theorem server_send_reports_lost:
  assumes "ss_clients g wsi = Some s" and "fifo_inv s fs None" and "[] \<notin> set (messages fs)"
    and "big \<noteq> []" and "ring_cap s \<le> length big + 5" and "length big + 5 < 2 ^ 64"
    and "msg \<noteq> []" and "length msg < 2 ^ 64"
  shows "\<exists>h t. server_send True wsi big g = Done (True, [Want_write wsi], h)
     \<and> server_send True wsi msg h = Done (True, [Want_write wsi], t)
     \<and> (\<exists>n0. \<forall>n \<ge> n0. \<exists>effs u. server_session True mem wsi (replicate n (Writeable lws)) t = Done (effs, u)
          \<and> written effs = messages fs)"
proof -
  obtain p where p: "write_string True big 0 [] s = Done (False, p, [])" "poisoned s p"
    using write_too_long[OF assms(2,4), of 0 "[]"] assms(5,6) by auto
  obtain u where u: "write_string True msg 0 [] p = Done (True, u, [])" "fifo_inv u fs None"
    using write_when_poisoned[OF assms(2) p(2) assms(7,8), of "[]"] by blast
  let ?h = "set_client wsi p g" and ?t = "set_client wsi u (set_client wsi p g)"
  have h: "server_send True wsi big g = Done (True, [Want_write wsi], ?h)"
    using assms(1) p(1) by (simp add: server_send_def ring_write_def)
  have t: "server_send True wsi msg ?h = Done (True, [Want_write wsi], ?t)"
    using u(1) by (simp add: server_send_def ring_write_def)
  have "server_live wsi ?t fs" using u(2) assms(3) by (simp add: server_live_def)
  then have "\<exists>n0. \<forall>n \<ge> n0. \<exists>effs u. server_session True mem wsi (replicate n (Writeable lws)) ?t = Done (effs, u)
      \<and> written effs = messages fs"
    using served.drains[where ndebug = True and mem = mem and wsi = wsi] by blast
  with h t show ?thesis by blast
qed

theorem server_send_reports_lost_witness:
  "\<exists>h t. server_send True 5 (replicate 11 1) server_one = Done (True, [Want_write 5], h)
     \<and> server_send True 5 [2] h = Done (True, [Want_write 5], t)
     \<and> (\<exists>n0. \<forall>n \<ge> n0. \<exists>effs u. server_session True [] 5 (replicate n (Writeable lws_ok)) t = Done (effs, u)
          \<and> written effs = messages [])"
proof (rule server_send_reports_lost[OF _ ring16_inv])
  show "ss_clients server_one 5 = Some ring16" by (simp add: server_one_def)
  show "ring_cap ring16 \<le> length (replicate 11 (1 :: byte)) + 5"
    by (simp add: ring16_def string_ring_new_def)
qed (simp_all add: messages_def List.map_filter_def)

text \<open>
  \<open>serve\<close> returns at the latest when \<open>stop\<close> has been called or \<open>lws_service\<close> has failed: the
  iteration in which that happens is the last one.
\<close>

theorem server_serve_stops:
  assumes "server_events evs (g\<lparr>ss_callback := sr_callback s\<rparr>) = Done (effs, h)" and "sr_run s"
    and "stop \<or> n < 0"
  shows "\<exists>r. server_serve True ((evs, n, stop) # its) s g = Done (effs, r, h)
     \<and> (stop \<longrightarrow> \<not> sr_run r)"
  using assms by (auto simp: server_serve_def server_loop.simps server_stop_def)

theorem server_serve_stops_witness:
  "\<exists>r. server_serve True (([([], 5, lws_ok, Raw_adopt, None, 0)], 0, True) # [])
       (socket_server_new (Some 7)) server_one = Done ([Client_connected 7 5], r, server_one)
     \<and> (True \<longrightarrow> \<not> sr_run r)"
  by (rule server_serve_stops)
    (simp_all add: raw_socket_server_callback_def server_adopt_def user_call_def server_one_def
      socket_server_new_def)



end
