(* ===== verification/Echo_Session.thy ===== *)
theory Echo_Session
  imports Socket_Server Socket_Callback "HOL-Library.Sublist"
begin

text \<open>
  A raw client connected to a raw server, with the callbacks that tests/http_client_tests.cpp gives
  them ("RAW socket"): the client says hello when it is connected, the server echoes what it
  receives. Between the two is TCP: the bytes handed to \<open>lws_write\<close> arrive in order, in pieces
  of any size. Libwebsockets closes a connection whose callback returns a value other than 0.
\<close>

section \<open>State\<close>

text \<open>
  Both ends, the bytes on their way in each direction, and what the users have seen: the
  messages \<open>send\<close> has accepted, the arguments of \<open>on_data\<close> on either side, the \<open>run_\<close> of the
  test's client, and whether every \<open>REQUIRE\<close> has held.
\<close>

record loopback =
  lb_client :: request_info
  lb_server :: server_state
  lb_client_open :: bool
  lb_server_open :: bool
  lb_up :: "byte list"
  lb_down :: "byte list"
  lb_sent :: "byte list list"
  lb_heard :: "string list"
  lb_got :: "string list"
  lb_run :: bool
  lb_required :: bool

definition loopback_new :: "request_info \<Rightarrow> server_state \<Rightarrow> loopback" where
  "loopback_new r g = \<lparr>lb_client = r, lb_server = g, lb_client_open = True, lb_server_open = True,
     lb_up = [], lb_down = [], lb_sent = [], lb_heard = [], lb_got = [], lb_run = True, lb_required = True\<rparr>"

section \<open>The user's callbacks\<close>

definition client_says :: "bool \<Rightarrow> byte list \<Rightarrow> loopback \<Rightarrow> loopback result" where
  "client_says ndebug msg st = result_bind (socket_send ndebug msg (lb_client st))
     (\<lambda>(b, _, r). Done (st\<lparr>lb_client := r, lb_sent := lb_sent st @ (if b then [msg] else [])\<rparr>))"

definition client_on_connected :: "bool \<Rightarrow> loopback \<Rightarrow> loopback result" where
  "client_on_connected ndebug st = client_says ndebug (bytes_of ''hello'') st"

definition client_on_data :: "string \<Rightarrow> loopback \<Rightarrow> loopback" where
  "client_on_data msg st = st\<lparr>lb_got := lb_got st @ [msg],
     lb_required := lb_required st \<and> msg = ''hello'', lb_run := False\<rparr>"

definition server_on_data :: "bool \<Rightarrow> nat \<Rightarrow> string \<Rightarrow> loopback \<Rightarrow> loopback result" where
  "server_on_data ndebug h msg st =
     (let st = st\<lparr>lb_heard := lb_heard st @ [msg], lb_required := lb_required st \<and> msg = ''hello''\<rparr> in
      result_bind (server_send ndebug h (bytes_of msg) (lb_server st))
        (\<lambda>(_, _, g). Done (st\<lparr>lb_server := g\<rparr>)))"

text \<open>The calls among the effects of a callback.\<close>

fun client_calls :: "effect list \<Rightarrow> loopback \<Rightarrow> loopback" where
  "client_calls [] st = st"
| "client_calls (Received _ msg _ # effs) st = client_calls effs (client_on_data msg st)"
| "client_calls (_ # effs) st = client_calls effs st"

fun server_calls :: "bool \<Rightarrow> effect list \<Rightarrow> loopback \<Rightarrow> loopback result" where
  "server_calls ndebug [] st = Done st"
| "server_calls ndebug (Client_data _ h msg # effs) st =
     result_bind (server_on_data ndebug h msg st) (server_calls ndebug effs)"
| "server_calls ndebug (_ # effs) st = server_calls ndebug effs st"

section \<open>Moves\<close>

text \<open>
  A user of the client sends, either end may write, or a piece of at most so many bytes arrives at
  either end. An end whose callback asks for it is closed.
\<close>

datatype loop_move =
  Say "byte list" | Client_writes lws_api | Server_receives lws_api u64
| Server_writes lws_api | Client_receives lws_api u64

definition client_hangs_up :: "lws_api \<Rightarrow> nat \<Rightarrow> int \<Rightarrow> loopback \<Rightarrow> loopback result" where
  "client_hangs_up lws wsi ret st =
     (if ret = 0 then Done st
      else result_bind (raw_socket_callback lws wsi Raw_close None 0 (lb_client st))
        (\<lambda>(_, _, r). Done (st\<lparr>lb_client := r, lb_client_open := False\<rparr>)))"

definition server_hangs_up :: "lws_api \<Rightarrow> nat \<Rightarrow> int \<Rightarrow> loopback \<Rightarrow> loopback result" where
  "server_hangs_up lws h ret st =
     (if ret = 0 then Done st
      else result_bind (raw_socket_server_callback [] lws h Raw_close None 0 (lb_server st))
        (\<lambda>(_, _, g). Done (st\<lparr>lb_server := g, lb_server_open := False\<rparr>)))"

definition text_of :: "byte list \<Rightarrow> string" where
  "text_of bs = map (\<lambda>b. char_of (unat b)) bs"

abbreviation piece :: "u64 \<Rightarrow> byte list \<Rightarrow> string" where
  "piece n bs \<equiv> text_of (take (unat n) bs)"

fun loop_step :: "bool \<Rightarrow> nat \<Rightarrow> nat \<Rightarrow> loop_move \<Rightarrow> loopback \<Rightarrow> loopback result" where
  "loop_step ndebug wsi h (Say msg) st = client_says ndebug msg st"
| "loop_step ndebug wsi h (Client_writes lws) st =
     (if \<not> lb_client_open st then Done st
      else result_bind (raw_socket_callback lws wsi Raw_writeable None 0 (lb_client st))
        (\<lambda>(ret, effs, r). client_hangs_up lws wsi ret
           (st\<lparr>lb_client := r, lb_up := lb_up st @ concat (written effs)\<rparr>)))"
| "loop_step ndebug wsi h (Server_receives lws n) st =
     (let bs = piece n (lb_up st) in
      if \<not> lb_server_open st \<or> bs = [] then Done st
      else result_bind (raw_socket_server_callback [] lws h Raw_rx (Some bs) (of_nat (length bs)) (lb_server st))
        (\<lambda>(ret, effs, g). result_bind
           (server_calls ndebug effs (st\<lparr>lb_server := g, lb_up := drop (unat n) (lb_up st)\<rparr>))
           (server_hangs_up lws h ret)))"
| "loop_step ndebug wsi h (Server_writes lws) st =
     (if \<not> lb_server_open st then Done st
      else result_bind (raw_socket_server_callback [] lws h Raw_writeable None 0 (lb_server st))
        (\<lambda>(ret, effs, g). server_hangs_up lws h ret
           (st\<lparr>lb_server := g, lb_down := lb_down st @ concat (written effs)\<rparr>)))"
| "loop_step ndebug wsi h (Client_receives lws n) st =
     (let bs = piece n (lb_down st) in
      if \<not> lb_client_open st \<or> bs = [] then Done st
      else result_bind (raw_socket_callback lws wsi Raw_rx (Some bs) (of_nat (length bs)) (lb_client st))
        (\<lambda>(ret, effs, r). client_hangs_up lws wsi ret
           (client_calls effs (st\<lparr>lb_client := r, lb_down := drop (unat n) (lb_down st)\<rparr>))))"

fun loop_run :: "bool \<Rightarrow> nat \<Rightarrow> nat \<Rightarrow> loop_move list \<Rightarrow> loopback \<Rightarrow> loopback result" where
  "loop_run ndebug wsi h [] st = Done st"
| "loop_run ndebug wsi h (m # ms) st = result_bind (loop_step ndebug wsi h m st) (loop_run ndebug wsi h ms)"

text \<open>Moves within the capacity of the two send buffers.\<close>

fun move_fits :: "nat \<Rightarrow> loop_move \<Rightarrow> loopback \<Rightarrow> bool" where
  "move_fits h (Say msg) st \<longleftrightarrow> msg \<noteq> [] \<and> raw_fits (lb_client st) msg"
| "move_fits h (Server_receives lws n) st \<longleftrightarrow>
     \<not> lb_server_open st \<or> take (unat n) (lb_up st) = []
     \<or> server_fits h (lb_server st) (take (unat n) (lb_up st))"
| "move_fits h _ st \<longleftrightarrow> True"

fun moves_fit :: "bool \<Rightarrow> nat \<Rightarrow> nat \<Rightarrow> loop_move list \<Rightarrow> loopback \<Rightarrow> bool" where
  "moves_fit ndebug wsi h [] st \<longleftrightarrow> True"
| "moves_fit ndebug wsi h (m # ms) st \<longleftrightarrow> move_fits h m st \<and>
     (case loop_step ndebug wsi h m st of Done st' \<Rightarrow> moves_fit ndebug wsi h ms st' | _ \<Rightarrow> True)"

section \<open>Invariant\<close>

text \<open>
  Upwards nothing is lost or reordered while the client is open. Downwards nothing is written
  before the server closes, and what is written is its first echo.
\<close>

definition up_ok :: "nat \<Rightarrow> loopback \<Rightarrow> bool" where
  "up_ok wsi st \<longleftrightarrow> (\<exists>rest. concat (lb_sent st) = concat (map bytes_of (lb_heard st)) @ lb_up st @ rest
     \<and> (if lb_client_open st
        then (\<exists>fs. raw_live wsi (lb_client st) fs \<and> rest = concat (messages fs))
        else ri_wsi (lb_client st) = None))"

fun first_echo :: "string list \<Rightarrow> byte list" where
  "first_echo [] = []"
| "first_echo (m # ms) = bytes_of m"

definition down_ok :: "nat \<Rightarrow> loopback \<Rightarrow> bool" where
  "down_ok h st \<longleftrightarrow>
     (if lb_server_open st
      then lb_down st = [] \<and> lb_got st = []
        \<and> (\<exists>gs. server_live h (lb_server st) gs \<and> messages gs = map bytes_of (lb_heard st))
      else prefix (concat (map bytes_of (lb_got st)) @ lb_down st)
        (first_echo (lb_heard st)))"

definition loop_inv :: "nat \<Rightarrow> nat \<Rightarrow> loopback \<Rightarrow> bool" where
  "loop_inv wsi h st \<longleftrightarrow> si_callback (ri_socket (lb_client st)) \<noteq> None
     \<and> ss_callback (lb_server st) \<noteq> None \<and> up_ok wsi st \<and> down_ok h st"

lemma bytes_text [simp]: "bytes_of (text_of bs) = bs"
proof -
  have "of_char (char_of (unat b) :: char) = b" for b :: byte
  proof -
    have "of_char (char_of (unat b) :: char) = (of_nat (of_char (char_of (unat b) :: char)) :: byte)"
      by (rule of_nat_of_char [symmetric])
    also have "\<dots> = b" using unsigned_less[of b, where 'a = nat] by (simp del: of_nat_of_char)
    finally show ?thesis .
  qed
  then show ?thesis by (simp add: bytes_of_def text_of_def comp_def)
qed

lemma text_of_Nil [simp]: "text_of bs = [] \<longleftrightarrow> bs = []" "length (text_of bs) = length bs"
  by (simp_all add: text_of_def)

lemma in_text_piece [simp]:
  "in_text (Some (piece n bs)) (of_nat (length (piece n bs))) = piece n bs"
proof -
  have "length (piece n bs) < 2 ^ 64" using unsigned_less[of n, where 'a = nat] by simp
  then show ?thesis by (simp add: in_text_def unat_of_nat)
qed

section \<open>Every move keeps the invariant\<close>

lemma says_keeps:
  assumes inv: "loop_inv wsi h st" and msg: "msg \<noteq> []" "raw_fits (lb_client st) msg"
  shows "\<exists>t. client_says ndebug msg st = Done t \<and> loop_inv wsi h t"
proof (cases "lb_client_open st")
  case True
  then obtain fs where fs: "raw_live wsi (lb_client st) fs"
    "concat (lb_sent st) = concat (map bytes_of (lb_heard st)) @ lb_up st @ concat (messages fs)"
    using inv by (auto simp: loop_inv_def up_ok_def)
  from socket_send_live[OF fs(1) msg, of ndebug] obtain r gs where
    "socket_send ndebug msg (lb_client st) = Done (True, [Want_write wsi, Cancel_service], r)"
    "raw_live wsi r gs" "messages gs = messages fs @ [msg]"
    "si_callback (ri_socket r) = si_callback (ri_socket (lb_client st))" by blast
  then show ?thesis using inv fs True
    by (auto simp: client_says_def loop_inv_def up_ok_def down_ok_def)
next
  case False
  then have "socket_send ndebug msg (lb_client st) = Done (False, [], lb_client st)"
    using inv by (simp add: loop_inv_def up_ok_def socket_send_def)
  then show ?thesis using inv by (simp add: client_says_def loop_inv_def up_ok_def down_ok_def)
qed

lemma client_hangs_up_keeps:
  assumes inv: "loop_inv wsi h st" and "lb_client_open st"
  shows "\<exists>t. client_hangs_up lws wsi ret st = Done t \<and> loop_inv wsi h t"
proof (cases "ret = 0")
  case True
  then show ?thesis using inv by (simp add: client_hangs_up_def)
next
  case False
  from assms obtain c fs where c: "si_callback (ri_socket (lb_client st)) = Some c"
    "raw_live wsi (lb_client st) fs" by (auto simp: loop_inv_def up_ok_def)
  then show ?thesis using assms False
    by (auto simp: client_hangs_up_def raw_socket_callback_def raw_closed_def tell_user_def user_call_def
        socket_upd_def Let_def raw_live_def loop_inv_def up_ok_def down_ok_def)
qed

lemma server_hangs_up_keeps:
  assumes "ss_callback (lb_server st) = Some c" "si_callback (ri_socket (lb_client st)) \<noteq> None" "up_ok wsi st"
    and zero: "ret = 0 \<Longrightarrow> down_ok h st"
    and close: "ret \<noteq> 0 \<Longrightarrow> prefix (concat (map bytes_of (lb_got st)) @ lb_down st)
        (first_echo (lb_heard st))"
  shows "\<exists>t. server_hangs_up lws h ret st = Done t \<and> loop_inv wsi h t"
  using assms
  by (cases "ret = 0") (auto simp: server_hangs_up_def raw_socket_server_callback_def user_call_def loop_inv_def
      up_ok_def down_ok_def)

lemma client_writes_keeps:
  assumes inv: "loop_inv wsi h st"
  shows "\<exists>t. loop_step ndebug wsi h (Client_writes lws) st = Done t \<and> loop_inv wsi h t"
proof (cases "lb_client_open st")
  case True
  then obtain fs where fs: "raw_live wsi (lb_client st) fs"
    "concat (lb_sent st) = concat (map bytes_of (lb_heard st)) @ lb_up st @ concat (messages fs)"
    using inv by (auto simp: loop_inv_def up_ok_def)
  from raw_writeable_live[OF fs(1), of lws None] obtain effs r gs where
    r: "raw_socket_callback lws wsi Raw_writeable None 0 (lb_client st) = Done (la_dummy lws, effs, r)"
    "raw_live wsi r gs" "si_callback (ri_socket r) = si_callback (ri_socket (lb_client st))"
    "messages fs = written effs @ messages gs" by blast
  let ?st = "st\<lparr>lb_client := r, lb_up := lb_up st @ concat (written effs)\<rparr>"
  have "loop_inv wsi h ?st" using inv fs(2) r(2-4) True
    by (auto simp: loop_inv_def up_ok_def down_ok_def)
  from client_hangs_up_keeps[OF this, of lws "la_dummy lws"] r(1) True show ?thesis by simp
qed (use inv in simp)

lemma server_writes_keeps:
  assumes inv: "loop_inv wsi h st"
  shows "\<exists>t. loop_step ndebug wsi h (Server_writes lws) st = Done t \<and> loop_inv wsi h t"
proof (cases "lb_server_open st")
  case True
  then obtain gs c where gs: "server_live h (lb_server st) gs" "messages gs = map bytes_of (lb_heard st)"
    "lb_down st = []" "lb_got st = []" and c: "ss_callback (lb_server st) = Some c"
    using inv by (auto simp: loop_inv_def down_ok_def)
  from server_writeable_live[OF gs(1), of "[]" lws None] obtain ret effs g hs where
    g: "raw_socket_server_callback [] lws h Raw_writeable None 0 (lb_server st) = Done (ret, effs, g)"
    "server_live h g hs" "messages gs = written effs @ messages hs" "written effs \<noteq> [] \<longrightarrow> ret = 1" by blast
  have cb: "ss_callback g = Some c" using server_callback_update[OF g(1)] c by auto
  show ?thesis
  proof (cases "written effs = []")
    case True
    have "\<exists>t. server_hangs_up lws h ret (st\<lparr>lb_server := g, lb_down := []\<rparr>) = Done t \<and> loop_inv wsi h t"
      using inv cb g(2,3) gs True
      by (intro server_hangs_up_keeps[of _ c]) (auto simp: loop_inv_def up_ok_def down_ok_def)
    then show ?thesis using g(1) gs(3) True \<open>lb_server_open st\<close> by simp
  next
    case False
    then obtain m ms where m: "messages gs = m # ms" "written effs = [m]" "ret = 1"
      using server_write_closes[OF gs(1) g(1)] by auto
    then have "first_echo (lb_heard st) = m" using gs(2) by (cases "lb_heard st") auto
    then have "\<exists>t. server_hangs_up lws h ret (st\<lparr>lb_server := g, lb_down := m\<rparr>) = Done t \<and> loop_inv wsi h t"
      using inv cb gs m(3) by (intro server_hangs_up_keeps[of _ c]) (auto simp: loop_inv_def up_ok_def)
    then show ?thesis using g(1) gs(3) m(2) \<open>lb_server_open st\<close> by simp
  qed
qed (use inv in simp)

lemma server_receives_keeps:
  assumes inv: "loop_inv wsi h st" and fits: "move_fits h (Server_receives lws n) st"
  shows "\<exists>t. loop_step ndebug wsi h (Server_receives lws n) st = Done t \<and> loop_inv wsi h t"
proof (cases "lb_server_open st \<and> take (unat n) (lb_up st) \<noteq> []")
  case True
  let ?bs = "take (unat n) (lb_up st)"
  obtain gs c where gs: "server_live h (lb_server st) gs" "messages gs = map bytes_of (lb_heard st)"
    "lb_down st = []" "lb_got st = []" and c: "ss_callback (lb_server st) = Some c"
    using inv True by (auto simp: loop_inv_def down_ok_def)
  have "server_fits h (lb_server st) ?bs" using fits True by simp
  from server_send_live[OF gs(1) _ this, of ndebug] True obtain g hs where
    g: "server_send ndebug h ?bs (lb_server st) = Done (True, [Want_write h], g)"
    "server_live h g hs" "messages hs = messages gs @ [?bs]" by blast
  have cb: "ss_callback g = Some c" using g(1) c
    by (auto simp: server_send_def result_bind_eq_Done split: option.splits)
  let ?st = "st\<lparr>lb_up := drop (unat n) (lb_up st), lb_heard := lb_heard st @ [text_of ?bs],
     lb_required := lb_required st \<and> text_of ?bs = ''hello'', lb_server := g\<rparr>"
  have "raw_socket_server_callback [] lws h Raw_rx (Some (piece n (lb_up st))) (of_nat (length (piece n (lb_up st))))
      (lb_server st) = Done (la_dummy lws, [Client_data c h (text_of ?bs)], lb_server st)"
    using c by (simp add: raw_socket_server_callback_def user_call_def del: text_of_Nil)
  then have step: "loop_step ndebug wsi h (Server_receives lws n) st = server_hangs_up lws h (la_dummy lws) ?st"
    using True g(1) by (simp add: server_on_data_def Let_def del: text_of_Nil(2))
  have "up_ok wsi ?st"
  proof -
    obtain rest where "concat (lb_sent st) = concat (map bytes_of (lb_heard st)) @ lb_up st @ rest"
      "if lb_client_open st then \<exists>fs. raw_live wsi (lb_client st) fs \<and> rest = concat (messages fs)
       else ri_wsi (lb_client st) = None" using inv by (auto simp: loop_inv_def up_ok_def)
    then show ?thesis unfolding up_ok_def by (intro exI[of _ rest]) simp
  qed
  then have "\<exists>t. server_hangs_up lws h (la_dummy lws) ?st = Done t \<and> loop_inv wsi h t"
    using inv cb gs g(2,3) True
    by (intro server_hangs_up_keeps[of _ c]) (auto simp: loop_inv_def down_ok_def)
  then show ?thesis by (simp only: step)
next
  case False
  then have "loop_step ndebug wsi h (Server_receives lws n) st = Done st" by (auto simp: Let_def)
  then show ?thesis using inv by simp
qed

lemma client_receives_keeps:
  assumes inv: "loop_inv wsi h st"
  shows "\<exists>t. loop_step ndebug wsi h (Client_receives lws n) st = Done t \<and> loop_inv wsi h t"
proof (cases "lb_client_open st \<and> take (unat n) (lb_down st) \<noteq> []")
  case True
  let ?bs = "take (unat n) (lb_down st)"
  obtain fs c where fs: "raw_live wsi (lb_client st) fs" "si_callback (ri_socket (lb_client st)) = Some c"
    using inv True by (auto simp: loop_inv_def up_ok_def)
  have shut: "\<not> lb_server_open st" using inv True by (auto simp: loop_inv_def down_ok_def)
  let ?st = "client_on_data (text_of ?bs) (st\<lparr>lb_down := drop (unat n) (lb_down st)\<rparr>)"
  have "raw_socket_callback lws wsi Raw_rx (Some (piece n (lb_down st))) (of_nat (length (piece n (lb_down st))))
      (lb_client st) = Done (la_dummy lws, [Received c (text_of ?bs) 0], lb_client st)"
    using fs by (simp add: raw_socket_callback_def raw_live_def tell_user_def user_call_def del: text_of_Nil)
  then have step: "loop_step ndebug wsi h (Client_receives lws n) st = client_hangs_up lws wsi (la_dummy lws) ?st"
    using True by (simp add: Let_def del: text_of_Nil(2))
  have "loop_inv wsi h ?st" using inv shut
    by (auto simp: loop_inv_def up_ok_def down_ok_def client_on_data_def)
  from client_hangs_up_keeps[OF this] True show ?thesis unfolding step by (simp add: client_on_data_def)
next
  case False
  then have "loop_step ndebug wsi h (Client_receives lws n) st = Done st" by (auto simp: Let_def)
  then show ?thesis using inv by simp
qed

lemma move_keeps:
  assumes "loop_inv wsi h st" and "move_fits h m st"
  shows "\<exists>t. loop_step ndebug wsi h m st = Done t \<and> loop_inv wsi h t"
proof (cases m)
  case (Say msg)
  then show ?thesis using says_keeps[OF assms(1)] assms(2) by simp
qed (use assms client_writes_keeps server_writes_keeps server_receives_keeps client_receives_keeps
    in \<open>simp_all del: loop_step.simps\<close>)

lemma moves_keep:
  assumes "loop_inv wsi h st" and "moves_fit ndebug wsi h ms st"
  shows "\<exists>t. loop_run ndebug wsi h ms st = Done t \<and> loop_inv wsi h t"
  using assms
proof (induction ms arbitrary: st)
  case (Cons m ms)
  then obtain t where "loop_step ndebug wsi h m st = Done t" "loop_inv wsi h t"
    using move_keeps[OF Cons.prems(1)] by fastforce
  then show ?case using Cons by simp
qed simp

section \<open>An echo\<close>

lemma loop_run_append:
  "loop_run ndebug wsi h (as @ bs) st = result_bind (loop_run ndebug wsi h as st) (loop_run ndebug wsi h bs)"
  by (induction as arbitrary: st) (auto simp: result_bind_assoc intro!: result_bind_cong)

lemma server_writeable_answer:
  assumes "raw_socket_server_callback mem lws h Raw_writeable inp 0 g = Done (ret, effs, t)" "written effs = []"
  shows "ret = la_dummy lws"
proof (cases "ss_clients g h")
  case None
  then show ?thesis using assms by (simp add: raw_socket_server_callback_def server_writeable_def)
next
  case (Some s)
  then obtain msg u where "ring_read s = Done (msg, u)"
    using assms by (auto simp: raw_socket_server_callback_def server_writeable_def result_bind_eq_Done)
  then show ?thesis using assms Some
    by (cases msg) (auto simp: raw_socket_server_callback_def server_writeable_def Let_def split: if_splits)
qed

lemma client_flushes:
  assumes "raw_live wsi (lb_client st) fs" "lb_client_open st" "length fs \<le> k" "la_dummy lws = 0"
  shows "\<exists>r. loop_run ndebug wsi h (replicate k (Client_writes lws)) st
      = Done (st\<lparr>lb_client := r, lb_up := lb_up st @ concat (messages fs)\<rparr>) \<and> raw_live wsi r []
    \<and> si_callback (ri_socket r) = si_callback (ri_socket (lb_client st))"
  using assms
proof (induction k arbitrary: st fs)
  case 0
  then show ?case by (intro exI[of _ "lb_client st"]) simp
next
  case (Suc k)
  from raw_writeable_live[OF Suc.prems(1), of lws None] obtain effs r gs where
    r: "raw_socket_callback lws wsi Raw_writeable None 0 (lb_client st) = Done (la_dummy lws, effs, r)"
    "raw_live wsi r gs" "si_callback (ri_socket r) = si_callback (ri_socket (lb_client st))"
    "messages fs = written effs @ messages gs" "gs = [] \<or> length gs < length fs" by blast
  let ?st = "st\<lparr>lb_client := r, lb_up := lb_up st @ concat (written effs)\<rparr>"
  have "loop_step ndebug wsi h (Client_writes lws) st = Done ?st"
    using r(1) Suc.prems(2,4) by (simp add: client_hangs_up_def)
  moreover have "length gs \<le> k" using r(5) Suc.prems(3) by auto
  ultimately show ?case using Suc.IH[of ?st gs] Suc.prems(2,4) r(2-4) by auto
qed

lemma server_flushes:
  assumes "server_live h (lb_server st) gs" "messages gs = [m]" "lb_server_open st" "length gs \<le> k"
    and "la_dummy lws = 0" "ss_callback (lb_server st) = Some c"
  shows "\<exists>g. loop_run ndebug wsi h (replicate k (Server_writes lws)) st
      = Done (st\<lparr>lb_server := g, lb_down := lb_down st @ m, lb_server_open := False\<rparr>)"
  using assms
proof (induction k arbitrary: st gs)
  case 0
  then show ?case by simp
next
  case (Suc k)
  have shut: "loop_run ndebug wsi h (replicate k (Server_writes lws)) u = Done u" if "\<not> lb_server_open u" for u
    using that by (induction k) auto
  from server_writeable_live[OF Suc.prems(1), of "[]" lws None] obtain ret effs g hs where
    g: "raw_socket_server_callback [] lws h Raw_writeable None 0 (lb_server st) = Done (ret, effs, g)"
    "server_live h g hs" "messages gs = written effs @ messages hs" "hs = [] \<or> length hs < length gs"
    "written effs \<noteq> [] \<longrightarrow> ret = 1" by blast
  have cb: "ss_callback g = Some c" using server_callback_update[OF g(1)] Suc.prems(6) by auto
  show ?case
  proof (cases "written effs = []")
    case True
    then have hs: "messages hs = [m]" "length hs \<le> k" using g(3,4) Suc.prems(2,4) by auto
    have "ret = 0" using server_writeable_answer[OF g(1) True] Suc.prems(5) by simp
    then have "loop_step ndebug wsi h (Server_writes lws) st = Done (st\<lparr>lb_server := g, lb_down := lb_down st\<rparr>)"
      using g(1) True Suc.prems(3) by (simp add: server_hangs_up_def)
    then show ?thesis using Suc.IH[of "st\<lparr>lb_server := g, lb_down := lb_down st\<rparr>" hs] g(2) hs cb Suc.prems(3,5) by auto
  next
    case False
    then have "written effs = [m]" "ret = 1" using g(3,5) Suc.prems(2) False by (cases "written effs"; auto)+
    then have "loop_step ndebug wsi h (Server_writes lws) st
        = Done (st\<lparr>lb_server := g, lb_down := lb_down st @ m, lb_server_open := False\<rparr>)"
      using g(1) cb Suc.prems(3)
      by (simp add: server_hangs_up_def raw_socket_server_callback_def user_call_def)
    then show ?thesis using shut by auto
  qed
qed

text \<open>A message that arrives in one piece at either end is echoed.\<close>

lemma echo_arrives:
  assumes live: "raw_live wsi r []" "si_callback (ri_socket r) = Some c" "server_live h g []" "ss_callback g = Some d"
    and msg: "msg \<noteq> []" "raw_fits r msg" "server_fits h g msg" "length msg \<le> unat n" and lws: "la_dummy lws = 0"
  shows "\<exists>k0. \<forall>k \<ge> k0. \<exists>st.
     result_bind (client_says ndebug msg (loopback_new r g))
       (loop_run ndebug wsi h (replicate k (Client_writes lws) @ [Server_receives lws n]
          @ replicate k (Server_writes lws) @ [Client_receives lws n])) = Done st
     \<and> lb_heard st = [text_of msg] \<and> lb_got st = [text_of msg] \<and> \<not> lb_run st
     \<and> (lb_required st \<longleftrightarrow> text_of msg = ''hello'')"
proof -
  from socket_send_live[OF live(1) msg(1,2), of ndebug] obtain r1 fs where
    r1: "socket_send ndebug msg r = Done (True, [Want_write wsi, Cancel_service], r1)" "raw_live wsi r1 fs"
    "messages fs = [msg]" "si_callback (ri_socket r1) = Some c" using live(2) by auto
  from server_send_live[OF live(3) msg(1,3), of ndebug] obtain g1 gs where
    g1: "server_send ndebug h msg g = Done (True, [Want_write h], g1)" "server_live h g1 gs"
    "messages gs = [msg]" by auto
  have cb: "ss_callback g1 = Some d" using g1(1) live(4)
    by (auto simp: server_send_def result_bind_eq_Done split: option.splits)
  let ?s1 = "(loopback_new r g)\<lparr>lb_client := r1, lb_sent := [msg]\<rparr>"
  have 1: "client_says ndebug msg (loopback_new r g) = Done ?s1"
    using r1(1) by (simp add: client_says_def loopback_new_def)
  have piece: "piece n msg = text_of msg" using msg(4) by simp
  have len: "(word_of_nat (length msg) :: u64) = of_nat (length (piece n msg))" using msg(4) by simp
  have "\<exists>st. result_bind (client_says ndebug msg (loopback_new r g))
       (loop_run ndebug wsi h (replicate k (Client_writes lws) @ [Server_receives lws n]
          @ replicate k (Server_writes lws) @ [Client_receives lws n])) = Done st
     \<and> lb_heard st = [text_of msg] \<and> lb_got st = [text_of msg] \<and> \<not> lb_run st
     \<and> (lb_required st \<longleftrightarrow> text_of msg = ''hello'')" if k: "length fs \<le> k" "length gs \<le> k" for k
  proof -
    from client_flushes[of wsi ?s1 fs k lws ndebug h] obtain r2 where
      2: "loop_run ndebug wsi h (replicate k (Client_writes lws)) ?s1 = Done (?s1\<lparr>lb_client := r2, lb_up := msg\<rparr>)"
      and r2: "raw_live wsi r2 []" "si_callback (ri_socket r2) = Some c"
      using r1 k(1) lws by (auto simp: loopback_new_def)
    let ?s3 = "?s1\<lparr>lb_client := r2, lb_heard := [text_of msg], lb_required := text_of msg = ''hello'', lb_server := g1\<rparr>"
    have rx: "raw_socket_server_callback [] lws h Raw_rx (Some (text_of msg)) (word_of_nat (length msg)) g
        = Done (0, [Client_data d h (text_of msg)], g)"
      using live(4) lws in_text_piece[of n msg] piece
      by (simp add: raw_socket_server_callback_def user_call_def)
    then have 3: "loop_step ndebug wsi h (Server_receives lws n) (?s1\<lparr>lb_client := r2, lb_up := msg\<rparr>) = Done ?s3"
      using g1(1) msg(1,4) by (simp add: loopback_new_def server_on_data_def server_hangs_up_def Let_def)
    from server_flushes[of h ?s3 gs msg k lws d ndebug wsi] obtain g2 where
      4: "loop_run ndebug wsi h (replicate k (Server_writes lws)) ?s3
        = Done (?s3\<lparr>lb_server := g2, lb_down := msg, lb_server_open := False\<rparr>)"
      using g1 k(2) cb lws by (auto simp: loopback_new_def)
    have "raw_socket_callback lws wsi Raw_rx (Some (text_of msg)) (word_of_nat (length msg)) r2
        = Done (0, [Received c (text_of msg) 0], r2)"
      using r2 lws in_text_piece[of n msg] piece
      by (simp add: raw_socket_callback_def raw_live_def tell_user_def user_call_def)
    then have "\<exists>st. loop_step ndebug wsi h (Client_receives lws n)
          (?s3\<lparr>lb_server := g2, lb_down := msg, lb_server_open := False\<rparr>) = Done st
        \<and> lb_heard st = [text_of msg] \<and> lb_got st = [text_of msg] \<and> \<not> lb_run st
        \<and> (lb_required st \<longleftrightarrow> text_of msg = ''hello'')"
      using msg(1,4) by (simp add: loopback_new_def client_on_data_def client_hangs_up_def Let_def)
    then show ?thesis using 1 2 3 4 by (auto simp: loop_run_append simp del: loop_step.simps)
  qed
  then show ?thesis by (intro exI[of _ "max (length fs) (length gs)"]) auto
qed

section \<open>Properties\<close>

lemma loopback_new_inv:
  assumes "raw_live wsi r []" and "si_callback (ri_socket r) \<noteq> None"
    and "server_live h g []" and "ss_callback g \<noteq> None"
  shows "loop_inv wsi h (loopback_new r g)"
proof -
  have "up_ok wsi (loopback_new r g)" unfolding up_ok_def using assms(1)
    by (intro exI[of _ "[]"]) (auto simp: loopback_new_def intro!: exI[of _ "[]"])
  then show ?thesis using assms by (auto simp: loop_inv_def down_ok_def loopback_new_def intro!: exI[of _ "[]"])
qed

text \<open>
  C10: with an echoing server behind it, a client that sends whatever it likes gets back the first
  piece of what it sent that reaches the server, and nothing else: the server is called with what was sent,
  byte for byte from the start, and the connection is gone after its first write. In no order of
  sends, writes and arrivals is there undefined behaviour, a failed assertion or a loop.
\<close>

theorem echo_answers_once:
  assumes "raw_live wsi r []" and "si_callback (ri_socket r) \<noteq> None"
    and "server_live h g []" and "ss_callback g \<noteq> None"
    and "moves_fit ndebug wsi h ms (loopback_new r g)"
  shows "\<exists>st. loop_run ndebug wsi h ms (loopback_new r g) = Done st
     \<and> prefix (bytes_of (concat (lb_heard st))) (concat (lb_sent st))
     \<and> prefix (bytes_of (concat (lb_got st))) (first_echo (lb_heard st))
     \<and> (lb_got st \<noteq> [] \<longrightarrow> \<not> lb_server_open st)"
proof -
  have cat: "concat (map bytes_of xs) = bytes_of (concat xs)" for xs
    by (induction xs) (auto simp: bytes_of_def)
  from moves_keep[OF loopback_new_inv[OF assms(1-4)] assms(5)] obtain st where
    st: "loop_run ndebug wsi h ms (loopback_new r g) = Done st" "up_ok wsi st" "down_ok h st"
    by (auto simp: loop_inv_def)
  have "prefix (bytes_of (concat (lb_heard st))) (concat (lb_sent st))"
    using st(2) by (auto simp: up_ok_def cat)
  moreover have "prefix (bytes_of (concat (lb_got st))) (first_echo (lb_heard st))
     \<and> (lb_got st \<noteq> [] \<longrightarrow> \<not> lb_server_open st)"
    using st(3) by (auto simp: down_ok_def cat bytes_of_def dest: append_prefixD split: if_splits)
  ultimately show ?thesis using st(1) by blast
qed

theorem echo_answers_once_witness:
  "\<exists>st. loop_run False 3 5 [Say [1, 2], Client_writes lws_ok, Server_receives lws_ok 1,
         Server_receives lws_ok 9, Server_writes lws_ok, Client_receives lws_ok 9]
         (loopback_new raw_request server_one) = Done st
     \<and> prefix (bytes_of (concat (lb_heard st))) (concat (lb_sent st))
     \<and> prefix (bytes_of (concat (lb_got st))) (first_echo (lb_heard st))
     \<and> \<not> (lb_got st \<noteq> [] \<and> lb_server_open st)"
proof -
  have "moves_fit False 3 5 [Say [1, 2], Client_writes lws_ok, Server_receives lws_ok 1,
         Server_receives lws_ok 9, Server_writes lws_ok, Client_receives lws_ok 9]
         (loopback_new raw_request server_one)" by code_simp
  from echo_answers_once[OF raw_request_live _ server_one_live _ this] show ?thesis
    by (auto simp: raw_request_def ws_request_def server_one_def)
qed

text \<open>
  The test "RAW socket": when the client is connected it says hello, and once both ends have had
  enough events to write and the bytes arrive whole, the server and then the client are called
  with hello, every \<open>REQUIRE\<close> holds and the loop of the test ends.
\<close>

theorem raw_socket_test_passes:
  assumes "raw_live wsi r []" and "si_callback (ri_socket r) = Some c"
    and "server_live h g []" and "ss_callback g = Some d"
    and "raw_fits r (bytes_of ''hello'')" and "server_fits h g (bytes_of ''hello'')"
    and "5 \<le> unat n" and "la_dummy lws = 0"
  shows "\<exists>k0. \<forall>k \<ge> k0. \<exists>st.
     result_bind (client_on_connected ndebug (loopback_new r g))
       (loop_run ndebug wsi h (replicate k (Client_writes lws) @ [Server_receives lws n]
          @ replicate k (Server_writes lws) @ [Client_receives lws n])) = Done st
     \<and> lb_heard st = [''hello''] \<and> lb_got st = [''hello''] \<and> \<not> lb_run st \<and> lb_required st"
proof -
  have hello: "text_of (bytes_of ''hello'') = ''hello''" by code_simp
  have "bytes_of ''hello'' \<noteq> []" "length (bytes_of ''hello'') \<le> unat n"
    using assms(7) by (simp_all add: bytes_of_def)
  then show ?thesis using echo_arrives[OF assms(1-4) _ assms(5,6) _ assms(8), of n ndebug]
    unfolding hello client_on_connected_def by simp
qed

theorem raw_socket_test_passes_witness:
  "\<exists>k0. \<forall>k \<ge> k0. \<exists>st.
     result_bind (client_on_connected False (loopback_new raw_request server_one))
       (loop_run False 3 5 (replicate k (Client_writes lws_ok) @ [Server_receives lws_ok 1024]
          @ replicate k (Server_writes lws_ok) @ [Client_receives lws_ok 1024])) = Done st
     \<and> lb_heard st = [''hello''] \<and> lb_got st = [''hello''] \<and> \<not> lb_run st \<and> lb_required st"
proof (rule raw_socket_test_passes[OF raw_request_live _ server_one_live])
  show "raw_fits raw_request (bytes_of ''hello'')" "server_fits 5 server_one (bytes_of ''hello'')" by code_simp+
qed (simp_all add: raw_request_def ws_request_def server_one_def lws_ok_def)

end
