(* ===== verification/Global_Services.thy ===== *)
theory Global_Services
  imports Socket_Service
begin

text \<open>
  The services shared by all clients of the process (src/socket_service.cpp): a map from
  certificate files to services behind a spin lock, and the destruction of all of them at the
  end of the program. The second part treats the lock as threads use it: \<open>lock\<close> repeats
  \<open>test_and_set\<close> until it finds the flag clear.
\<close>

section \<open>The registry\<close>

text \<open>
  A service is named by its address; \<open>rg_services\<close> is \<open>s_global_service\<close>, \<open>rg_objects\<close> the
  services that exist, \<open>rg_flag\<close> the flag of \<open>s_lock\<close>.
\<close>

record registry =
  rg_services :: "string \<Rightarrow> nat option"
  rg_objects :: "nat \<Rightarrow> service option"
  rg_flag :: bool

definition registry_start :: registry where
  "registry_start = \<lparr>rg_services = (\<lambda>_. None), rg_objects = (\<lambda>_. None), rg_flag = False\<rparr>"

text \<open>\<open>spin_lock::lock\<close> and \<open>unlock\<close>; each round of the loop sets the flag, which is set already.\<close>

definition spin_lock ::
  "registry schedule \<Rightarrow> registry \<Rightarrow> (registry \<times> registry schedule) result"
where
  "spin_lock sched g = result_bind (spin_while rg_flag sched g)
     (\<lambda>(g, sched). Done (g\<lparr>rg_flag := True\<rparr>, sched))"

definition spin_unlock :: "registry \<Rightarrow> registry" where
  "spin_unlock g = g\<lparr>rg_flag := False\<rparr>"

text \<open>
  \<open>socket_service::global\<close>; \<open>new\<close> is the address and the value of the service that
  \<open>new socket_service(ca_file_path, cpu_affinity, true)\<close> makes where it is evaluated.
\<close>

definition service_global ::
  "string \<Rightarrow> nat \<times> service \<Rightarrow> registry schedule \<Rightarrow> registry \<Rightarrow>
   (nat \<times> registry \<times> registry schedule) result"
where
  "service_global ca_file new sched g =
     result_bind (spin_lock sched g) (\<lambda>(g, sched).
       let (i, g) = (case rg_services g ca_file of
             Some i \<Rightarrow> (i, g)
           | None \<Rightarrow> (fst new, g\<lparr>rg_services := (rg_services g)(ca_file \<mapsto> fst new),
                               rg_objects := (rg_objects g)(fst new \<mapsto> snd new)\<rparr>))
       in Done (i, spin_unlock g, sched))"

text \<open>The destructor of \<open>s_destroyer\<close>.\<close>

definition destroy_all :: "registry \<Rightarrow> registry" where
  "destroy_all g = g\<lparr>rg_objects := (\<lambda>i. if i \<in> ran (rg_services g) then None else rg_objects g i),
     rg_services := (\<lambda>_. None)\<rparr>"

text \<open>Calls one after another: the services returned.\<close>

fun global_calls :: "(string \<times> nat \<times> service) list \<Rightarrow> registry \<Rightarrow> (nat list \<times> registry) result" where
  "global_calls [] g = Done ([], g)"
| "global_calls ((ca, new) # cs) g =
     result_bind (service_global ca new [] g) (\<lambda>(i, g, _).
       result_bind (global_calls cs g) (\<lambda>(ids, g). Done (i # ids, g)))"

lemma service_global_Done:
  assumes "\<not> rg_flag g"
  shows "\<exists>h. service_global ca new sched g
       = Done (case rg_services g ca of Some i \<Rightarrow> i | None \<Rightarrow> fst new, h, sched) \<and> \<not> rg_flag h
     \<and> rg_services h ca = Some (case rg_services g ca of Some i \<Rightarrow> i | None \<Rightarrow> fst new)
     \<and> (\<forall>c. c \<noteq> ca \<longrightarrow> rg_services h c = rg_services g c)"
  using assms
  by (auto simp: service_global_def spin_lock_def spin_while_exit spin_unlock_def split: option.splits)

text \<open>The call that makes a service: the first one for its certificate file.\<close>

lemma global_calls_Done:
  assumes "\<not> rg_flag g"
  shows "\<exists>ids h. global_calls cs g = Done (ids, h) \<and> \<not> rg_flag h
    \<and> map Some ids = map (\<lambda>c. case rg_services g (fst c) of
         Some i \<Rightarrow> Some i | None \<Rightarrow> map_option fst (map_of cs (fst c))) cs"
  using assms
proof (induction cs arbitrary: g)
  case Nil
  then show ?case by simp
next
  case (Cons c cs)
  obtain ca new where c: "c = (ca, new)" by (cases c) auto
  let ?i = "case rg_services g ca of Some i \<Rightarrow> i | None \<Rightarrow> fst new"
  obtain h where h: "service_global ca new [] g = Done (?i, h, [])" "\<not> rg_flag h"
    "rg_services h ca = Some ?i" "\<forall>x. x \<noteq> ca \<longrightarrow> rg_services h x = rg_services g x"
    using service_global_Done[OF Cons.prems, of ca new "[]"] by blast
  obtain ids k where k: "global_calls cs h = Done (ids, k)" "\<not> rg_flag k"
    "map Some ids = map (\<lambda>c. case rg_services h (fst c) of
         Some i \<Rightarrow> Some i | None \<Rightarrow> map_option fst (map_of cs (fst c))) cs"
    using Cons.IH[OF h(2)] by blast
  have "(case rg_services h x of Some i \<Rightarrow> Some i | None \<Rightarrow> map_option fst (map_of cs x))
      = (case rg_services g x of Some i \<Rightarrow> Some i | None \<Rightarrow> map_option fst (map_of (c # cs) x))" for x
    using h(3,4) c by (cases "x = ca") (auto split: option.splits)
  then have "map Some ids = map (\<lambda>d. case rg_services g (fst d) of
         Some i \<Rightarrow> Some i | None \<Rightarrow> map_option fst (map_of (c # cs) (fst d))) cs"
    using k(3) by simp
  moreover have "Some ?i = (case rg_services g (fst c) of
         Some i \<Rightarrow> Some i | None \<Rightarrow> map_option fst (map_of (c # cs) (fst c)))"
    using c by (auto split: option.splits)
  moreover have "global_calls (c # cs) g = Done (?i # ids, k)" using h(1) k(1) c by simp
  ultimately show ?case using k(2) by (intro exI[of _ "?i # ids"] exI[of _ k]) (simp only: list.map simp_thms)
qed

section \<open>The lock under concurrency\<close>

text \<open>
  Any number of threads call \<open>global\<close>. A thread is outside, spinning, or inside the critical
  section; \<open>test_and_set\<close> and \<open>clear\<close> are atomic.
\<close>

datatype locker = Outside | Trying | Inside

record lock_state =
  lk_flag :: bool
  lk_threads :: "nat \<Rightarrow> locker"

inductive lock_step :: "lock_state \<Rightarrow> lock_state \<Rightarrow> bool" where
  call: "lk_threads s p = Outside \<Longrightarrow>
    lock_step s (s\<lparr>lk_threads := (lk_threads s)(p := Trying)\<rparr>)"
| test_and_set: "lk_threads s p = Trying \<Longrightarrow>
    lock_step s (s\<lparr>lk_flag := True,
      lk_threads := (lk_threads s)(p := if lk_flag s then Trying else Inside)\<rparr>)"
| unlock: "lk_threads s p = Inside \<Longrightarrow>
    lock_step s (s\<lparr>lk_flag := False, lk_threads := (lk_threads s)(p := Outside)\<rparr>)"

inductive lock_reach :: "lock_state \<Rightarrow> bool" where
  start: "lock_reach \<lparr>lk_flag = False, lk_threads = (\<lambda>_. Outside)\<rparr>"
| step: "lock_reach s \<Longrightarrow> lock_step s t \<Longrightarrow> lock_reach t"

text \<open>The flag is set exactly while one thread is inside.\<close>

definition lock_inv :: "lock_state \<Rightarrow> bool" where
  "lock_inv s \<longleftrightarrow> (if lk_flag s then \<exists>!p. lk_threads s p = Inside else \<forall>p. lk_threads s p \<noteq> Inside)"

lemma lock_step_inv: "lock_step s t \<Longrightarrow> lock_inv s \<Longrightarrow> lock_inv t"
proof (induction rule: lock_step.induct)
  case (call s p)
  then have "lk_threads (s\<lparr>lk_threads := (lk_threads s)(p := Trying)\<rparr>) q = Inside \<longleftrightarrow> lk_threads s q = Inside" for q
    by simp
  then show ?case using call(2) by (simp add: lock_inv_def)
next
  case (test_and_set s p)
  show ?case
  proof (cases "lk_flag s")
    case True
    then have "((lk_threads s)(p := Trying)) q = Inside \<longleftrightarrow> lk_threads s q = Inside" for q
      using test_and_set(1) by simp
    then show ?thesis using test_and_set(2) True by (simp add: lock_inv_def)
  next
    case False
    then have "lk_threads s q \<noteq> Inside" for q using test_and_set(2) by (simp add: lock_inv_def)
    then show ?thesis using False by (auto simp: lock_inv_def)
  qed
next
  case (unlock s p)
  then have "lk_flag s" by (auto simp: lock_inv_def split: if_splits)
  then have "q = p" if "lk_threads s q = Inside" for q
    using unlock that by (auto simp: lock_inv_def)
  then show ?case by (auto simp: lock_inv_def)
qed

lemma lock_reach_inv: "lock_reach s \<Longrightarrow> lock_inv s"
proof (induction rule: lock_reach.induct)
  case start
  then show ?case by (simp add: lock_inv_def)
next
  case (step s t)
  then show ?case using lock_step_inv by blast
qed

section \<open>Properties\<close>

text \<open>
  The spin lock excludes: in every execution of any number of threads at most one of them is
  between \<open>lock\<close> and \<open>unlock\<close>, and while none is, the next \<open>test_and_set\<close> of a waiting thread
  succeeds.
\<close>

theorem spin_lock_excludes:
  assumes "lock_reach s"
  shows "(\<forall>p q. lk_threads s p = Inside \<longrightarrow> lk_threads s q = Inside \<longrightarrow> p = q)
     \<and> ((\<forall>p. lk_threads s p \<noteq> Inside) \<longrightarrow> (\<forall>q. lk_threads s q = Trying \<longrightarrow>
          lock_step s (s\<lparr>lk_flag := True, lk_threads := (lk_threads s)(q := Inside)\<rparr>)))"
proof -
  have inv: "lock_inv s" by (rule lock_reach_inv[OF assms])
  have "p = q" if "lk_threads s p = Inside" "lk_threads s q = Inside" for p q
    using inv that by (auto simp: lock_inv_def split: if_splits)
  moreover have "lock_step s (s\<lparr>lk_flag := True, lk_threads := (lk_threads s)(q := Inside)\<rparr>)"
    if "\<forall>p. lk_threads s p \<noteq> Inside" "lk_threads s q = Trying" for q
  proof -
    have "\<not> lk_flag s" using inv that(1) by (auto simp: lock_inv_def)
    then show ?thesis using lock_step.test_and_set[OF that(2)] by simp
  qed
  ultimately show ?thesis by blast
qed

theorem spin_lock_excludes_witness:
  "\<exists>s :: lock_state. lk_threads s 1 = Inside \<and> lk_threads s 2 = Trying
     \<and> (\<forall>p q. lk_threads s p = Inside \<longrightarrow> lk_threads s q = Inside \<longrightarrow> p = q)"
proof -
  define a where "a = \<lparr>lk_flag = False, lk_threads = (\<lambda>_. Outside)\<rparr>"
  define b where "b = a\<lparr>lk_threads := (lk_threads a)(1 := Trying)\<rparr>"
  define c where "c = b\<lparr>lk_threads := (lk_threads b)(2 := Trying)\<rparr>"
  define d where "d = c\<lparr>lk_flag := True, lk_threads := (lk_threads c)(1 := if lk_flag c then Trying else Inside)\<rparr>"
  have "lock_reach a" unfolding a_def by (rule lock_reach.start)
  then have "lock_reach b" by (rule lock_reach.step) (unfold b_def, rule lock_step.call, simp add: a_def)
  then have "lock_reach c"
    by (rule lock_reach.step) (unfold c_def, rule lock_step.call, simp add: a_def b_def)
  then have "lock_reach d"
    by (rule lock_reach.step) (unfold d_def, rule lock_step.test_and_set, simp add: a_def b_def c_def)
  from spin_lock_excludes[OF this] have
    "\<forall>p q. lk_threads d p = Inside \<longrightarrow> lk_threads d q = Inside \<longrightarrow> p = q" by (rule conjunct1)
  moreover have "lk_threads d 1 = Inside" "lk_threads d 2 = Trying"
    by (simp_all add: a_def b_def c_def d_def)
  ultimately show ?thesis by blast
qed

text \<open>
  Every certificate file has one service for the whole program: a sequence of calls of
  \<open>global\<close> returns to each caller the service made by the first call with the same file, whose
  \<open>cpu_affinity\<close> it keeps; the service made for a later call is not used.
\<close>

theorem global_service_shared:
  "\<exists>ids h. global_calls cs registry_start = Done (ids, h)
     \<and> map Some ids = map (\<lambda>(ca_file, _). map_option fst (map_of cs ca_file)) cs"
proof -
  have "\<not> rg_flag registry_start" by (simp add: registry_start_def)
  from global_calls_Done[OF this, of cs] show ?thesis
    by (auto simp: registry_start_def case_prod_beta)
qed

end
