(* ===== verification/Global_Threads.thy ===== *)
theory Global_Threads
  imports Global_Services Service_Facts
begin

text \<open>
  \<open>socket_service::global\<close> in any number of threads at once, step by step, and the destruction of
  the shared services at the end of the program, while their threads still run
  (src/socket_service.cpp, src/socket_service.h).
\<close>

section \<open>State\<close>

text \<open>
  A thread that calls \<open>global\<close> for a certificate file spins for the lock, holds it, has found or made
  the service, and has returned with it.
\<close>

datatype caller =
  Away
| Spins string
| Holds string
| Found string nat
| Returned string nat

record registry_threads =
  gt_registry :: registry
  gt_callers :: "nat \<Rightarrow> caller"

definition gt_start :: registry_threads where
  "gt_start = \<lparr>gt_registry = registry_start, gt_callers = (\<lambda>_. Away)\<rparr>"

abbreviation caller_to :: "nat \<Rightarrow> caller \<Rightarrow> registry_threads \<Rightarrow> registry_threads" where
  "caller_to p x s \<equiv> s\<lparr>gt_callers := (gt_callers s)(p := x)\<rparr>"

section \<open>Steps\<close>

text \<open>
  \<open>new\<close> is the address and the value of the service that the constructor makes if it is called; the
  address is not in use.
\<close>

definition find_or_make :: "string \<Rightarrow> nat \<times> service \<Rightarrow> registry \<Rightarrow> nat \<times> registry" where
  "find_or_make ca_file new g = (case rg_services g ca_file of
     Some i \<Rightarrow> (i, g)
   | None \<Rightarrow> (fst new, g\<lparr>rg_services := (rg_services g)(ca_file \<mapsto> fst new),
                       rg_objects := (rg_objects g)(fst new \<mapsto> snd new)\<rparr>))"

inductive gt_step :: "registry_threads \<Rightarrow> registry_threads \<Rightarrow> bool" where
  call: "gt_callers s p = Away \<or> gt_callers s p = Returned ca i \<Longrightarrow>
    gt_step s (caller_to p (Spins ca_file) s)"
| test_and_set: "gt_callers s p = Spins ca_file \<Longrightarrow>
    gt_step s (caller_to p (if rg_flag (gt_registry s) then Spins ca_file else Holds ca_file)
      (s\<lparr>gt_registry := (gt_registry s)\<lparr>rg_flag := True\<rparr>\<rparr>))"
| find: "gt_callers s p = Holds ca_file \<Longrightarrow> rg_objects (gt_registry s) (fst new) = None \<Longrightarrow>
    find_or_make ca_file new (gt_registry s) = (i, g) \<Longrightarrow>
    gt_step s (caller_to p (Found ca_file i) (s\<lparr>gt_registry := g\<rparr>))"
| unlock: "gt_callers s p = Found ca_file i \<Longrightarrow>
    gt_step s (caller_to p (Returned ca_file i) (s\<lparr>gt_registry := spin_unlock (gt_registry s)\<rparr>))"

inductive gt_reach :: "registry_threads \<Rightarrow> bool" where
  start: "gt_reach gt_start"
| step: "gt_reach s \<Longrightarrow> gt_step s t \<Longrightarrow> gt_reach t"

text \<open>The body of \<open>global\<close> is the lock, this step and the unlocking.\<close>

lemma service_global_steps:
  "service_global ca_file new sched g = result_bind (spin_lock sched g)
     (\<lambda>(g, sched). Done (fst (find_or_make ca_file new g), spin_unlock (snd (find_or_make ca_file new g)), sched))"
  unfolding service_global_def
  by (rule result_bind_cong[OF refl]) (auto simp: find_or_make_def split: option.splits)

section \<open>Invariant\<close>

fun inside :: "caller \<Rightarrow> bool" where
  "inside (Holds ca_file) = True"
| "inside (Found ca_file i) = True"
| "inside _ = False"

fun has_service :: "caller \<Rightarrow> (string \<times> nat) option" where
  "has_service (Found ca_file i) = Some (ca_file, i)"
| "has_service (Returned ca_file i) = Some (ca_file, i)"
| "has_service _ = None"

definition gt_inv :: "registry_threads \<Rightarrow> bool" where
  "gt_inv s \<longleftrightarrow>
     (\<forall>p. inside (gt_callers s p) \<longrightarrow> rg_flag (gt_registry s) \<and> (\<forall>q. inside (gt_callers s q) \<longrightarrow> p = q))
     \<and> (\<forall>p ca i. has_service (gt_callers s p) = Some (ca, i) \<longrightarrow> rg_services (gt_registry s) ca = Some i)
     \<and> (\<forall>ca i. rg_services (gt_registry s) ca = Some i \<longrightarrow> rg_objects (gt_registry s) i \<noteq> None)
     \<and> inj_on (rg_services (gt_registry s)) (dom (rg_services (gt_registry s)))"

lemma find_or_make_keeps:
  assumes "find_or_make ca_file new g = (i, h)" "rg_objects g (fst new) = None"
    and "\<forall>ca j. rg_services g ca = Some j \<longrightarrow> rg_objects g j \<noteq> None"
    and "inj_on (rg_services g) (dom (rg_services g))"
  shows "rg_services h ca_file = Some i \<and> rg_flag h = rg_flag g
    \<and> (\<forall>ca j. rg_services g ca = Some j \<longrightarrow> rg_services h ca = Some j)
    \<and> (\<forall>ca j. rg_services h ca = Some j \<longrightarrow> rg_objects h j \<noteq> None)
    \<and> inj_on (rg_services h) (dom (rg_services h))"
proof (cases "rg_services g ca_file")
  case None
  have "rg_services g ca \<noteq> Some (fst new)" for ca using assms(2,3) by blast
  then have "inj_on ((rg_services g)(ca_file \<mapsto> fst new)) (insert ca_file (dom (rg_services g)))"
    using assms(4) None by (auto simp: inj_on_def dom_def)
  then show ?thesis using assms(1,3) None by (auto simp: find_or_make_def split: if_splits)
qed (use assms in \<open>auto simp: find_or_make_def\<close>)

lemma gt_step_inv: "gt_step s t \<Longrightarrow> gt_inv s \<Longrightarrow> gt_inv t"
proof (induction rule: gt_step.induct)
  case (call s p ca i ca_file)
  then show ?case by (auto simp: gt_inv_def)
next
  case (test_and_set s p ca_file)
  then show ?case unfolding gt_inv_def by (auto split: if_splits)
next
  case (find s p ca_file new i g)
  then have k: "rg_services g ca_file = Some i" "rg_flag g = rg_flag (gt_registry s)"
    "\<forall>ca j. rg_services (gt_registry s) ca = Some j \<longrightarrow> rg_services g ca = Some j"
    "\<forall>ca j. rg_services g ca = Some j \<longrightarrow> rg_objects g j \<noteq> None"
    "inj_on (rg_services g) (dom (rg_services g))"
    using find_or_make_keeps[OF find(3,2)] by (auto simp: gt_inv_def)
  have only: "\<not> inside (gt_callers s q)" if "q \<noteq> p" for q
    using find.hyps(1) find.prems that by (auto simp: gt_inv_def)
  have "inside (gt_callers s p)" using find.hyps(1) by simp
  then have flag: "rg_flag (gt_registry s)" using find.prems unfolding gt_inv_def by blast
  have svc: "rg_services (gt_registry s) ca = Some j" if "has_service (gt_callers s q) = Some (ca, j)" for q ca j
    using find.prems that by (auto simp: gt_inv_def)
  show ?case unfolding gt_inv_def using k only flag svc by auto
next
  case (unlock s p ca_file i)
  then have "\<not> inside (gt_callers s q)" if "q \<noteq> p" for q
    using that by (auto simp: gt_inv_def)
  moreover have "has_service (gt_callers s p) = Some (ca_file, i)" using unlock.hyps by simp
  then have "rg_services (gt_registry s) ca_file = Some i" using unlock.prems unfolding gt_inv_def by blast
  ultimately show ?case using unlock by (auto simp: gt_inv_def spin_unlock_def)
qed

lemma gt_reach_inv: "gt_reach s \<Longrightarrow> gt_inv s"
proof (induction rule: gt_reach.induct)
  case start
  then show ?case by (simp add: gt_inv_def gt_start_def registry_start_def)
next
  case (step s t)
  then show ?case using gt_step_inv by blast
qed

section \<open>The end of the program\<close>

text \<open>
  The destructor of a service whose thread is behind the connecting part of an iteration. The thread of
  a service of its own is joined: it ends the iteration first. The thread of a shared service is
  detached, and the service is gone while the thread goes on.
\<close>

definition destroy_running ::
  "bool \<Rightarrow> nat \<Rightarrow> lws_act list \<Rightarrow> service \<Rightarrow> (effect list \<times> service) result"
where
  "destroy_running ndebug pre acts s =
     (let s = (if sv_global s then service_destroy s else s\<lparr>sv_run := False\<rparr>) in
      result_bind (service_acts ndebug pre acts s) (\<lambda>(effs, s).
        result_bind (serve_cleanup s) (\<lambda>(effs', s).
          Done (effs @ effs', if sv_global s then s else service_destroy s))))"

section \<open>Properties\<close>

text \<open>
  C26: in every execution of any number of threads that call \<open>global\<close>, the threads that have returned
  have the service of their certificate file: it exists and is registered, two threads have the
  same service exactly if they asked for the same file, and at most one thread is inside the
  critical section.
\<close>

theorem global_threads_share:
  assumes "gt_reach s" and "gt_callers s p = Returned ca i" and "gt_callers s q = Returned cb j"
  shows "rg_services (gt_registry s) ca = Some i \<and> rg_objects (gt_registry s) i \<noteq> None
     \<and> (i = j \<longleftrightarrow> ca = cb)
     \<and> (\<forall>x y. inside (gt_callers s x) \<longrightarrow> inside (gt_callers s y) \<longrightarrow> x = y)"
proof -
  have inv: "gt_inv s" by (rule gt_reach_inv[OF assms(1)])
  have "has_service (gt_callers s p) = Some (ca, i)" "has_service (gt_callers s q) = Some (cb, j)"
    using assms(2,3) by simp_all
  then have reg: "rg_services (gt_registry s) ca = Some i" "rg_services (gt_registry s) cb = Some j"
    using inv unfolding gt_inv_def by blast+
  moreover have "i = j \<longleftrightarrow> ca = cb"
    using inv reg unfolding gt_inv_def inj_on_def by (metis domI option.inject)
  ultimately show ?thesis using inv unfolding gt_inv_def by blast
qed

theorem global_threads_share_witness:
  "\<exists>s :: registry_threads. gt_callers s 1 = Returned ''ca'' 4 \<and> gt_callers s 2 = Spins ''ca''
     \<and> rg_services (gt_registry s) ''ca'' = Some 4 \<and> rg_objects (gt_registry s) 4 \<noteq> None"
proof -
  let ?new = "(4 :: nat, small_service)"
  define a where "a = caller_to 1 (Spins ''ca'') gt_start"
  define b where "b = caller_to 2 (Spins ''ca'') a"
  define c where "c = caller_to 1 (if rg_flag (gt_registry b) then Spins ''ca'' else Holds ''ca'')
      (b\<lparr>gt_registry := (gt_registry b)\<lparr>rg_flag := True\<rparr>\<rparr>)"
  define d where "d = caller_to 1 (Found ''ca'' (fst (find_or_make ''ca'' ?new (gt_registry c))))
      (c\<lparr>gt_registry := snd (find_or_make ''ca'' ?new (gt_registry c))\<rparr>)"
  define e where "e = caller_to 1 (Returned ''ca'' 4) (d\<lparr>gt_registry := spin_unlock (gt_registry d)\<rparr>)"
  note defs = a_def b_def c_def d_def gt_start_def registry_start_def find_or_make_def
  have "gt_reach a" unfolding a_def
    by (rule gt_reach.step[OF gt_reach.start]) (rule gt_step.call, simp add: gt_start_def)
  then have "gt_reach b" by (rule gt_reach.step) (unfold b_def, rule gt_step.call, simp add: defs)
  then have "gt_reach c" by (rule gt_reach.step) (unfold c_def, rule gt_step.test_and_set, simp add: defs)
  then have "gt_reach d"
    by (rule gt_reach.step) (unfold d_def, rule gt_step.find[of _ _ _ ?new], simp_all add: defs)
  then have reach: "gt_reach e" by (rule gt_reach.step) (unfold e_def, rule gt_step.unlock, simp add: defs)
  have r: "gt_callers e 1 = Returned ''ca'' 4" "gt_callers e 2 = Spins ''ca''"
    by (simp_all add: e_def defs)
  from global_threads_share[OF reach r(1) r(1)] r show ?thesis by (intro exI[of _ e]) simp
qed

text \<open>
  C37: the destructor of a shared service does not wait for the thread: if the service serves a
  request of its pool, what is left of the running iteration reads the request after the pool
  is gone. With a service of its own the same iteration ends before the destruction.
\<close>

theorem global_destroy_race:
  assumes "service_inv s used pend" and "Pooled i \<in> set (sv_requests s)"
    and "\<forall>ob \<in> set (sv_requests s). answerable (sv_heap s) ob"
  shows "(\<forall>res. destroy_running ndebug pre [] (s\<lparr>sv_global := True\<rparr>) \<noteq> Done res)
     \<and> (\<exists>effs t. destroy_running ndebug pre [] (s\<lparr>sv_global := False\<rparr>) = Done (effs, t)
          \<and> effs = concat (map (reply (sv_heap s)) (sv_requests s)))"
proof
  let ?g = "service_destroy (s\<lparr>sv_global := True\<rparr>)"
  have "sv_heap ?g (Pooled i) = None" "Pooled i \<in> set (sv_requests ?g)"
    using assms(2) by (simp_all add: service_destroy_def)
  from cleanup_deleted[OF this] have "serve_cleanup ?g \<noteq> Done res" for res
    by (auto simp: serve_cleanup_def result_bind_eq_Done)
  then show "\<forall>res. destroy_running ndebug pre [] (s\<lparr>sv_global := True\<rparr>) \<noteq> Done res"
    by (auto simp: destroy_running_def result_bind_eq_Done)
next
  let ?s = "s\<lparr>sv_global := False, sv_run := False\<rparr>"
  have inv: "service_inv ?s used pend" using assms(1) by (simp add: service_inv_def)
  have "\<forall>ob \<in> set (sv_requests ?s). answerable (sv_heap ?s) ob" using assms(3) by simp
  from serve_cleanup_Done[OF inv this] obtain t where
    "serve_cleanup ?s = Done (concat (map (reply (sv_heap s)) (sv_requests s)), t)" by auto
  then show "\<exists>effs t. destroy_running ndebug pre [] (s\<lparr>sv_global := False\<rparr>) = Done (effs, t)
      \<and> effs = concat (map (reply (sv_heap s)) (sv_requests s))"
    by (auto simp: destroy_running_def)
qed

text \<open>A service that serves a raw connection whose request is of the pool.\<close>

definition pool_serving :: service where
  "pool_serving = small_service\<lparr>sv_pool := (sv_pool small_service)\<lparr>op_read := 1\<rparr>, sv_requests := [Pooled 0],
     sv_heap := (sv_heap small_service)(Pooled 0 \<mapsto> raw_request)\<rparr>"

lemma pool_serving_inv: "service_inv pool_serving {Pooled 0} []"
proof -
  have ck: "get_check (sv_pool small_service)"
    by (simp add: small_service_def service_new_def pool_new_def get_check_def)
  have pool: "pool_inv (sv_pool small_service) {}" using small_service_inv by (simp add: service_inv_def)
  have "op_read (sv_pool small_service) = 0" by (simp add: small_service_def service_new_def pool_new_def)
  then have "pool_inv ((sv_pool small_service)\<lparr>op_read := 1\<rparr>) {Pooled 0}"
    using pool_get_checked(4)[OF pool ck] by simp
  then show ?thesis using small_service_inv
    by (auto simp: pool_serving_def service_inv_def small_service_def service_new_def pool_new_def)
qed

theorem global_destroy_race_witness:
  "(\<forall>res. destroy_running False 16 [] (pool_serving\<lparr>sv_global := True\<rparr>) \<noteq> Done res)
     \<and> (\<exists>effs t. destroy_running False 16 [] (pool_serving\<lparr>sv_global := False\<rparr>) = Done (effs, t)
          \<and> effs = concat (map (reply (sv_heap pool_serving)) (sv_requests pool_serving)))"
  by (rule global_destroy_race[OF pool_serving_inv])
    (simp_all add: pool_serving_def answerable_def raw_request_def ws_request_def)

end
