(* ===== verification/Pool_Threads.thy ===== *)
theory Pool_Threads
  imports Object_Pool
begin

text \<open>
  \<open>object_pool\<close> (src/ring_buffer.h) under concurrency: the clients of a service call \<open>get_obj\<close> and
  \<open>release_obj\<close> on threads of their own. Every access to a shared variable is a step of its own, and
  a schedule says which thread goes next. With at most two threads in \<open>get_obj\<close> at a time no object
  is handed out twice; with five threads one can be.
\<close>

section \<open>Threads\<close>

text \<open>
  Where a thread is: outside, behind the check, behind \<open>fetch_add\<close> with its index, behind the test, on
  the way to \<open>fetch_sub\<close>, on the way to the heap, or in \<open>release_obj\<close> with its target and object.
\<close>

datatype pool_pc =
  Free | Checked | Claimed u64 | Taking u64 | Refused | Allocating | Releasing u64 nat

text \<open>\<open>pt_held\<close> lists the objects of the block that are in use; those of the heap are not listed.\<close>

record pool_threads =
  pt_pool :: object_pool
  pt_pc :: "nat \<Rightarrow> pool_pc"
  pt_held :: "nat list"

text \<open>Thread \<open>t\<close> calls \<open>get_obj\<close>, does its next step, or calls \<open>release_obj\<close> for object \<open>k\<close>.\<close>

datatype pool_event = Enter nat | Next nat | Give_back nat nat

definition pc_to :: "nat \<Rightarrow> pool_pc \<Rightarrow> pool_threads \<Rightarrow> pool_threads" where
  "pc_to t pc s = s\<lparr>pt_pc := (pt_pc s)(t := pc)\<rparr>"

fun pool_next :: "nat \<Rightarrow> pool_pc \<Rightarrow> pool_threads \<Rightarrow> pool_threads result" where
  "pool_next t Free s = Done s"
| "pool_next t Checked s = (let (i, p) = get_claim (pt_pool s) in
     Done (pc_to t (Claimed i) (s\<lparr>pt_pool := p\<rparr>)))"
| "pool_next t (Claimed i) s =
     Done (pc_to t (if get_test i (pt_pool s) then Taking i else Refused) s)"
| "pool_next t (Taking i) s = result_bind (get_take i (pt_pool s)) (\<lambda>ob.
     Done (pc_to t Free (case ob of Pooled k \<Rightarrow> s\<lparr>pt_held := k # pt_held s\<rparr> | Heap a \<Rightarrow> s)))"
| "pool_next t Refused s = Done (pc_to t Allocating (s\<lparr>pt_pool := get_undo (pt_pool s)\<rparr>))"
| "pool_next t Allocating s = Done (pc_to t Free s)"
| "pool_next t (Releasing target k) s =
     (let p = pt_pool s; j = unat (target AND op_mask p) in
      if j < length (op_index p)
      then Done (pc_to t Free (s\<lparr>pt_pool := p\<lparr>op_index := (op_index p)[j := word_of_nat k]\<rparr>\<rparr>))
      else Out_of_bounds)"

fun pool_do :: "pool_event \<Rightarrow> pool_threads \<Rightarrow> pool_threads result" where
  "pool_do (Enter t) s =
     (if pt_pc s t = Free
      then Done (pc_to t (if get_check (pt_pool s) then Checked else Allocating) s) else Done s)"
| "pool_do (Next t) s = pool_next t (pt_pc s t) s"
| "pool_do (Give_back t k) s =
     (if pt_pc s t = Free \<and> k \<in> set (pt_held s)
      then let p = pt_pool s in
        Done (pc_to t (Releasing (op_write p) k)
          (s\<lparr>pt_pool := p\<lparr>op_write := op_write p + 1\<rparr>, pt_held := remove1 k (pt_held s)\<rparr>))
      else Done s)"

fun pool_schedule :: "pool_event list \<Rightarrow> pool_threads \<Rightarrow> pool_threads result" where
  "pool_schedule [] s = Done s"
| "pool_schedule (e # es) s = result_bind (pool_do e s) (pool_schedule es)"

definition pool_threads_new :: "u64 \<Rightarrow> pool_threads" where
  "pool_threads_new sz = \<lparr>pt_pool = pool_new sz, pt_pc = (\<lambda>_. Free), pt_held = []\<rparr>"

text \<open>The threads \<open>0\<close> and \<open>1\<close> call \<open>get_obj\<close>, any thread calls \<open>release_obj\<close>.\<close>

fun two_getters :: "pool_event \<Rightarrow> bool" where
  "two_getters (Enter t) \<longleftrightarrow> t < 2"
| "two_getters _ \<longleftrightarrow> True"

text \<open>A thread on its own runs \<open>get_obj\<close> and \<open>release_obj\<close> as they are modelled sequentially.\<close>

lemma pool_thread_get:
  assumes "pt_pc s t = Free"
  shows "\<exists>n. pool_schedule (Enter t # replicate n (Next t)) s = result_bind (get_obj None (pt_pool s))
    (\<lambda>(ob, p). Done (s\<lparr>pt_pool := p, pt_held := (case ob of Some (Pooled k) \<Rightarrow> [k] | _ \<Rightarrow> []) @ pt_held s\<rparr>))"
proof -
  have idle: "(pt_pc s)(t := Free) = pt_pc s" using assms by (simp add: fun_eq_iff)
  let ?q = "snd (get_claim (pt_pool s))" and ?i = "fst (get_claim (pt_pool s))"
  consider "\<not> get_check (pt_pool s)" | "get_check (pt_pool s)" "\<not> get_test ?i ?q"
    | "get_check (pt_pool s)" "get_test ?i ?q" by blast
  then show ?thesis
  proof cases
    case 1
    then show ?thesis using assms idle
      by (intro exI[of _ 1]) (simp add: pc_to_def get_obj_def)
  next
    case 2
    then show ?thesis using assms idle
      by (intro exI[of _ 4]) (simp add: pc_to_def get_obj_def get_claim_def eval_nat_numeral Let_def)
  next
    case 3
    then show ?thesis using assms idle
      by (intro exI[of _ 3])
        (simp add: pc_to_def get_obj_def get_claim_def eval_nat_numeral Let_def get_take_def)
  qed
qed

lemma pool_thread_release:
  assumes "pt_pc s t = Free" "k \<in> set (pt_held s)" "k < unat (op_size (pt_pool s))"
  shows "pool_schedule [Give_back t k, Next t] s = result_bind (release_obj (Pooled k) (pt_pool s))
    (\<lambda>(_, p). Done (s\<lparr>pt_pool := p, pt_held := remove1 k (pt_held s)\<rparr>))"
proof -
  have idle: "(pt_pc s)(t := Free) = pt_pc s" using assms by (simp add: fun_eq_iff)
  show ?thesis using assms idle by (simp add: pc_to_def release_obj_def Let_def)
qed

section \<open>Two threads\<close>

text \<open>The index a thread has claimed and not taken yet, the object it is releasing.\<close>

fun claim_of :: "pool_pc \<Rightarrow> nat option" where
  "claim_of (Claimed i) = Some (unat i)"
| "claim_of (Taking i) = Some (unat i)"
| "claim_of _ = None"

fun release_of :: "pool_pc \<Rightarrow> (nat \<times> nat) option" where
  "release_of (Releasing j k) = Some (unat j, k)"
| "release_of _ = None"

text \<open>How many of the two threads are in a place.\<close>

definition both :: "(pool_pc \<Rightarrow> bool) \<Rightarrow> (nat \<Rightarrow> pool_pc) \<Rightarrow> nat" where
  "both P pc = of_bool (P (pc 0)) + of_bool (P (pc 1))"

definition pt_shape :: "pool_threads \<Rightarrow> bool" where
  "pt_shape s \<longleftrightarrow> (let p = pt_pool s in is_pow2 (op_size p) \<and> op_mask p = op_size p - 1
     \<and> length (op_index p) = unat (op_size p))
   \<and> (\<forall>t. pt_pc s t \<noteq> Refused)
   \<and> (\<forall>t. 2 \<le> t \<longrightarrow> pt_pc s t = Free \<or> release_of (pt_pc s t) \<noteq> None)"

definition pt_count :: "pool_threads \<Rightarrow> bool" where
  "pt_count s \<longleftrightarrow> (let p = pt_pool s in
     unat (op_read p) + both (\<lambda>c. c = Checked) (pt_pc s) \<le> unat (op_size p)
   \<and> unat (op_write p) + length (pt_held s) + both (\<lambda>c. claim_of c \<noteq> None) (pt_pc s) \<le> unat (op_read p)
   \<and> (\<forall>t i. claim_of (pt_pc s t) = Some i \<longrightarrow> i < unat (op_read p))
   \<and> (\<forall>t j k. release_of (pt_pc s t) = Some (j, k) \<longrightarrow> j < unat (op_write p)))"

text \<open>The places of \<open>index_\<close> that will still be read, and what they hold.\<close>

definition unread :: "pool_threads \<Rightarrow> nat set" where
  "unread s = {j. j < unat (op_size (pt_pool s))
     \<and> (unat (op_read (pt_pool s)) \<le> j \<or> (\<exists>t. claim_of (pt_pc s t) = Some j))}"

definition entry :: "pool_threads \<Rightarrow> nat \<Rightarrow> nat" where
  "entry s j = unat (op_index (pt_pool s) ! j)"

text \<open>Every object is in at most one place: to be read, held, or being released.\<close>

definition pt_places :: "pool_threads \<Rightarrow> bool" where
  "pt_places s \<longleftrightarrow> inj_on (entry s) (unread s)
   \<and> (\<forall>j \<in> unread s. entry s j \<notin> set (pt_held s) \<and> entry s j < unat (op_size (pt_pool s)))
   \<and> distinct (pt_held s) \<and> (\<forall>k \<in> set (pt_held s). k < unat (op_size (pt_pool s)))
   \<and> (\<forall>t u i. claim_of (pt_pc s t) = Some i \<longrightarrow> claim_of (pt_pc s u) = Some i \<longrightarrow> t = u)
   \<and> (\<forall>t j k. release_of (pt_pc s t) = Some (j, k) \<longrightarrow>
        k < unat (op_size (pt_pool s)) \<and> k \<notin> set (pt_held s) \<and> k \<notin> entry s ` unread s)
   \<and> (\<forall>t u j j' k. release_of (pt_pc s t) = Some (j, k) \<longrightarrow> release_of (pt_pc s u) = Some (j', k) \<longrightarrow> t = u)"

definition pt_inv :: "pool_threads \<Rightarrow> bool" where
  "pt_inv s \<longleftrightarrow> pt_shape s \<and> pt_count s \<and> pt_places s"

lemma both_le: "both P pc \<le> 2"
  by (simp add: both_def)

lemma both_upd:
  "t < 2 \<Longrightarrow> both P (pc(t := c)) + of_bool (P (pc t)) = both P pc + of_bool (P c)"
  "2 \<le> t \<Longrightarrow> both P (pc(t := c)) = both P pc"
  by (auto simp: both_def less_2_cases_iff)

lemma both_same: "P (pc t) = P c \<Longrightarrow> both P (pc(t := c)) = both P pc"
  using both_upd[of t P pc c] by (cases "t < 2") auto

lemma pc_to_simps [simp]:
  "pt_pc (pc_to t c s) = (pt_pc s)(t := c)" "pt_pool (pc_to t c s) = pt_pool s"
  "pt_held (pc_to t c s) = pt_held s"
  by (simp_all add: pc_to_def)

lemma pool_threads_new_inv:
  assumes "is_pow2 sz"
  shows "pt_inv (pool_threads_new sz)"
proof -
  have e: "entry (pool_threads_new sz) j = j" if "j < unat sz" for j
  proof -
    have "j < 2 ^ 64" using that unsigned_less[of sz, where 'a = nat] by simp
    then show ?thesis using that
      by (simp add: entry_def pool_threads_new_def pool_new_def unat_of_nat)
  qed
  then have "inj_on (entry (pool_threads_new sz)) (unread (pool_threads_new sz))"
    by (auto intro!: inj_onI simp: unread_def pool_threads_new_def pool_new_def)
  then show ?thesis using assms e
    by (auto simp: pt_inv_def pt_shape_def pt_count_def pt_places_def both_def unread_def
        pool_threads_new_def pool_new_def)
qed

text \<open>A step that only moves a thread between places without a claim and without an object.\<close>

lemma pt_inv_move:
  assumes inv: "pt_inv s" and c: "claim_of c = claim_of (pt_pc s t)" "release_of c = release_of (pt_pc s t)"
    and "c \<noteq> Refused" and "2 \<le> t \<longrightarrow> c = Free \<or> release_of c \<noteq> None"
    and n: "unat (op_read (pt_pool s)) + both (\<lambda>c. c = Checked) ((pt_pc s)(t := c)) \<le> unat (op_size (pt_pool s))"
  shows "pt_inv (pc_to t c s)"
proof -
  let ?s = "pc_to t c s"
  have cl: "claim_of (pt_pc ?s u) = claim_of (pt_pc s u)" "release_of (pt_pc ?s u) = release_of (pt_pc s u)" for u
    using c by simp_all
  have e: "unread ?s = unread s" "entry ?s = entry s"
    unfolding unread_def entry_def cl by (simp_all add: fun_eq_iff)
  have "pt_shape ?s" using inv assms(4,5) by (auto simp: pt_inv_def pt_shape_def Let_def)
  moreover have "both (\<lambda>c. claim_of c \<noteq> None) ((pt_pc s)(t := c)) = both (\<lambda>c. claim_of c \<noteq> None) (pt_pc s)"
    using c(1) by (intro both_same) simp
  then have "pt_count ?s" using inv n unfolding pt_inv_def pt_count_def cl
    by (simp add: Let_def)
  moreover have "pt_places ?s" using inv unfolding pt_inv_def pt_places_def cl e by simp
  ultimately show ?thesis by (simp add: pt_inv_def)
qed

lemma pt_invD:
  assumes "pt_inv s"
  shows "is_pow2 (op_size (pt_pool s))" and "op_mask (pt_pool s) = op_size (pt_pool s) - 1"
    and "length (op_index (pt_pool s)) = unat (op_size (pt_pool s))"
    and "unat (op_read (pt_pool s)) + both (\<lambda>c. c = Checked) (pt_pc s) \<le> unat (op_size (pt_pool s))"
    and "unat (op_write (pt_pool s)) + length (pt_held s) + both (\<lambda>c. claim_of c \<noteq> None) (pt_pc s)
       \<le> unat (op_read (pt_pool s))"
    and "2 \<le> t \<Longrightarrow> pt_pc s t = Free \<or> release_of (pt_pc s t) \<noteq> None"
    and "claim_of (pt_pc s t) = Some i \<Longrightarrow> i < unat (op_read (pt_pool s))"
    and "release_of (pt_pc s t) = Some (j, k) \<Longrightarrow> j < unat (op_write (pt_pool s))"
  using assms unfolding pt_inv_def pt_shape_def pt_count_def Let_def by blast+

text \<open>\<open>fetch_add\<close>: the first index that nobody has read becomes the thread's.\<close>

lemma pt_inv_claim:
  assumes inv: "pt_inv s" and pc: "pt_pc s t = Checked"
  shows "\<exists>s'. pool_next t Checked s = Done s' \<and> pt_inv s'"
proof -
  let ?p = "pt_pool s" and ?r = "unat (op_read (pt_pool s))" and ?N = "unat (op_size (pt_pool s))"
  let ?s = "pc_to t (Claimed (op_read ?p)) (s\<lparr>pt_pool := ?p\<lparr>op_read := op_read ?p + 1\<rparr>\<rparr>)"
  note D = pt_invD[OF inv]
  have t: "t < 2" using D(6)[of t] pc by (cases "t < 2") auto
  have ck: "both (\<lambda>c. c = Checked) ((pt_pc s)(t := Claimed (op_read ?p))) + 1
      = both (\<lambda>c. c = Checked) (pt_pc s)"
    using both_upd(1)[OF t, of "\<lambda>c. c = Checked" "pt_pc s" "Claimed (op_read ?p)"] pc by simp
  have cm: "both (\<lambda>c. claim_of c \<noteq> None) ((pt_pc s)(t := Claimed (op_read ?p)))
      = both (\<lambda>c. claim_of c \<noteq> None) (pt_pc s) + 1"
    using both_upd(1)[OF t, of "\<lambda>c. claim_of c \<noteq> None" "pt_pc s" "Claimed (op_read ?p)"] pc by simp
  have lt: "?r < ?N" using D(4) ck by simp
  then have r1: "unat (op_read ?p + 1) = ?r + 1"
    using unsigned_less[of "op_size ?p", where 'a = nat] by (simp add: unat_add_bounded)
  have cl: "claim_of (pt_pc ?s u) = (if u = t then Some ?r else claim_of (pt_pc s u))"
    "release_of (pt_pc ?s u) = release_of (pt_pc s u)" for u using pc by simp_all
  have un: "unread ?s = unread s"
  proof -
    have "(?r + 1 \<le> j \<or> (\<exists>u. claim_of (pt_pc ?s u) = Some j)) \<longleftrightarrow> (?r \<le> j \<or> (\<exists>u. claim_of (pt_pc s u) = Some j))" for j
    proof -
      have "(\<exists>u. claim_of (pt_pc ?s u) = Some j) \<longleftrightarrow> j = ?r \<or> (\<exists>u. claim_of (pt_pc s u) = Some j)"
        unfolding cl using pc by (auto split: if_splits) (metis claim_of.simps(4) option.distinct(1))
      then show ?thesis by auto
    qed
    then show ?thesis using r1 unfolding unread_def by simp
  qed
  have e: "entry ?s = entry s" by (simp add: entry_def fun_eq_iff)
  have "pt_shape ?s" using inv t by (auto simp: pt_inv_def pt_shape_def Let_def)
  moreover have "pt_count ?s"
    unfolding pt_count_def cl using D(4,5) ck cm r1 pt_invD(7,8)[OF inv] lt
    by (auto simp: Let_def less_Suc_eq)
  moreover have "pt_places ?s"
    using inv pt_invD(7)[OF inv] unfolding pt_inv_def pt_places_def un e cl by (auto split: if_splits)
  moreover have "pool_next t Checked s = Done ?s" by (simp add: get_claim_def)
  ultimately show ?thesis unfolding pt_inv_def by blast
qed

text \<open>An index below the size always passes the test.\<close>

lemma pt_inv_test:
  assumes inv: "pt_inv s" and pc: "pt_pc s t = Claimed i"
  shows "\<exists>s'. pool_next t (Claimed i) s = Done s' \<and> pt_inv s'"
proof -
  have "unat i < unat (op_size (pt_pool s))"
    using pt_invD(4)[OF inv] pt_invD(7)[OF inv, of t "unat i"] pc by simp
  then have n: "pool_next t (Claimed i) s = Done (pc_to t (Taking i) s)"
    by (simp add: get_test_def word_less_nat_alt)
  have "both (\<lambda>c. c = Checked) ((pt_pc s)(t := Taking i)) = both (\<lambda>c. c = Checked) (pt_pc s)"
    using pc by (intro both_same) simp
  moreover have "\<not> 2 \<le> t" using pt_invD(6)[OF inv, of t] pc by auto
  ultimately have "pt_inv (pc_to t (Taking i) s)"
    using pt_invD(4)[OF inv] pc by (intro pt_inv_move[OF inv]) simp_all
  then show ?thesis using n by blast
qed

text \<open>The object at the claimed place is handed out.\<close>

lemma pt_inv_take:
  assumes inv: "pt_inv s" and pc: "pt_pc s t = Taking i"
  shows "\<exists>s'. pool_next t (Taking i) s = Done s' \<and> pt_inv s'"
proof -
  let ?p = "pt_pool s" and ?N = "unat (op_size (pt_pool s))" and ?i = "unat i"
  let ?k = "entry s ?i"
  let ?s = "pc_to t Free (s\<lparr>pt_held := ?k # pt_held s\<rparr>)"
  note D = pt_invD[OF inv]
  have i: "?i < ?N" using D(4) D(7)[of t ?i] pc by simp
  then have ix: "unat (i AND op_mask ?p) = ?i" using D(1,2) by (simp add: unat_mask)
  have step: "pool_next t (Taking i) s = Done ?s"
    using i ix D(3) by (simp add: get_take_def entry_def)
  have t: "t < 2" using D(6)[of t] pc by (cases "t < 2") auto
  have ck: "both (\<lambda>c. c = Checked) ((pt_pc s)(t := Free)) = both (\<lambda>c. c = Checked) (pt_pc s)"
    using pc by (intro both_same) simp
  have cm: "both (\<lambda>c. claim_of c \<noteq> None) ((pt_pc s)(t := Free)) + 1 = both (\<lambda>c. claim_of c \<noteq> None) (pt_pc s)"
    using both_upd(1)[OF t, of "\<lambda>c. claim_of c \<noteq> None" "pt_pc s" Free] pc by simp
  have cl: "claim_of (pt_pc ?s u) = (if u = t then None else claim_of (pt_pc s u))"
    "release_of (pt_pc ?s u) = release_of (pt_pc s u)" for u using pc by simp_all
  have own: "claim_of (pt_pc s t) = Some ?i" using pc by simp
  have one: "u = t" if "claim_of (pt_pc s u) = Some ?i" for u
    using inv that own unfolding pt_inv_def pt_places_def by blast
  have un: "unread ?s = unread s - {?i}"
  proof -
    have "j \<in> unread ?s \<longleftrightarrow> j \<in> unread s \<and> j \<noteq> ?i" for j
    proof -
      have "(\<exists>u. claim_of (pt_pc ?s u) = Some j) \<longleftrightarrow> (\<exists>u. claim_of (pt_pc s u) = Some j) \<and> j \<noteq> ?i"
      proof
        assume "\<exists>u. claim_of (pt_pc ?s u) = Some j"
        then obtain u where "u \<noteq> t" "claim_of (pt_pc s u) = Some j" unfolding cl by (auto split: if_splits)
        then show "(\<exists>u. claim_of (pt_pc s u) = Some j) \<and> j \<noteq> ?i" using one by blast
      next
        assume "(\<exists>u. claim_of (pt_pc s u) = Some j) \<and> j \<noteq> ?i"
        then obtain u where "claim_of (pt_pc s u) = Some j" "j \<noteq> ?i" by blast
        moreover from this have "u \<noteq> t" using own by auto
        ultimately show "\<exists>u. claim_of (pt_pc ?s u) = Some j" unfolding cl by auto
      qed
      moreover have "\<not> unat (op_read ?p) \<le> ?i" using D(7)[of t ?i] own by simp
      ultimately show ?thesis by (auto simp: unread_def)
    qed
    then show ?thesis by blast
  qed
  have iu: "?i \<in> unread s" using i own by (auto simp: unread_def)
  have e: "entry ?s = entry s" by (simp add: entry_def fun_eq_iff)
  have P: "inj_on (entry s) (unread s)" "\<And>j. j \<in> unread s \<Longrightarrow> entry s j \<notin> set (pt_held s) \<and> entry s j < ?N"
    "distinct (pt_held s)"
    using inv by (auto simp: pt_inv_def pt_places_def)
  have "pt_shape ?s" using inv by (auto simp: pt_inv_def pt_shape_def Let_def)
  moreover have "pt_count ?s"
    unfolding pt_count_def cl using D(4,5) ck cm pt_invD(7,8)[OF inv] by (auto simp: Let_def)
  moreover have "pt_places ?s"
  proof -
    have other: "entry s j \<noteq> ?k" if "j \<in> unread s - {?i}" for j
      using P(1) iu that by (auto dest: inj_onD)
    have R: "k < ?N \<and> k \<notin> set (pt_held s) \<and> k \<notin> entry s ` unread s"
      if "release_of (pt_pc s u) = Some (j, k)" for u j k
      using inv that unfolding pt_inv_def pt_places_def by blast
    then have rel: "k \<noteq> ?k" if "release_of (pt_pc s u) = Some (j, k)" for u j k
      using that iu by blast
    have "inj_on (entry s) (unread s - {?i})" by (rule inj_on_diff[OF P(1)])
    moreover have "\<forall>j \<in> unread s - {?i}. entry s j \<notin> set (?k # pt_held s) \<and> entry s j < ?N"
      using other P(2) by simp
    moreover have "distinct (?k # pt_held s)" using P(2)[OF iu] P(3) by simp
    moreover have "\<forall>k \<in> set (?k # pt_held s). k < ?N"
      using inv P(2)[OF iu] unfolding pt_inv_def pt_places_def by simp
    moreover have "\<forall>u v j. claim_of (pt_pc ?s u) = Some j \<longrightarrow> claim_of (pt_pc ?s v) = Some j \<longrightarrow> u = v"
      using inv unfolding pt_inv_def pt_places_def cl by simp
    moreover have "\<forall>u j k. release_of (pt_pc s u) = Some (j, k) \<longrightarrow>
        k < ?N \<and> k \<notin> set (?k # pt_held s) \<and> k \<notin> entry s ` (unread s - {?i})"
      using R rel by auto
    moreover have "\<forall>u v j j' k. release_of (pt_pc s u) = Some (j, k) \<longrightarrow>
        release_of (pt_pc s v) = Some (j', k) \<longrightarrow> u = v"
      using inv unfolding pt_inv_def pt_places_def by blast
    moreover have held: "pt_held ?s = ?k # pt_held s" "pt_pool ?s = ?p" by simp_all
    ultimately show ?thesis unfolding pt_places_def un e cl(2) held by (intro conjI) assumption+
  qed
  ultimately show ?thesis using step unfolding pt_inv_def by blast
qed

text \<open>\<open>release_obj\<close> stores the object at its target and never at a place outside \<open>index_\<close>.\<close>

lemma pt_inv_store:
  assumes inv: "pt_inv s" and pc: "pt_pc s t = Releasing target k"
  shows "\<exists>s'. pool_next t (Releasing target k) s = Done s' \<and> pt_inv s'"
proof -
  let ?p = "pt_pool s" and ?N = "unat (op_size (pt_pool s))" and ?j = "unat target"
  let ?s = "pc_to t Free (s\<lparr>pt_pool := ?p\<lparr>op_index := (op_index ?p)[?j := word_of_nat k]\<rparr>\<rparr>)"
  note D = pt_invD[OF inv]
  have own: "release_of (pt_pc s t) = Some (?j, k)" using pc by simp
  have j: "?j < ?N" using D(8)[OF own] D(4,5) by simp
  then have ix: "unat (target AND op_mask ?p) = ?j" using D(1,2) by (simp add: unat_mask)
  have step: "pool_next t (Releasing target k) s = Done ?s"
    using j ix D(3) by (simp add: Let_def)
  have k: "k < ?N" "k \<notin> set (pt_held s)" "k \<notin> entry s ` unread s"
    and ku: "\<And>u i. release_of (pt_pc s u) = Some (i, k) \<Longrightarrow> u = t"
    using inv own unfolding pt_inv_def pt_places_def by blast+
  have "k < 2 ^ 64" using k(1) unsigned_less[of "op_size ?p", where 'a = nat] by simp
  then have e: "entry ?s x = (if x = ?j then k else entry s x)" for x
    using j D(3) by (simp add: entry_def unat_of_nat nth_list_update)
  have cl: "claim_of (pt_pc ?s u) = claim_of (pt_pc s u)"
    "release_of (pt_pc ?s u) = (if u = t then None else release_of (pt_pc s u))" for u using pc by simp_all
  have un: "unread ?s = unread s" unfolding unread_def cl by simp
  have ck: "both (\<lambda>c. c = Checked) ((pt_pc s)(t := Free)) = both (\<lambda>c. c = Checked) (pt_pc s)"
    "both (\<lambda>c. claim_of c \<noteq> None) ((pt_pc s)(t := Free)) = both (\<lambda>c. claim_of c \<noteq> None) (pt_pc s)"
    using pc by (intro both_same; simp)+
  have "pt_shape ?s" using inv by (auto simp: pt_inv_def pt_shape_def Let_def)
  moreover have "pt_count ?s"
    unfolding pt_count_def cl using D(4,5) ck pt_invD(7,8)[OF inv] by (auto simp: Let_def)
  moreover have "pt_places ?s"
  proof -
    have P: "inj_on (entry s) (unread s)" "\<And>j. j \<in> unread s \<Longrightarrow> entry s j \<notin> set (pt_held s) \<and> entry s j < ?N"
      "\<And>u j k. release_of (pt_pc s u) = Some (j, k) \<Longrightarrow>
        k < ?N \<and> k \<notin> set (pt_held s) \<and> k \<notin> entry s ` unread s"
      using inv unfolding pt_inv_def pt_places_def by blast+
    have "inj_on (entry ?s) (unread s)"
    proof (rule inj_onI)
      fix x y assume xy: "x \<in> unread s" "y \<in> unread s" "entry ?s x = entry ?s y"
      then have "entry s x \<noteq> k" "entry s y \<noteq> k" using k(3) by auto
      then show "x = y" using xy P(1) unfolding e by (auto split: if_splits dest: inj_onD)
    qed
    moreover have "k' \<notin> entry ?s ` unread s" if "release_of (pt_pc s u) = Some (i, k')" "u \<noteq> t" for u i k'
    proof -
      have "k' \<noteq> k" using ku[of u i] that by auto
      then show ?thesis using P(3)[OF that(1)] unfolding e by auto
    qed
    moreover have "\<forall>x \<in> unread s. entry ?s x \<notin> set (pt_held s) \<and> entry ?s x < ?N"
      using P(2) k(1,2) unfolding e by auto
    ultimately show ?thesis
      using inv unfolding pt_inv_def pt_places_def un cl by (auto split: if_splits)
  qed
  ultimately show ?thesis using step unfolding pt_inv_def by blast
qed

text \<open>The caller of \<open>release_obj\<close> gives the object up with its first step.\<close>

lemma pt_inv_give_back:
  assumes inv: "pt_inv s" and pc: "pt_pc s t = Free" and k: "k \<in> set (pt_held s)"
  shows "\<exists>s'. pool_do (Give_back t k) s = Done s' \<and> pt_inv s'"
proof -
  let ?p = "pt_pool s" and ?N = "unat (op_size (pt_pool s))" and ?w = "unat (op_write (pt_pool s))"
  let ?c = "Releasing (op_write ?p) k"
  let ?s = "pc_to t ?c (s\<lparr>pt_pool := ?p\<lparr>op_write := op_write ?p + 1\<rparr>, pt_held := remove1 k (pt_held s)\<rparr>)"
  note D = pt_invD[OF inv]
  have step: "pool_do (Give_back t k) s = Done ?s" using pc k by (simp add: Let_def)
  have len: "length (remove1 k (pt_held s)) + 1 = length (pt_held s)"
    using k by (simp add: length_remove1) (cases "pt_held s", auto)
  then have "?w + 1 \<le> unat (op_read ?p)" using D(5) by simp
  then have w1: "unat (op_write ?p + 1) = ?w + 1"
    using unsigned_less[of "op_read ?p", where 'a = nat] by (simp add: unat_add_bounded)
  have ck: "both (\<lambda>c. c = Checked) ((pt_pc s)(t := ?c)) = both (\<lambda>c. c = Checked) (pt_pc s)"
    "both (\<lambda>c. claim_of c \<noteq> None) ((pt_pc s)(t := ?c)) = both (\<lambda>c. claim_of c \<noteq> None) (pt_pc s)"
    using pc by (intro both_same; simp)+
  have cl: "claim_of (pt_pc ?s u) = claim_of (pt_pc s u)"
    "release_of (pt_pc ?s u) = (if u = t then Some (?w, k) else release_of (pt_pc s u))" for u using pc by simp_all
  have un: "unread ?s = unread s" unfolding unread_def cl by simp
  have e: "entry ?s = entry s" by (simp add: entry_def fun_eq_iff)
  have P: "\<And>j. j \<in> unread s \<Longrightarrow> entry s j \<notin> set (pt_held s)" "distinct (pt_held s)"
    "\<And>k. k \<in> set (pt_held s) \<Longrightarrow> k < ?N"
    "\<And>u j k. release_of (pt_pc s u) = Some (j, k) \<Longrightarrow> k \<notin> set (pt_held s)"
    using inv unfolding pt_inv_def pt_places_def by blast+
  have h: "set (remove1 k (pt_held s)) = set (pt_held s) - {k}" using P(2) by simp
  have "pt_shape ?s" using inv by (auto simp: pt_inv_def pt_shape_def Let_def)
  moreover have "pt_count ?s"
    unfolding pt_count_def cl using D(4,5) ck pt_invD(7,8)[OF inv] w1 len by (auto simp: Let_def less_Suc_eq)
  moreover have "pt_places ?s"
    using inv P k h unfolding pt_inv_def pt_places_def un e cl
    by (auto split: if_splits)
  ultimately show ?thesis using step unfolding pt_inv_def by blast
qed

lemma pt_inv_step:
  assumes inv: "pt_inv s" and "two_getters e"
  shows "\<exists>s'. pool_do e s = Done s' \<and> pt_inv s'"
proof (cases e)
  case (Enter t)
  have t: "t < 2" using assms(2) Enter by simp
  show ?thesis
  proof (cases "pt_pc s t = Free")
    case True
    let ?c = "if get_check (pt_pool s) then Checked else Allocating"
    have "unat (op_read (pt_pool s)) + both (\<lambda>c. c = Checked) ((pt_pc s)(t := ?c)) \<le> unat (op_size (pt_pool s))"
    proof (cases "get_check (pt_pool s)")
      case ck: True
      have "0 < unat (op_size (pt_pool s))" by (rule is_pow2_pos[OF pt_invD(1)[OF inv]])
      then have "unat (op_mask (pt_pool s)) = unat (op_size (pt_pool s)) - 1"
        using pt_invD(2)[OF inv] by (simp add: unat_sub_bounded)
      then show ?thesis using ck both_le[of "\<lambda>c. c = Checked" "(pt_pc s)(t := ?c)"]
        by (simp add: get_check_def word_less_nat_alt)
    next
      case False
      then show ?thesis using pt_invD(4)[OF inv] both_same[of "\<lambda>c. c = Checked" "pt_pc s" t Allocating] True
        by simp
    qed
    then have "pt_inv (pc_to t ?c s)" using True t by (intro pt_inv_move[OF inv]) auto
    then show ?thesis using Enter True by auto
  qed (use inv Enter in simp)
next
  case (Next t)
  have "pt_pc s t \<noteq> Refused" using inv by (simp add: pt_inv_def pt_shape_def)
  moreover have "\<exists>s'. pool_next t Allocating s = Done s' \<and> pt_inv s'" if a: "pt_pc s t = Allocating"
  proof -
    have "pt_inv (pc_to t Free s)"
      using a pt_invD(4)[OF inv] both_same[of "\<lambda>c. c = Checked" "pt_pc s" t Free]
      by (intro pt_inv_move[OF inv]) simp_all
    then show ?thesis by auto
  qed
  ultimately show ?thesis
    using Next inv pt_inv_claim[OF inv] pt_inv_test[OF inv] pt_inv_take[OF inv] pt_inv_store[OF inv]
    by (cases "pt_pc s t") auto
next
  case (Give_back t k)
  then show ?thesis using pt_inv_give_back[OF inv, of t k] inv by auto
qed

lemma pt_inv_schedule:
  "pt_inv s \<Longrightarrow> \<forall>e \<in> set es. two_getters e \<Longrightarrow> \<exists>s'. pool_schedule es s = Done s' \<and> pt_inv s'"
proof (induction es arbitrary: s)
  case (Cons e es)
  obtain m where "pool_do e s = Done m" "pt_inv m"
    using pt_inv_step[OF Cons.prems(1), of e] Cons.prems(2) by auto
  then show ?case using Cons.IH[of m] Cons.prems(2) by simp
qed simp

section \<open>Properties\<close>

text \<open>
  C15: while at most two threads are in \<open>get_obj\<close>, and any number in \<open>release_obj\<close>, no schedule of
  their atomic steps leads out of the arrays, and no object of the block is in use twice.
\<close>

theorem pool_two_threads:
  assumes "is_pow2 sz" and "\<forall>e \<in> set es. two_getters e"
  shows "\<exists>s. pool_schedule es (pool_threads_new sz) = Done s \<and> distinct (pt_held s)
     \<and> set (pt_held s) \<subseteq> {..< unat sz}"
proof -
  obtain s where s: "pool_schedule es (pool_threads_new sz) = Done s" "pt_inv s"
    using pt_inv_schedule[OF pool_threads_new_inv[OF assms(1)] assms(2)] by blast
  have size: "op_size (pt_pool y) = op_size (pt_pool x)" if "pool_do e x = Done y" for e x y
  proof -
    have "op_size (pt_pool y) = op_size (pt_pool x)" if "pool_next t c x = Done y" for t c
      using that by (cases c)
        (auto simp: get_claim_def get_undo_def get_take_def Let_def result_bind_eq_Done split: if_splits)
    then show ?thesis using that by (cases e) (auto simp: Let_def split: if_splits)
  qed
  have "op_size (pt_pool y) = op_size (pt_pool x)" if "pool_schedule es x = Done y" for x y
    using that by (induction es arbitrary: x) (auto simp: result_bind_eq_Done size)
  then have "op_size (pt_pool s) = sz" using s(1) by (simp add: pool_threads_new_def pool_new_def)
  then show ?thesis using s unfolding pt_inv_def pt_places_def by auto
qed

theorem pool_two_threads_witness:
  "\<exists>s. pool_schedule [Enter 0, Enter 1, Next 1, Next 0, Next 1, Next 1, Give_back 5 0, Next 0, Next 5, Next 0]
      (pool_threads_new 2) = Done s \<and> distinct (pt_held s) \<and> set (pt_held s) \<subseteq> {..< unat (2 :: u64)}"
  by (rule pool_two_threads) (simp_all add: is_pow2_def)

text \<open>
  C34: with five threads in \<open>get_obj\<close> an object is handed out twice: all pass the check while two
  objects are left, one of those that come too late takes back its \<open>fetch_add\<close> after another one has
  passed its test on a later index, and the next one claims that index again.
\<close>

theorem pool_five_threads:
  "\<exists>s. pool_schedule
       (concat (map (\<lambda>t. [Enter t, Next t, Next t, Next t]) [0, 1])
        @ [Enter 0, Enter 1, Enter 2, Enter 3, Enter 4]
        @ [Next 0, Next 1, Next 2, Next 3] @ [Next 0, Next 1] @ [Next 2]
        @ [Give_back 5 0, Next 5, Give_back 6 1, Next 6]
        @ [Next 3, Next 3] @ [Next 2] @ [Next 4, Next 4, Next 4])
       (pool_threads_new 4) = Done s
     \<and> \<not> distinct (pt_held s)"
proof -
  let ?es = "concat (map (\<lambda>t. [Enter t, Next t, Next t, Next t]) [0, 1])
        @ [Enter 0, Enter 1, Enter 2, Enter 3, Enter 4]
        @ [Next 0, Next 1, Next 2, Next 3] @ [Next 0, Next 1] @ [Next 2]
        @ [Give_back 5 0, Next 5, Give_back 6 1, Next 6]
        @ [Next 3, Next 3] @ [Next 2] @ [Next 4, Next 4, Next 4]"
  have "result_bind (pool_schedule ?es (pool_threads_new 4)) (\<lambda>s. Done (pt_held s)) = Done [1, 1]"
    by code_simp
  then obtain s where "pool_schedule ?es (pool_threads_new 4) = Done s" "pt_held s = [1, 1]"
    unfolding result_bind_eq_Done by auto
  then show ?thesis by (intro exI[of _ s]) simp
qed

end
