(* ===== verification/Ring_Threads.thy ===== *)
theory Ring_Threads
  imports String_Ring_Fifo
begin

text \<open>
  \<open>ring_string_buffer\<close> (src/ring_buffer.h) as it is used: one thread of the user writes while the
  service thread reads and resets. Each load or store of what both threads see (the buffer, \<open>cursor_\<close>,
  \<open>reading_begin_\<close>, \<open>writing_\<close>, \<open>resetting_\<close>, \<open>reset_count_\<close>) is a step; what only the running thread
  sees is done along with it. The steps of a thread that is not disturbed are \<open>write\<close> and \<open>read\<close> as
  they are modelled whole.
\<close>

section \<open>The reader's steps\<close>

text \<open>
  Behind the load of \<open>cursor_\<close>, behind the flag, behind the length, and while the caller uses the
  pointer \<open>read\<close> has returned; in \<open>reset\<close> while it waits for the writer and while it clears the ring.
\<close>

datatype rpc =
  R_idle | R_loaded u64 | R_flagged "byte list" | R_sized "byte list" u32 | R_using u64 u64
| R_waiting | R_clearing

definition read_check :: "u64 \<Rightarrow> string_ring \<Rightarrow> (rpc \<times> string_ring) result" where
  "read_check cursor s =
     (if \<not> rs_resetting s \<and> rs_reading_begin s \<noteq> cursor AND rs_mask s
      then result_bind (ring_get (rs_reading_cursor s) 1 s)
        (\<lambda>flg. Done (R_flagged flg, s\<lparr>rs_reading_cursor := rs_reading_cursor s + 1\<rparr>))
      else Done (R_idle, s))"

definition read_len :: "byte list \<Rightarrow> string_ring \<Rightarrow> (rpc \<times> string_ring) result" where
  "read_len flg s =
     (if flg = [flag_byte FLAG_SKIP] then Done (R_sized flg 0, s)
      else result_bind (ring_get (rs_reading_cursor s) 4 s)
        (\<lambda>b. Done (R_sized flg (u32_of_bytes b), s)))"

definition read_advance :: "byte list \<Rightarrow> u32 \<Rightarrow> string_ring \<Rightarrow> (rpc \<times> string_ring) result" where
  "read_advance flg len s =
     (let cur = rs_reading_cursor s + 4;
          index = rs_reading_cursor s AND rs_mask s;
          s = s\<lparr>rs_reading_cursor := rs_reading_cursor s +
                 (if flg = [flag_byte FLAG_SKIP] then (if index \<noteq> 0 then rs_size s - index else 0)
                  else ucast (len + 4))\<rparr>;
          s = s\<lparr>rs_reading_begin := rs_reading_cursor s AND rs_mask s\<rparr>
      in Done (if flg = [flag_byte FLAG_SKIP] \<or> flg = [flag_byte FLAG_INVALID] then R_idle
               else R_using (cur AND rs_mask s) (ucast len), s))"

fun reader_step :: "rpc \<Rightarrow> string_ring \<Rightarrow> (rpc \<times> string_ring) result" where
  "reader_step R_idle s = Done (R_loaded (rs_cursor s), s)"
| "reader_step (R_loaded cursor) s = read_check cursor s"
| "reader_step (R_flagged flg) s = read_len flg s"
| "reader_step (R_sized flg len) s = read_advance flg len s"
| "reader_step (R_using off len) s =
     result_bind (get (rs_buffer s) (unat off) (unat len)) (\<lambda>_. Done (R_idle, s))"
| "reader_step R_waiting s = Done (if rs_writing s then R_waiting else R_clearing, s)"
| "reader_step R_clearing s = Done (R_idle, reset_leave s)"

text \<open>A reader on its own, from the load of \<open>cursor_\<close> to the value that is returned.\<close>

lemma read_string_steps:
  "read_string s = result_bind (read_check (rs_cursor s) s) (\<lambda>(pc, s). case pc of
      R_flagged flg \<Rightarrow> result_bind (read_len flg s) (\<lambda>(pc, s). case pc of
        R_sized flg len \<Rightarrow> result_bind (read_advance flg len s) (\<lambda>(pc, s).
          Done (case pc of R_using off len \<Rightarrow> (Some off, len) | _ \<Rightarrow> (None, 0), s)))
    | _ \<Rightarrow> Done ((None, 0), s))"
  by (auto simp: read_string_def read_check_def read_len_def read_advance_def Let_def
      result_bind_assoc intro!: result_bind_cong)

section \<open>The writer's steps\<close>

text \<open>
  A call \<open>write(msg, len, remaining)\<close> and its copy of \<open>reset_count_\<close>. \<open>W_done b\<close>: no call is running,
  the last one returned \<open>b\<close>.
\<close>

type_synonym write_call = "byte list \<times> u64 \<times> u32"

datatype wpc =
  W_done bool
| W_start "byte list" u64
| W_enter write_call
| W_skip write_call u64
| W_pad write_call u64
| W_wait write_call u64 u64
| W_wait_end write_call u64 u64
| W_flag write_call
| W_len write_call
| W_copy write_call
| W_publish write_call

definition w_begin :: "byte list \<Rightarrow> u64 \<Rightarrow> string_ring \<Rightarrow> wpc" where
  "w_begin msg remaining s =
     (if rs_resetting s \<or> (word_of_nat (length msg) :: u64) = 0 then W_done False
      else W_start msg remaining)"

text \<open>The loop that waits for a slow consumer, with its locals \<open>begin\<close> and \<open>end\<close>.\<close>

definition w_wait :: "write_call \<Rightarrow> string_ring \<Rightarrow> wpc" where
  "w_wait c s = W_wait c (rs_writing_cursor s AND rs_mask s)
     ((rs_writing_cursor s + rs_total s) AND rs_mask s)"

definition w_enter :: "bool \<Rightarrow> write_call \<Rightarrow> string_ring \<Rightarrow> (wpc \<times> string_ring) result" where
  "w_enter ndebug = (\<lambda>(msg, remaining, cnt) s.
     if rs_writing_cursor s \<noteq> 0 then Done (W_copy (msg, remaining, cnt), s)
     else let len = word_of_nat (length msg);
              s = s\<lparr>rs_total := len + remaining + 5, rs_remaining := len + remaining\<rparr>
       in if rs_total s \<ge> rs_size s
          then check_assert ndebug False
                 (Done (W_done False, s\<lparr>rs_writing_cursor := 1, rs_remaining := rs_remaining s - len,
                    rs_skip := True, rs_writing := False\<rparr>))
          else let s = s\<lparr>rs_writing_begin := rs_reserved s, rs_writing_cursor := rs_reserved s,
                     rs_reserved := rs_reserved s + rs_total s\<rparr>;
                   index = rs_writing_begin s AND rs_mask s
            in if index + rs_total s \<ge> rs_size s
               then let padding_sz = rs_size s - index
                 in Done (W_skip (msg, remaining, cnt) padding_sz,
                      s\<lparr>rs_reserved := rs_reserved s + padding_sz\<rparr>)
               else Done (w_wait (msg, remaining, cnt) s, s))"

text \<open>One round of the loop in \<open>_notify\<close>.\<close>

definition w_notify :: "u64 \<Rightarrow> string_ring \<Rightarrow> string_ring option" where
  "w_notify num s = (if rs_cursor s \<noteq> rs_writing_begin s then None
     else Some (s\<lparr>rs_cursor := rs_cursor s + num, rs_writing_begin := rs_writing_begin s + num\<rparr>))"

definition w_copy :: "bool \<Rightarrow> write_call \<Rightarrow> string_ring \<Rightarrow> (wpc \<times> string_ring) result" where
  "w_copy ndebug = (\<lambda>(msg, remaining, cnt) s.
     let len = word_of_nat (length msg); s = s\<lparr>rs_remaining := rs_remaining s - len\<rparr> in
     check_assert ndebug (rs_remaining s = remaining)
       (result_bind
         (if rs_remaining s = remaining \<and> \<not> rs_skip s
          then result_bind (ring_put (rs_writing_cursor s) msg s)
                 (\<lambda>s. Done (s\<lparr>rs_writing_cursor := rs_writing_cursor s + len\<rparr>))
          else Done s)
         (\<lambda>s. if remaining \<noteq> 0 then Done (W_done True, s\<lparr>rs_writing := False\<rparr>)
              else if rs_skip s
                then Done (W_done True, s\<lparr>rs_writing_cursor := 0, rs_skip := False, rs_writing := False\<rparr>)
              else result_bind
                 (if rs_remaining s \<noteq> remaining
                  then ring_put (rs_writing_begin s) [flag_byte FLAG_INVALID] s else Done s)
                 (\<lambda>s. Done (W_publish (msg, remaining, cnt), s)))))"

fun writer_step :: "bool \<Rightarrow> wpc \<Rightarrow> string_ring \<Rightarrow> (wpc \<times> string_ring) result" where
  "writer_step ndebug (W_done b) s = Done (W_done b, s)"
| "writer_step ndebug (W_start msg remaining) s =
     Done (W_enter (msg, remaining, rs_reset_count s), s\<lparr>rs_writing := True\<rparr>)"
| "writer_step ndebug (W_enter c) s = w_enter ndebug c s"
| "writer_step ndebug (W_skip c pad) s =
     result_bind (ring_put (rs_writing_cursor s) [flag_byte FLAG_SKIP] s) (\<lambda>s. Done (W_pad c pad, s))"
| "writer_step ndebug (W_pad c pad) s = (case w_notify pad s of
     None \<Rightarrow> Done (W_pad c pad, s)
   | Some s \<Rightarrow> let s = s\<lparr>rs_writing_cursor := rs_writing_begin s\<rparr> in Done (w_wait c s, s))"
| "writer_step ndebug (W_wait c begin_ix end_ix) s =
     Done (if \<not> rs_resetting s \<and> begin_ix < rs_reading_begin s
           then W_wait_end c begin_ix end_ix else W_flag c, s)"
| "writer_step ndebug (W_wait_end c begin_ix end_ix) s =
     Done (if end_ix > rs_reading_begin s then W_wait c begin_ix end_ix else W_flag c, s)"
| "writer_step ndebug (W_flag (msg, remaining, cnt)) s =
     (if cnt \<noteq> rs_reset_count s
      then Done (W_done False, s\<lparr>rs_writing_cursor := 0, rs_skip := False, rs_writing := False\<rparr>)
      else result_bind (ring_put (rs_writing_cursor s) [flag_byte FLAG_OK] s)
        (\<lambda>s. Done (W_len (msg, remaining, cnt), s\<lparr>rs_writing_cursor := rs_writing_cursor s + 1\<rparr>)))"
| "writer_step ndebug (W_len c) s =
     result_bind (ring_put (rs_writing_cursor s) (bytes_of_u32 (ucast (rs_total s) - 5)) s)
       (\<lambda>s. Done (W_copy c, s\<lparr>rs_writing_cursor := rs_writing_cursor s + 4\<rparr>))"
| "writer_step ndebug (W_copy c) s = w_copy ndebug c s"
| "writer_step ndebug (W_publish c) s = (case w_notify (rs_total s) s of
     None \<Rightarrow> Done (W_publish c, s)
   | Some s \<Rightarrow> Done (W_done True, s\<lparr>rs_writing_cursor := 0, rs_skip := False, rs_writing := False\<rparr>))"

fun writer_alone :: "bool \<Rightarrow> nat \<Rightarrow> wpc \<Rightarrow> string_ring \<Rightarrow> (wpc \<times> string_ring) result" where
  "writer_alone ndebug 0 pc s = Done (pc, s)"
| "writer_alone ndebug (Suc n) pc s =
     result_bind (writer_step ndebug pc s) (\<lambda>(pc, s). writer_alone ndebug n pc s)"

lemma writer_alone_add:
  "writer_alone ndebug (m + n) pc s
    = result_bind (writer_alone ndebug m pc s) (\<lambda>(pc, s). writer_alone ndebug n pc s)"
  by (induction m arbitrary: pc s) (auto simp: result_bind_assoc split_beta intro!: result_bind_cong)

lemma writer_alone_done [simp]: "writer_alone ndebug n (W_done b) s = Done (W_done b, s)"
  by (induction n) auto

section \<open>A writer on its own\<close>

definition goes :: "bool \<Rightarrow> wpc \<Rightarrow> string_ring \<Rightarrow> wpc \<Rightarrow> string_ring \<Rightarrow> bool" where
  "goes ndebug pc s pc' s' \<longleftrightarrow> (\<exists>n. writer_alone ndebug n pc s = Done (pc', s'))"

lemma goes_refl [intro]: "goes ndebug pc s pc s"
  unfolding goes_def by (rule exI[of _ 0]) simp

lemma goes_step:
  assumes "writer_step ndebug pc s = Done (pc1, s1)" "goes ndebug pc1 s1 pc' s'"
  shows "goes ndebug pc s pc' s'"
proof -
  obtain n where "writer_alone ndebug n pc1 s1 = Done (pc', s')" using assms(2) by (auto simp: goes_def)
  then show ?thesis using assms(1) unfolding goes_def by (intro exI[of _ "Suc n"]) simp
qed

lemma goes_trans: "goes ndebug pc s pc1 s1 \<Longrightarrow> goes ndebug pc1 s1 pc' s' \<Longrightarrow> goes ndebug pc s pc' s'"
  unfolding goes_def by (auto simp: writer_alone_add) (metis (no_types, lifting) case_prod_conv result_bind.simps(1) writer_alone_add)

lemma spin_nil: "spin_while c [] s = Done (t, r) \<longleftrightarrow> t = s \<and> r = [] \<and> \<not> c s"
  by auto

lemma notify_nil: "notify num [] s = Done (t, r) \<longleftrightarrow> w_notify num s = Some t \<and> r = []"
  by (auto simp: notify_def w_notify_def result_bind_eq_Done)

lemma goes_reserve:
  assumes r: "write_reserve [] (s\<lparr>rs_total := len + remaining + 5, rs_remaining := len + remaining\<rparr>) = Done (t, r)"
    and cur: "rs_writing_cursor s = 0" and len: "len = word_of_nat (length msg)"
    and fits: "\<not> rs_size s \<le> len + remaining + 5"
  shows "goes ndebug (W_enter (msg, remaining, cnt)) s (w_wait (msg, remaining, cnt) t) t"
proof (cases "rs_size s \<le> (rs_reserved s AND rs_mask s) + (len + remaining + 5)")
  case False
  then have "writer_step ndebug (W_enter (msg, remaining, cnt)) s = Done (w_wait (msg, remaining, cnt) t, t)"
    using r cur len fits by (auto simp: write_reserve_def w_enter_def Let_def)
  then show ?thesis by (rule goes_step) auto
next
  case True
  let ?c = "(msg, remaining, cnt)"
  let ?pad = "rs_size s - (rs_reserved s AND rs_mask s)"
  let ?s = "s\<lparr>rs_total := len + remaining + 5, rs_remaining := len + remaining,
     rs_writing_begin := rs_reserved s, rs_writing_cursor := rs_reserved s,
     rs_reserved := rs_reserved s + (len + remaining + 5) + ?pad\<rparr>"
  from r True obtain u v where u: "ring_put (rs_reserved s) [flag_byte FLAG_SKIP] ?s = Done u"
    "w_notify ?pad u = Some v" "t = v\<lparr>rs_writing_cursor := rs_writing_begin v\<rparr>"
    by (auto simp: write_reserve_def Let_def result_bind_eq_Done notify_nil)
  have "writer_step ndebug (W_enter ?c) s = Done (W_skip ?c ?pad, ?s)"
    using True cur len fits by (simp add: w_enter_def Let_def)
  moreover have "writer_step ndebug (W_skip ?c ?pad) ?s = Done (W_pad ?c ?pad, u)" using u(1) by simp
  moreover have "writer_step ndebug (W_pad ?c ?pad) u = Done (w_wait ?c t, t)" using u(2,3) by (simp add: Let_def)
  ultimately show ?thesis by (blast intro: goes_step)
qed

lemma goes_wait:
  assumes "write_wait [] t = Done (u, r)"
  shows "goes ndebug (w_wait c t) t (W_flag c) t \<and> u = t \<and> r = []"
proof -
  let ?b = "rs_writing_cursor t AND rs_mask t" and ?e = "(rs_writing_cursor t + rs_total t) AND rs_mask t"
  have no: "\<not> overlap ?b ?e t" "u = t" "r = []" using assms
    by (auto simp: write_wait_def Let_def split: if_splits)
  have "goes ndebug (W_wait c ?b ?e) t (W_flag c) t"
  proof (cases "\<not> rs_resetting t \<and> ?b < rs_reading_begin t")
    case True
    then have "writer_step ndebug (W_wait c ?b ?e) t = Done (W_wait_end c ?b ?e, t)"
      "writer_step ndebug (W_wait_end c ?b ?e) t = Done (W_flag c, t)"
      using no(1) by (simp_all add: overlap_def)
    then show ?thesis by (blast intro: goes_step)
  next
    case False
    then have "writer_step ndebug (W_wait c ?b ?e) t = Done (W_flag c, t)" by auto
    then show ?thesis by (blast intro: goes_step)
  qed
  then show ?thesis using no(2,3) by (simp add: w_wait_def)
qed

lemma goes_open:
  assumes o: "write_open ndebug cnt (word_of_nat (length msg)) remaining [] s = Done (x, t, r)"
    and cur: "rs_writing_cursor s = 0"
  shows "case x of
     Some b \<Rightarrow> goes ndebug (W_enter (msg, remaining, cnt)) s (W_done b) (t\<lparr>rs_writing := False\<rparr>)
   | None \<Rightarrow> goes ndebug (W_enter (msg, remaining, cnt)) s (W_copy (msg, remaining, cnt)) t \<and> r = []"
proof -
  let ?len = "word_of_nat (length msg) :: u64" and ?c = "(msg, remaining, cnt)"
  let ?s = "s\<lparr>rs_total := ?len + remaining + 5, rs_remaining := ?len + remaining\<rparr>"
  show ?thesis
  proof (cases "rs_size s \<le> ?len + remaining + 5")
    case True
    then have "ndebug" "x = Some False"
      "t = ?s\<lparr>rs_writing_cursor := 1, rs_remaining := ?len + remaining - ?len, rs_skip := True\<rparr>"
      using o by (auto simp: write_open_def check_assert_def Let_def split: if_splits)
    moreover from this have "writer_step ndebug (W_enter ?c) s = Done (W_done False, t\<lparr>rs_writing := False\<rparr>)"
      using True cur by (simp add: w_enter_def Let_def check_assert_def)
    ultimately show ?thesis by (auto intro: goes_step)
  next
    case False
    then obtain u where u: "write_reserve [] ?s = Done (u, [])" "write_wait [] u = Done (u, [])"
      and x: "(if cnt \<noteq> rs_reset_count u
         then Done (Some False, u\<lparr>rs_writing_cursor := 0, rs_skip := False\<rparr>, [])
         else result_bind (write_header u) (\<lambda>s. Done (None, s, []))) = Done (x, t, r)"
    proof -
      from o False obtain u1 r1 u2 r2 where 1: "write_reserve [] ?s = Done (u1, r1)"
        "write_wait r1 u1 = Done (u2, r2)"
        and x: "(if cnt \<noteq> rs_reset_count u2
         then Done (Some False, u2\<lparr>rs_writing_cursor := 0, rs_skip := False\<rparr>, r2)
         else result_bind (write_header u2) (\<lambda>s. Done (None, s, r2))) = Done (x, t, r)"
        by (auto simp: write_open_def Let_def result_bind_eq_Done split del: if_split)
      have r1: "r1 = []" using 1(1)
        by (auto simp: write_reserve_def Let_def result_bind_eq_Done notify_nil split: if_splits)
      then have e: "u2 = u1" "r2 = []" using goes_wait 1(2) by blast+
      show ?thesis by (rule that[OF 1(1)[unfolded r1] 1(2)[unfolded r1 e] x[unfolded e]])
    qed
    have g: "goes ndebug (W_enter ?c) s (W_flag ?c) u"
      using goes_trans[OF goes_reserve[OF u(1) cur refl False]] goes_wait[OF u(2)] by blast
    show ?thesis
    proof (cases "cnt = rs_reset_count u")
      case True
      then obtain v where v: "write_header u = Done v" "x = None" "t = v" "r = []"
        using x by (auto simp: result_bind_eq_Done)
      then obtain w where w: "ring_put (rs_writing_cursor u) [flag_byte FLAG_OK] u = Done w"
        "writer_step ndebug (W_len ?c) (w\<lparr>rs_writing_cursor := rs_writing_cursor w + 1\<rparr>) = Done (W_copy ?c, v)"
        by (auto simp: write_header_def Let_def result_bind_eq_Done)
      from w(1) True have "writer_step ndebug (W_flag ?c) u
        = Done (W_len ?c, w\<lparr>rs_writing_cursor := rs_writing_cursor w + 1\<rparr>)" by simp
      then have "goes ndebug (W_flag ?c) u (W_copy ?c) v" using w(2) by (blast intro: goes_step)
      then show ?thesis using g v goes_trans by fastforce
    next
      case False
      then have "x = Some False" "t = u\<lparr>rs_writing_cursor := 0, rs_skip := False\<rparr>" using x by auto
      moreover from this False have
        "writer_step ndebug (W_flag ?c) u = Done (W_done False, t\<lparr>rs_writing := False\<rparr>)" by simp
      ultimately show ?thesis using goes_trans[OF g goes_step[OF _ goes_refl]] by simp
    qed
  qed
qed

lemma goes_body:
  assumes b: "write_body ndebug msg (word_of_nat (length msg)) remaining [] s = Done (t, r)"
  shows "goes ndebug (W_copy (msg, remaining, cnt)) s (W_done True) (t\<lparr>rs_writing := False\<rparr>) \<and> r = []"
proof -
  let ?len = "word_of_nat (length msg) :: u64" and ?c = "(msg, remaining, cnt)"
  let ?s = "s\<lparr>rs_remaining := rs_remaining s - ?len\<rparr>"
  have ok: "rs_remaining ?s = remaining \<or> ndebug" using b
    by (auto simp: write_body_def check_assert_def Let_def split: if_splits)
  then obtain u where u: "(if rs_remaining ?s = remaining \<and> \<not> rs_skip ?s
      then result_bind (ring_put (rs_writing_cursor ?s) msg ?s)
             (\<lambda>s. Done (s\<lparr>rs_writing_cursor := rs_writing_cursor s + ?len\<rparr>)) else Done ?s) = Done u"
    and k: "(if remaining = 0
        then result_bind
          (if \<not> rs_skip u
           then result_bind
                  (if rs_remaining u \<noteq> remaining then ring_put (rs_writing_begin u) [flag_byte FLAG_INVALID] u
                   else Done u)
                  (\<lambda>s. notify (rs_total s) [] s)
           else Done (u, []))
          (\<lambda>(s, sched). Done (s\<lparr>rs_writing_cursor := 0, rs_skip := False\<rparr>, sched))
        else Done (u, [])) = Done (t, r)"
    using b unfolding write_body_def Let_def check_assert_def by (auto simp: result_bind_eq_Done)
  have copy: "w_copy ndebug ?c s = (if remaining \<noteq> 0 then Done (W_done True, u\<lparr>rs_writing := False\<rparr>)
       else if rs_skip u
         then Done (W_done True, u\<lparr>rs_writing_cursor := 0, rs_skip := False, rs_writing := False\<rparr>)
       else result_bind
          (if rs_remaining u \<noteq> remaining then ring_put (rs_writing_begin u) [flag_byte FLAG_INVALID] u else Done u)
          (\<lambda>s. Done (W_publish ?c, s)))"
    using u ok unfolding w_copy_def Let_def check_assert_def by auto
  consider "remaining \<noteq> 0" | "remaining = 0" "rs_skip u" | "remaining = 0" "\<not> rs_skip u" by blast
  then show ?thesis
  proof cases
    case 3
    then obtain v w where v: "(if rs_remaining u \<noteq> remaining
        then ring_put (rs_writing_begin u) [flag_byte FLAG_INVALID] u else Done u) = Done v"
      "w_notify (rs_total v) v = Some w" "t = w\<lparr>rs_writing_cursor := 0, rs_skip := False\<rparr>" "r = []"
      using k by (auto simp: result_bind_eq_Done notify_nil split del: if_split)
    have "writer_step ndebug (W_copy ?c) s = Done (W_publish ?c, v)" using copy 3 v(1) by simp
    moreover have "writer_step ndebug (W_publish ?c) v = Done (W_done True, t\<lparr>rs_writing := False\<rparr>)"
      using v(2,3) by simp
    ultimately show ?thesis using v(4) by (blast intro: goes_step)
  qed (use k copy in \<open>auto intro: goes_step\<close>)
qed

text \<open>The steps of an undisturbed writer make up \<open>write\<close>.\<close>

lemma write_string_steps:
  assumes "write_string ndebug msg remaining [] s = Done (b, t, r)"
  shows "goes ndebug (w_begin msg remaining s) s (W_done b) t"
proof (cases "rs_resetting s \<or> (word_of_nat (length msg) :: u64) = 0")
  case True
  then show ?thesis using assms by (auto simp: write_string_def w_begin_def Let_def)
next
  case False
  let ?s = "s\<lparr>rs_writing := True\<rparr>" and ?c = "(msg, remaining, rs_reset_count s)"
  have pc: "w_begin msg remaining s = W_start msg remaining" using False by (simp add: w_begin_def)
  have start: "writer_step ndebug (W_start msg remaining) s = Done (W_enter ?c, ?s)" by simp
  from False assms obtain x u v where
    o: "(if rs_writing_cursor ?s = 0 then write_open ndebug (rs_reset_count ?s) (word_of_nat (length msg)) remaining [] ?s
         else Done (None, ?s, [])) = Done (x, u, v)"
    and k: "(case x of
          Some b \<Rightarrow> Done (b, u\<lparr>rs_writing := False\<rparr>, v)
        | None \<Rightarrow> result_bind (write_body ndebug msg (word_of_nat (length msg)) remaining v u)
            (\<lambda>(s, sched). Done (True, s\<lparr>rs_writing := False\<rparr>, sched))) = Done (b, t, r)"
    unfolding write_string_def Let_def by (auto simp: result_bind_eq_Done split del: if_split)
  have "goes ndebug (W_enter ?c) ?s (W_done b) t"
  proof (cases x)
    case (Some b')
    then have "rs_writing_cursor ?s = 0" using o by (auto split: if_splits)
    then show ?thesis using goes_open[of ndebug "rs_reset_count s" msg remaining ?s x u v] o k Some by simp
  next
    case None
    have g: "goes ndebug (W_enter ?c) ?s (W_copy ?c) u \<and> v = []"
    proof (cases "rs_writing_cursor ?s = 0")
      case True
      then show ?thesis using goes_open[of ndebug "rs_reset_count s" msg remaining ?s x u v] o None by simp
    next
      case wc: False
      then have "writer_step ndebug (W_enter ?c) ?s = Done (W_copy ?c, ?s)" by (simp add: w_enter_def)
      then show ?thesis using o wc by (auto intro: goes_step)
    qed
    then obtain w where "write_body ndebug msg (word_of_nat (length msg)) remaining [] u = Done (w, r)"
      "b = True" "t = w\<lparr>rs_writing := False\<rparr>" using k None by (auto simp: result_bind_eq_Done)
    then show ?thesis using goes_body[of ndebug msg remaining u w r] g goes_trans by blast
  qed
  then show ?thesis unfolding pc by (rule goes_step[OF start])
qed

section \<open>Properties\<close>



end
