(* ===== verification/Ring_Threads_Fifo.thy ===== *)
theory Ring_Threads_Fifo
  imports Ring_Threads
begin

text \<open>
  One writer and one reader on a \<open>ring_string_buffer\<close>, step by step. In every interleaving of their
  steps the caller of \<open>read\<close> sees exactly the messages that were published, whole, once and in order,
  as long as a message is only started when there is room for it beside what is unread or still in
  use. With a \<open>reset\<close> in between this is lost.
\<close>

section \<open>Two threads on a ring\<close>

text \<open>
  The ring, the places of the threads, and what happened so far: the parts of the current message that
  have been written, the messages that have been published, and those the caller of \<open>read\<close> has seen.
\<close>

record ring_threads =
  rt_ring :: string_ring
  rt_writer :: wpc
  rt_reader :: rpc
  rt_open :: "byte list"
  rt_sent :: "byte list list"
  rt_got :: "byte list list"

definition ring_threads_new :: "byte list \<Rightarrow> u64 \<Rightarrow> ring_threads" where
  "ring_threads_new mem sz = \<lparr>rt_ring = string_ring_new mem sz, rt_writer = W_done True,
     rt_reader = R_idle, rt_open = [], rt_sent = [], rt_got = []\<rparr>"

text \<open>A call of \<open>write\<close>, a step of the writer or the reader, a call of \<open>reset\<close> by the reader's thread.\<close>

datatype ring_event = Start_write "byte list" u64 | Writer | Reader | Start_reset

definition note_written :: "wpc \<Rightarrow> wpc \<Rightarrow> ring_threads \<Rightarrow> ring_threads" where
  "note_written pc pc' m = (case (pc, pc') of
     (W_copy (msg, _), W_done b) \<Rightarrow> m\<lparr>rt_open := rt_open m @ msg\<rparr>
   | (W_publish (msg, _), W_done b) \<Rightarrow> m\<lparr>rt_sent := rt_sent m @ [rt_open m @ msg], rt_open := []\<rparr>
   | _ \<Rightarrow> m)"

fun ring_do :: "bool \<Rightarrow> ring_event \<Rightarrow> ring_threads \<Rightarrow> ring_threads result" where
  "ring_do ndebug (Start_write msg remaining) m = Done (case rt_writer m of
     W_done b \<Rightarrow> m\<lparr>rt_writer := w_begin msg remaining (rt_ring m)\<rparr> | _ \<Rightarrow> m)"
| "ring_do ndebug Writer m =
     result_bind (writer_step ndebug (rt_writer m) (rt_ring m)) (\<lambda>(pc, s).
       Done (note_written (rt_writer m) pc (m\<lparr>rt_writer := pc, rt_ring := s\<rparr>)))"
| "ring_do ndebug Reader m =
     result_bind (reader_step (rt_reader m) (rt_ring m)) (\<lambda>(pc, s).
       Done (m\<lparr>rt_reader := pc, rt_ring := s, rt_got := rt_got m @ (case rt_reader m of
         R_using off len \<Rightarrow> [chunk (rs_buffer (rt_ring m)) (unat off) (unat len)] | _ \<Rightarrow> [])\<rparr>))"
| "ring_do ndebug Start_reset m = Done (if rt_reader m = R_idle
     then m\<lparr>rt_reader := R_waiting, rt_ring := reset_enter (rt_ring m)\<rparr> else m)"

fun ring_schedule :: "bool \<Rightarrow> ring_event list \<Rightarrow> ring_threads \<Rightarrow> ring_threads result" where
  "ring_schedule ndebug [] m = Done m"
| "ring_schedule ndebug (e # es) m = result_bind (ring_do ndebug e m) (ring_schedule ndebug es)"

lemma ring_schedule_append:
  "ring_schedule ndebug (as @ bs) m = result_bind (ring_schedule ndebug as m) (ring_schedule ndebug bs)"
  by (induction as arbitrary: m) (simp_all add: result_bind_assoc cong: result_bind_cong)

text \<open>Where the part of the ring begins that is unread or still in use by the caller of \<open>read\<close>.\<close>

definition in_use :: "ring_threads \<Rightarrow> nat" where
  "in_use m = unat (rs_reading_cursor (rt_ring m)) - (case rt_reader m of
     R_flagged _ \<Rightarrow> 1 | R_sized _ _ \<Rightarrow> 1 | R_using off len \<Rightarrow> 5 + unat len | _ \<Rightarrow> 0)"

definition room_from :: "nat \<Rightarrow> string_ring \<Rightarrow> nat \<Rightarrow> bool" where
  "room_from b s n \<longleftrightarrow> unat (rs_reserved s) - b + padding s n + (n + 5) < ring_cap s
     \<and> unat (rs_reserved s) + padding s n + (n + 5) < 2 ^ 64"

lemma room_from_code [code]:
  "room_from b s n \<longleftrightarrow> unat (rs_reserved s) - b + padding s n + (n + 5) < ring_cap s
     \<and> int (unat (rs_reserved s) + padding s n + (n + 5)) < 18446744073709551616"
proof -
  have "int m < 18446744073709551616 \<longleftrightarrow> m < 2 ^ 64" for m by simp
  then show ?thesis by (simp only: room_from_def)
qed

text \<open>
  A user starts a message only when there is room for all of it, and its parts have the announced
  lengths; nobody resets the ring.
\<close>

fun event_ok :: "ring_event \<Rightarrow> ring_threads \<Rightarrow> bool" where
  "event_ok (Start_write msg remaining) m \<longleftrightarrow> (case rt_writer m of
     W_done b \<Rightarrow> msg \<noteq> [] \<and>
       (if rs_writing_cursor (rt_ring m) = 0
        then room_from (in_use m) (rt_ring m) (length msg + unat remaining)
        else length msg + unat remaining = unat (rs_remaining (rt_ring m)))
   | _ \<Rightarrow> True)"
| "event_ok Writer m \<longleftrightarrow> True"
| "event_ok Reader m \<longleftrightarrow> True"
| "event_ok Start_reset m \<longleftrightarrow> False"

fun schedule_ok :: "bool \<Rightarrow> ring_event list \<Rightarrow> ring_threads \<Rightarrow> bool" where
  "schedule_ok ndebug [] m \<longleftrightarrow> True"
| "schedule_ok ndebug (e # es) m \<longleftrightarrow> event_ok e m \<and>
     (case ring_do ndebug e m of Done m' \<Rightarrow> schedule_ok ndebug es m' | _ \<Rightarrow> True)"

section \<open>The invariant\<close>

text \<open>The frames \<open>fs\<close> lie between the position \<open>b\<close> and \<open>cursor_\<close>.\<close>

definition published :: "string_ring \<Rightarrow> nat \<Rightarrow> frame list \<Rightarrow> bool" where
  "published s b fs \<longleftrightarrow> ring_wf s \<and> \<not> rs_skip s \<and> \<not> rs_resetting s
     \<and> unat (rs_cursor s) = b + frames_size fs \<and> frames_size fs < ring_cap s
     \<and> frames_at (rs_buffer s) (ring_cap s) b fs \<and> (\<forall>n. Bad n \<notin> set fs)"

lemma published_upd [simp]:
  "published (s\<lparr>rs_writing_cursor := x\<rparr>) b fs = published s b fs"
  "published (s\<lparr>rs_writing_begin := x\<rparr>) b fs = published s b fs"
  "published (s\<lparr>rs_reserved := x\<rparr>) b fs = published s b fs"
  "published (s\<lparr>rs_total := x\<rparr>) b fs = published s b fs"
  "published (s\<lparr>rs_remaining := x\<rparr>) b fs = published s b fs"
  "published (s\<lparr>rs_writing := f\<rparr>) b fs = published s b fs"
  "published (s\<lparr>rs_reading_cursor := x\<rparr>) b fs = published s b fs"
  "published (s\<lparr>rs_reading_begin := x\<rparr>) b fs = published s b fs"
  by (simp_all add: published_def)

text \<open>The arguments of the call of \<open>write\<close> that is running.\<close>

fun call_of :: "wpc \<Rightarrow> (byte list \<times> u64) option" where
  "call_of (W_done b) = None"
| "call_of (W_start msg remaining) = Some (msg, remaining)"
| "call_of (W_enter (msg, remaining, cnt)) = Some (msg, remaining)"
| "call_of (W_skip (msg, remaining, cnt) pad) = Some (msg, remaining)"
| "call_of (W_pad (msg, remaining, cnt) pad) = Some (msg, remaining)"
| "call_of (W_wait (msg, remaining, cnt) x y) = Some (msg, remaining)"
| "call_of (W_wait_end (msg, remaining, cnt) x y) = Some (msg, remaining)"
| "call_of (W_flag (msg, remaining, cnt)) = Some (msg, remaining)"
| "call_of (W_len (msg, remaining, cnt)) = Some (msg, remaining)"
| "call_of (W_copy (msg, remaining, cnt)) = Some (msg, remaining)"
| "call_of (W_publish (msg, remaining, cnt)) = Some (msg, remaining)"

text \<open>What holds at each place of the writer; \<open>op\<close> are the parts written so far.\<close>

definition w_ready :: "byte list \<Rightarrow> u64 \<Rightarrow> string_ring \<Rightarrow> nat \<Rightarrow> frame list \<Rightarrow> byte list \<Rightarrow> bool" where
  "w_ready msg remaining s b fs op \<longleftrightarrow> msg \<noteq> [] \<and>
     (op = [] \<and> rs_reserved s = rs_cursor s \<and> rs_writing_cursor s = 0
        \<and> room_from b s (length msg + unat remaining)
      \<or> op \<noteq> [] \<and> ring_partial s fs op (length msg + unat remaining))"

definition w_padding :: "write_call \<Rightarrow> u64 \<Rightarrow> string_ring \<Rightarrow> frame list \<Rightarrow> byte list \<Rightarrow> bool" where
  "w_padding c pad s fs op \<longleftrightarrow> (case c of (msg, remaining, cnt) \<Rightarrow>
     let n = length msg + unat remaining; k = unat (rs_cursor s) in
     op = [] \<and> msg \<noteq> [] \<and> cnt = rs_reset_count s
     \<and> rs_writing_begin s = rs_cursor s \<and> rs_writing_cursor s = rs_cursor s
     \<and> 0 < unat pad \<and> k mod ring_cap s + unat pad = ring_cap s
     \<and> unat (rs_total s) = n + 5 \<and> unat (rs_remaining s) = n
     \<and> unat (rs_reserved s) = k + unat pad + (n + 5)
     \<and> frames_size fs + unat pad + (n + 5) < ring_cap s)"

definition w_laid :: "write_call \<Rightarrow> nat \<Rightarrow> string_ring \<Rightarrow> frame list \<Rightarrow> byte list \<Rightarrow> bool" where
  "w_laid c i s fs op \<longleftrightarrow> (case c of (msg, remaining, cnt) \<Rightarrow>
     let n = length msg + unat remaining in
     op = [] \<and> msg \<noteq> [] \<and> cnt = rs_reset_count s \<and> ring_reserved s fs (n + 5)
     \<and> unat (rs_writing_cursor s) = unat (rs_cursor s) + i \<and> unat (rs_remaining s) = n)"

fun w_inv :: "wpc \<Rightarrow> string_ring \<Rightarrow> nat \<Rightarrow> frame list \<Rightarrow> byte list \<Rightarrow> bool" where
  "w_inv (W_done r) s b fs op \<longleftrightarrow>
     op = [] \<and> rs_reserved s = rs_cursor s \<and> rs_writing_cursor s = 0
     \<or> (\<exists>rem > 0. op \<noteq> [] \<and> ring_partial s fs op rem)"
| "w_inv (W_start msg remaining) s b fs op \<longleftrightarrow> w_ready msg remaining s b fs op"
| "w_inv (W_enter (msg, remaining, cnt)) s b fs op \<longleftrightarrow>
     w_ready msg remaining s b fs op \<and> cnt = rs_reset_count s"
| "w_inv (W_skip c pad) s b fs op \<longleftrightarrow> w_padding c pad s fs op"
| "w_inv (W_pad c pad) s b fs op \<longleftrightarrow> w_padding c pad s fs op
     \<and> chunk (rs_buffer s) (unat (rs_cursor s) mod ring_cap s) 1 = [flag_byte FLAG_SKIP]"
| "w_inv (W_wait c x y) s b fs op \<longleftrightarrow> w_laid c 0 s fs op"
| "w_inv (W_wait_end c x y) s b fs op \<longleftrightarrow> w_laid c 0 s fs op"
| "w_inv (W_flag c) s b fs op \<longleftrightarrow> w_laid c 0 s fs op"
| "w_inv (W_len c) s b fs op \<longleftrightarrow> w_laid c 1 s fs op
     \<and> chunk (rs_buffer s) (unat (rs_cursor s) mod ring_cap s) 1 = [flag_byte FLAG_OK]"
| "w_inv (W_copy (msg, remaining, cnt)) s b fs op \<longleftrightarrow>
     msg \<noteq> [] \<and> ring_partial s fs op (length msg + unat remaining)"
| "w_inv (W_publish (msg, remaining, cnt)) s b fs op \<longleftrightarrow>
     msg \<noteq> [] \<and> remaining = 0 \<and> ring_partial s fs (op @ msg) 0"

text \<open>What holds at each place of the reader.\<close>

fun r_inv :: "rpc \<Rightarrow> string_ring \<Rightarrow> nat \<Rightarrow> frame list \<Rightarrow> bool" where
  "r_inv R_idle s b fs \<longleftrightarrow> unat (rs_reading_cursor s) = b
     \<and> rs_reading_begin s = rs_reading_cursor s AND rs_mask s"
| "r_inv (R_loaded cursor) s b fs \<longleftrightarrow> unat (rs_reading_cursor s) = b
     \<and> rs_reading_begin s = rs_reading_cursor s AND rs_mask s
     \<and> (\<exists>f1 f2. fs = f1 @ f2 \<and> unat cursor = b + frames_size f1)"
| "r_inv (R_flagged flg) s b fs \<longleftrightarrow> unat (rs_reading_cursor s) = b + 1
     \<and> (\<exists>f gs. fs = f # gs \<and> (case f of
          Msg bs \<Rightarrow> flg = [flag_byte FLAG_OK] | Pad n \<Rightarrow> flg = [flag_byte FLAG_SKIP] | Bad n \<Rightarrow> False))"
| "r_inv (R_sized flg len) s b fs \<longleftrightarrow> unat (rs_reading_cursor s) = b + 1
     \<and> (\<exists>f gs. fs = f # gs \<and> (case f of
          Msg bs \<Rightarrow> flg = [flag_byte FLAG_OK] \<and> unat len = length bs
        | Pad n \<Rightarrow> flg = [flag_byte FLAG_SKIP] | Bad n \<Rightarrow> False))"
| "r_inv (R_using off len) s b fs \<longleftrightarrow> rs_reading_begin s = rs_reading_cursor s AND rs_mask s
     \<and> (\<exists>bs gs. fs = Msg bs # gs \<and> unat (rs_reading_cursor s) = b + (5 + length bs)
          \<and> unat off = b mod ring_cap s + 5 \<and> unat len = length bs)"
| "r_inv R_waiting s b fs \<longleftrightarrow> False"
| "r_inv R_clearing s b fs \<longleftrightarrow> False"

definition rt_inv :: "ring_threads \<Rightarrow> nat \<Rightarrow> frame list \<Rightarrow> bool" where
  "rt_inv m b fs \<longleftrightarrow> published (rt_ring m) b fs
     \<and> w_inv (rt_writer m) (rt_ring m) b fs (rt_open m)
     \<and> r_inv (rt_reader m) (rt_ring m) b fs
     \<and> rt_sent m = rt_got m @ messages fs"

section \<open>The reader's steps keep it\<close>

text \<open>The writer does not depend on the reader's fields, and less in the ring leaves it more room.\<close>

lemma reader_fields [simp]:
  "ring_reserved (s\<lparr>rs_reading_cursor := x\<rparr>) fs n = ring_reserved s fs n"
  "ring_reserved (s\<lparr>rs_reading_begin := y\<rparr>) fs n = ring_reserved s fs n"
  "ring_partial (s\<lparr>rs_reading_cursor := x\<rparr>) fs part k = ring_partial s fs part k"
  "ring_partial (s\<lparr>rs_reading_begin := y\<rparr>) fs part k = ring_partial s fs part k"
  "room_from b (s\<lparr>rs_reading_cursor := x\<rparr>) n = room_from b s n"
  "room_from b (s\<lparr>rs_reading_begin := y\<rparr>) n = room_from b s n"
  by (simp_all add: ring_reserved_def ring_partial_def room_from_def padding_def Let_def)

lemma w_inv_fields:
  "w_inv pc (s\<lparr>rs_reading_cursor := x\<rparr>) b fs op = w_inv pc s b fs op"
  "w_inv pc (s\<lparr>rs_reading_begin := y\<rparr>) b fs op = w_inv pc s b fs op"
  by (induction pc s b fs op rule: w_inv.induct) (simp_all add: w_ready_def w_padding_def w_laid_def Let_def split: prod.split)

lemma ring_reserved_mono: "ring_reserved s fs n \<Longrightarrow> frames_size gs \<le> frames_size fs \<Longrightarrow> ring_reserved s gs n"
  by (simp add: ring_reserved_def)

lemma ring_partial_mono:
  "ring_partial s fs part k \<Longrightarrow> frames_size gs \<le> frames_size fs \<Longrightarrow> ring_partial s gs part k"
  by (auto simp: ring_partial_def Let_def intro: ring_reserved_mono)

lemma w_ready_mono:
  "w_ready msg remaining s b fs op \<Longrightarrow> frames_size gs \<le> frames_size fs \<Longrightarrow> b \<le> b' \<Longrightarrow>
   w_ready msg remaining s b' gs op"
  by (auto simp: w_ready_def room_from_def intro: ring_partial_mono)

lemma w_padding_mono:
  "w_padding c pad s fs op \<Longrightarrow> frames_size gs \<le> frames_size fs \<Longrightarrow> w_padding c pad s gs op"
  by (auto simp: w_padding_def Let_def)

lemma w_laid_mono:
  "w_laid c i s fs op \<Longrightarrow> frames_size gs \<le> frames_size fs \<Longrightarrow> w_laid c i s gs op"
  by (auto simp: w_laid_def Let_def intro: ring_reserved_mono)

lemma w_inv_mono:
  "w_inv pc s b fs op \<Longrightarrow> frames_size gs \<le> frames_size fs \<Longrightarrow> b \<le> b' \<Longrightarrow> w_inv pc s b' gs op"
  by (induction pc s b fs op rule: w_inv.induct)
    (auto intro: ring_partial_mono w_ready_mono w_padding_mono w_laid_mono)

lemma w_inv_reader:
  assumes "w_inv pc s b fs op" "frames_size gs \<le> frames_size fs" "b \<le> b'"
  shows "w_inv pc (s\<lparr>rs_reading_cursor := x, rs_reading_begin := y\<rparr>) b' gs op"
    and "w_inv pc (s\<lparr>rs_reading_cursor := x\<rparr>) b' gs op" and "w_inv pc s b' gs op"
  using w_inv_mono[OF assms] by (simp_all add: w_inv_fields)

lemma frames_size_pos: "frame_at buf N p f \<Longrightarrow> 0 < frame_size f"
  by (cases f) auto

lemma published_head:
  assumes "published s b (f # gs)"
  shows "frame_at (rs_buffer s) (ring_cap s) b f" and "b + frame_size f \<le> unat (rs_cursor s)"
    and "frame_size f < ring_cap s" and "published (s\<lparr>rs_reading_cursor := x, rs_reading_begin := y\<rparr>) (b + frame_size f) gs"
  using assms by (auto simp: published_def)

text \<open>The masked test for an empty ring, with an old value of \<open>cursor_\<close>.\<close>

lemma mask_test:
  assumes "ring_wf s" "unat r = b" "unat cursor = b + k" "k < ring_cap s"
  shows "(r AND rs_mask s) = (cursor AND rs_mask s) \<longleftrightarrow> k = 0"
proof
  assume "(r AND rs_mask s) = (cursor AND rs_mask s)"
  then have "b mod ring_cap s = (b + k) mod ring_cap s"
    using assms ring_index[of s r] ring_index[of s cursor] by simp
  then have "ring_cap s dvd k" using mod_eq_dvd_iff_nat[of b "b + k"] by (simp add: mod_eq_iff_dvd_symdiff_nat)
  then show "k = 0" using assms(4) by (auto dest: dvd_imp_le)
next
  assume "k = 0"
  then have "cursor = r" using assms by (simp add: word_unat_eq_iff)
  then show "(r AND rs_mask s) = (cursor AND rs_mask s)" by simp
qed

lemma read_check_Done:
  assumes p: "published s b fs" and r: "r_inv (R_loaded cursor) s b fs"
  shows "\<exists>pc t. read_check cursor s = Done (pc, t) \<and> published t b fs \<and> r_inv pc t b fs
     \<and> (t = s \<or> (\<exists>x. t = s\<lparr>rs_reading_cursor := x\<rparr>))
     \<and> pc \<noteq> R_loaded cursor \<and> (pc = R_idle \<longleftrightarrow> unat cursor = b)"
proof -
  obtain f1 f2 where f: "fs = f1 @ f2" "unat cursor = b + frames_size f1" using r by auto
  have wf: "ring_wf s" and res: "\<not> rs_resetting s" using p by (simp_all add: published_def)
  have k: "frames_size f1 < ring_cap s" using p f(1) by (simp add: published_def)
  have rc: "unat (rs_reading_cursor s) = b" "rs_reading_begin s = rs_reading_cursor s AND rs_mask s"
    using r by simp_all
  note test = mask_test[OF wf rc(1) f(2) k]
  show ?thesis
  proof (cases "frames_size f1 = 0")
    case True
    then have "read_check cursor s = Done (R_idle, s)" using test rc by (simp add: read_check_def)
    then show ?thesis using p rc f(2) True by auto
  next
    case False
    then obtain g gs where g: "fs = g # gs" using f(1) by (cases f1) auto
    have fr: "frame_at (rs_buffer s) (ring_cap s) b g" using published_head(1) p g by blast
    have "b mod ring_cap s + 1 \<le> ring_cap s" using ring_wf_pos[OF wf] by (simp add: Suc_le_eq)
    then have get: "ring_get (rs_reading_cursor s) 1 s = Done (chunk (rs_buffer s) (b mod ring_cap s) 1)"
      using ring_get_Done[OF wf, of "rs_reading_cursor s" 1] rc(1) by simp
    let ?t = "s\<lparr>rs_reading_cursor := rs_reading_cursor s + 1\<rparr>"
    have "b + 1 \<le> unat (rs_cursor s)" using published_head(2)[of s b g gs] p g frames_size_pos[OF fr] by simp
    then have "unat (rs_reading_cursor s + 1) = b + 1"
      using unsigned_less[of "rs_cursor s", where 'a = nat] rc(1) by (simp add: unat_add_bounded)
    moreover have "\<forall>n. Bad n \<noteq> g" using p g by (auto simp: published_def)
    ultimately have "r_inv (R_flagged (chunk (rs_buffer s) (b mod ring_cap s) 1)) ?t b fs"
      using fr g by (auto split: frame.splits)
    moreover have "read_check cursor s = Done (R_flagged (chunk (rs_buffer s) (b mod ring_cap s) 1), ?t)"
      using False test rc(2) res get by (simp add: read_check_def)
    moreover have "published ?t b fs" using p by (simp add: published_def)
    ultimately show ?thesis using f(2) False by auto
  qed
qed

lemma read_len_Done:
  assumes p: "published s b fs" and r: "r_inv (R_flagged flg) s b fs"
  shows "\<exists>len. read_len flg s = Done (R_sized flg len, s) \<and> r_inv (R_sized flg len) s b fs"
proof -
  obtain f gs where f: "fs = f # gs" "case f of
      Msg bs \<Rightarrow> flg = [flag_byte FLAG_OK] | Pad n \<Rightarrow> flg = [flag_byte FLAG_SKIP] | Bad n \<Rightarrow> False"
    and rc: "unat (rs_reading_cursor s) = b + 1" using r by auto
  have wf: "ring_wf s" using p by (simp add: published_def)
  have fr: "frame_at (rs_buffer s) (ring_cap s) b f" using published_head(1) p f(1) by blast
  show ?thesis
  proof (cases f)
    case (Msg bs)
    then have b: "b mod ring_cap s + (5 + length bs) < ring_cap s"
      "chunk (rs_buffer s) (b mod ring_cap s + 1) 4 = bytes_of_u32 (word_of_nat (length bs))"
      using fr by auto
    have "(b + 1) mod ring_cap s = b mod ring_cap s + 1" using b(1) mod_add_within[of b "ring_cap s" 1] by simp
    then have "ring_get (rs_reading_cursor s) 4 s = Done (bytes_of_u32 (word_of_nat (length bs)))"
      using ring_get_Done[OF wf, of "rs_reading_cursor s" 4] b rc by simp
    moreover have "ring_cap s \<le> 2 ^ 32" using wf by (simp add: ring_wf_def)
    then have "unat (word_of_nat (length bs) :: u32) = length bs" using b(1) by (simp add: unat_of_nat)
    ultimately show ?thesis using f rc Msg by (auto simp: read_len_def)
  qed (use f rc in \<open>auto simp: read_len_def\<close>)
qed

text \<open>
  Behind its last store the reader is at the end of the frame, or the caller is using its message.
\<close>

lemma read_advance_Done:
  assumes p: "published s b fs" and r: "r_inv (R_sized flg len) s b fs"
  shows "\<exists>pc x y b' gs. read_advance flg len s = Done (pc, s\<lparr>rs_reading_cursor := x, rs_reading_begin := y\<rparr>)
     \<and> published (s\<lparr>rs_reading_cursor := x, rs_reading_begin := y\<rparr>) b' gs
     \<and> r_inv pc (s\<lparr>rs_reading_cursor := x, rs_reading_begin := y\<rparr>) b' gs
     \<and> (pc = R_idle \<and> (\<exists>k. fs = Pad k # gs \<and> b' = b + k) \<or> (\<exists>off l. pc = R_using off l) \<and> b' = b \<and> gs = fs)"
proof -
  obtain f gs where f: "fs = f # gs" "case f of
      Msg bs \<Rightarrow> flg = [flag_byte FLAG_OK] \<and> unat len = length bs
    | Pad n \<Rightarrow> flg = [flag_byte FLAG_SKIP] | Bad n \<Rightarrow> False"
    and rc: "unat (rs_reading_cursor s) = b + 1" using r by auto
  let ?N = "ring_cap s"
  have wf: "ring_wf s" using p by (simp add: published_def)
  note h = published_head[OF p[unfolded f(1)]]
  have fit: "b + frame_size f < 2 ^ 64" using h(2) unsigned_less[of "rs_cursor s", where 'a = nat] by simp
  show ?thesis
  proof (cases f)
    case (Msg bs)
    then have b: "b mod ?N + (5 + length bs) < ?N" and flg: "flg = [flag_byte FLAG_OK]" "unat len = length bs"
      using h(1) f(2) by auto
    let ?x = "rs_reading_cursor s + ucast (len + 4)"
    have N: "?N \<le> 2 ^ 32" using wf by (simp add: ring_wf_def)
    have "b mod ?N + (5 + length bs) < 2 ^ 32" using b N by (rule less_le_trans)
    then have "unat len + unat (4 :: u32) < 2 ^ 32" using flg(2) by simp
    then have "unat (len + 4) = length bs + 4" using flg(2) by (subst unat_plus_simple[THEN iffD1]) (simp_all add: no_olen_add_nat)
    then have x: "unat ?x = b + (5 + length bs)"
      using fit rc Msg by (simp add: unat_add_bounded unat_ucast_u32)
    have "unat (rs_reading_cursor s + 4) = b + 5" using fit rc Msg by (simp add: unat_add_bounded)
    then have off: "unat ((rs_reading_cursor s + 4) AND rs_mask s) = b mod ?N + 5"
      using wf b mod_add_within[of b ?N 5] by (simp add: ring_index)
    have "unat (ucast len :: u64) = length bs" using flg(2) by (simp add: unat_ucast_u32)
    then show ?thesis using p f(1) Msg flg(1) x off
      by (intro exI[of _ "R_using ((rs_reading_cursor s + 4) AND rs_mask s) (ucast len)"]
          exI[of _ ?x] exI[of _ "?x AND rs_mask s"] exI[of _ b] exI[of _ fs])
        (simp add: read_advance_def Let_def published_def)
  next
    case (Pad n)
    then have n: "0 < n" "b mod ?N + n = ?N" and flg: "flg = [flag_byte FLAG_SKIP]" using h(1) f(2) by auto
    let ?i = "rs_reading_cursor s AND rs_mask s"
    let ?x = "rs_reading_cursor s + (if ?i \<noteq> 0 then rs_size s - ?i else 0)"
    have i: "unat ?i = (b + 1) mod ?N" using wf rc by (simp add: ring_index)
    have x: "unat ?x = b + n"
    proof (cases "n = 1")
      case True
      then have "(b + 1) mod ?N = 0" using n(2) by (metis mod_add_left_eq mod_self)
      then have "?i = 0" using i by (simp add: unat_eq_zero)
      then show ?thesis using rc True by simp
    next
      case False
      then have m: "(b + 1) mod ?N = b mod ?N + 1" using n by (intro mod_add_within) simp
      then have "?i \<noteq> 0" using i by (metis Suc_eq_plus1 nat.distinct(1) unsigned_0)
      moreover have "unat (rs_size s - ?i) = n - 1" using i m n by (simp add: unat_sub_bounded)
      ultimately show ?thesis using rc fit Pad n(1) by (simp add: unat_add_bounded)
    qed
    show ?thesis using h(4) f(1) Pad flg x
      by (intro exI[of _ R_idle] exI[of _ ?x] exI[of _ "?x AND rs_mask s"] exI[of _ "b + n"] exI[of _ gs])
        (simp add: read_advance_def Let_def)
  qed (use f in simp)
qed

text \<open>
  Where a step takes the reader: behind the load of \<open>cursor_\<close> it goes on if it has seen a record; padding
  is skipped; a message is handed to the caller, who is done with it in the last step.
\<close>

definition r_goes_on ::
  "rpc \<Rightarrow> nat \<Rightarrow> frame list \<Rightarrow> rpc \<Rightarrow> nat \<Rightarrow> frame list \<Rightarrow> byte list list \<Rightarrow> bool"
where
  "r_goes_on pc b fs pc' b' gs got \<longleftrightarrow> (case pc of
     R_idle \<Rightarrow> got = [] \<and> b' = b \<and> gs = fs \<and> (\<exists>c. pc' = R_loaded c \<and> (unat c = b \<longleftrightarrow> fs = []))
   | R_loaded c \<Rightarrow> got = [] \<and> b' = b \<and> gs = fs
       \<and> (if unat c = b then pc' = R_idle else fs \<noteq> [] \<and> (\<exists>flg. pc' = R_flagged flg))
   | R_flagged flg \<Rightarrow> got = [] \<and> b' = b \<and> gs = fs \<and> fs \<noteq> [] \<and> (\<exists>len. pc' = R_sized flg len)
   | R_sized flg len \<Rightarrow> got = [] \<and> fs \<noteq> []
       \<and> (pc' = R_idle \<and> (\<exists>k. fs = Pad k # gs \<and> b' = b + k)
          \<or> (\<exists>off l. pc' = R_using off l) \<and> b' = b \<and> gs = fs)
   | R_using off l \<Rightarrow> pc' = R_idle \<and> (\<exists>bs. fs = Msg bs # gs \<and> b' = b + (5 + length bs)
       \<and> got = [bs] \<and> unat l = length bs)
   | _ \<Rightarrow> False)"

lemma reader_moves:
  assumes inv: "rt_inv m b fs"
  shows "\<exists>pc t b' gs got. ring_do ndebug Reader m = Done (m\<lparr>rt_reader := pc, rt_ring := t, rt_got := rt_got m @ got\<rparr>)
     \<and> rt_inv (m\<lparr>rt_reader := pc, rt_ring := t, rt_got := rt_got m @ got\<rparr>) b' gs
     \<and> (\<exists>x y. t = rt_ring m\<lparr>rs_reading_cursor := x, rs_reading_begin := y\<rparr>)
     \<and> r_goes_on (rt_reader m) b fs pc b' gs got"
proof -
  let ?s = "rt_ring m"
  let ?upd = "\<lambda>x y. ?s\<lparr>rs_reading_cursor := x, rs_reading_begin := y\<rparr>"
  have same: "\<exists>x y. ?s = ?upd x y"
    by (rule exI[of _ "rs_reading_cursor ?s"], rule exI[of _ "rs_reading_begin ?s"]) simp
  from inv have p: "published ?s b fs" and w: "w_inv (rt_writer m) ?s b fs (rt_open m)"
    and r: "r_inv (rt_reader m) ?s b fs" and sent: "rt_sent m = rt_got m @ messages fs"
    by (simp_all add: rt_inv_def)
  show ?thesis
  proof (cases "rt_reader m")
    case R_idle
    then have "rt_inv (m\<lparr>rt_reader := R_loaded (rs_cursor ?s)\<rparr>) b fs"
      using p w r sent by (auto simp: rt_inv_def published_def)
    moreover have "0 < frames_size fs" if "fs \<noteq> []"
      using that p frames_size_pos by (cases fs) (auto simp: published_def)
    then have "unat (rs_cursor ?s) = b \<longleftrightarrow> fs = []"
      using p by (cases "fs = []") (auto simp: published_def)
    ultimately show ?thesis using R_idle same
      by (intro exI[of _ "R_loaded (rs_cursor ?s)"] exI[of _ ?s] exI[of _ b] exI[of _ fs] exI[of _ "[]"])
        (auto simp: r_goes_on_def)
  next
    case (R_loaded cursor)
    from read_check_Done[OF p r[unfolded R_loaded]] obtain pc t where
      t: "read_check cursor ?s = Done (pc, t)" "published t b fs" "r_inv pc t b fs"
      "t = ?s \<or> (\<exists>x. t = ?s\<lparr>rs_reading_cursor := x\<rparr>)" "pc = R_idle \<longleftrightarrow> unat cursor = b"
      "pc \<noteq> R_loaded cursor" by blast
    have "t = ?upd (rs_reading_cursor t) (rs_reading_begin ?s)" using t(4) by auto
    then have tu: "\<exists>x y. t = ?upd x y" by blast
    have "w_inv (rt_writer m) t b fs (rt_open m)" using w w_inv_reader(2)[OF w order_refl order_refl] t(4) by auto
    then have "rt_inv (m\<lparr>rt_reader := pc, rt_ring := t\<rparr>) b fs" using t sent by (simp add: rt_inv_def)
    moreover have "pc = R_idle \<or> (\<exists>flg. pc = R_flagged flg)"
      using t(1) by (auto simp: read_check_def result_bind_eq_Done split: if_splits)
    moreover have "fs \<noteq> []" if "pc = R_flagged flg" for flg using t(3) that by auto
    moreover have "ring_do ndebug Reader m = Done (m\<lparr>rt_reader := pc, rt_ring := t\<rparr>)"
      using R_loaded t(1) by simp
    ultimately show ?thesis using R_loaded t(5) tu
      by (intro exI[of _ pc] exI[of _ t] exI[of _ b] exI[of _ fs] exI[of _ "[]"]) (auto simp: r_goes_on_def)
  next
    case (R_flagged flg)
    from read_len_Done[OF p r[unfolded R_flagged]] obtain len where
      l: "read_len flg ?s = Done (R_sized flg len, ?s)" "r_inv (R_sized flg len) ?s b fs" by blast
    then have "rt_inv (m\<lparr>rt_reader := R_sized flg len\<rparr>) b fs" using p w sent by (simp add: rt_inv_def)
    moreover have "fs \<noteq> []" using r R_flagged by auto
    ultimately show ?thesis using R_flagged l(1) same
      by (intro exI[of _ "R_sized flg len"] exI[of _ ?s] exI[of _ b] exI[of _ fs] exI[of _ "[]"])
        (auto simp: r_goes_on_def)
  next
    case (R_sized flg len)
    from read_advance_Done[OF p r[unfolded R_sized]] obtain pc x y b' gs where
      a: "read_advance flg len ?s = Done (pc, ?upd x y)"
      "published (?upd x y) b' gs" "r_inv pc (?upd x y) b' gs"
      "pc = R_idle \<and> (\<exists>k. fs = Pad k # gs \<and> b' = b + k) \<or> (\<exists>off l. pc = R_using off l) \<and> b' = b \<and> gs = fs" by blast
    then have le: "b \<le> b'" and ms: "messages gs = messages fs" by auto
    let ?m = "m\<lparr>rt_reader := pc, rt_ring := ?upd x y\<rparr>"
    have "frames_size gs \<le> frames_size fs"
      using a(2) le p by (auto simp: published_def)
    then have "w_inv (rt_writer m) (rt_ring ?m) b' gs (rt_open m)" using w_inv_reader(1)[OF w _ le] by simp
    then have "rt_inv ?m b' gs" using a ms sent by (simp add: rt_inv_def)
    moreover have "fs \<noteq> []" using r R_sized by auto
    ultimately show ?thesis using R_sized a(1,4)
      by (intro exI[of _ pc] exI[of _ "?upd x y"] exI[of _ b'] exI[of _ gs] exI[of _ "[]"])
        (auto simp: r_goes_on_def)
  next
    case (R_using off len)
    then obtain bs gs where f: "fs = Msg bs # gs" "unat (rs_reading_cursor ?s) = b + (5 + length bs)"
      "unat off = b mod ring_cap ?s + 5" "unat len = length bs"
      "rs_reading_begin ?s = rs_reading_cursor ?s AND rs_mask ?s" using r by auto
    have fr: "frame_at (rs_buffer ?s) (ring_cap ?s) b (Msg bs)" using published_head(1) p f(1) by blast
    have wf: "ring_wf ?s" using p by (simp add: published_def)
    have c: "chunk (rs_buffer ?s) (unat off) (unat len) = bs"
      "get (rs_buffer ?s) (unat off) (unat len) = Done bs"
      using fr f(3,4) wf by (auto simp: get_Done)
    let ?m = "m\<lparr>rt_reader := R_idle, rt_got := rt_got m @ [bs]\<rparr>" and ?b = "b + (5 + length bs)"
    have "published ?s ?b gs"
      using published_head(4)[OF p[unfolded f(1)], where x = "rs_reading_cursor ?s" and y = "rs_reading_begin ?s"]
      by simp
    moreover have "w_inv (rt_writer m) ?s ?b gs (rt_open m)"
      using w_inv_reader(3)[OF w, of gs ?b] f(1) by simp
    ultimately have "rt_inv ?m ?b gs" using f sent by (simp add: rt_inv_def)
    then show ?thesis using R_using c f(1,4) same
      by (intro exI[of _ R_idle] exI[of _ ?s] exI[of _ ?b] exI[of _ gs] exI[of _ "[bs]"])
        (auto simp: r_goes_on_def)
  qed (use r in simp_all)
qed

text \<open>
  A measure for the reader: a step brings it nearer to the end of a frame unless the ring is empty.
\<close>

fun r_rank :: "nat \<Rightarrow> rpc \<Rightarrow> nat" where
  "r_rank b R_idle = 5"
| "r_rank b (R_loaded cursor) = (if unat cursor = b then 6 else 4)"
| "r_rank b (R_flagged flg) = 3"
| "r_rank b (R_sized flg len) = 2"
| "r_rank b (R_using off len) = 1"
| "r_rank b R_waiting = 0"
| "r_rank b R_clearing = 0"

lemma reader_keeps:
  assumes inv: "rt_inv m b fs"
  shows "\<exists>m' b' gs. ring_do ndebug Reader m = Done m' \<and> rt_inv m' b' gs
     \<and> rt_sent m' = rt_sent m \<and> rt_writer m' = rt_writer m
     \<and> (fs = [] \<and> gs = [] \<or> fs \<noteq> [] \<and> (length gs < length fs
         \<or> gs = fs \<and> b' = b \<and> r_rank b' (rt_reader m') < r_rank b (rt_reader m)))"
proof -
  from reader_moves[OF inv, of ndebug] obtain pc t b' gs got where
    m: "ring_do ndebug Reader m = Done (m\<lparr>rt_reader := pc, rt_ring := t, rt_got := rt_got m @ got\<rparr>)"
    "rt_inv (m\<lparr>rt_reader := pc, rt_ring := t, rt_got := rt_got m @ got\<rparr>) b' gs"
    "r_goes_on (rt_reader m) b fs pc b' gs got" by blast
  have "fs = [] \<and> gs = [] \<or> fs \<noteq> [] \<and> (length gs < length fs
      \<or> gs = fs \<and> b' = b \<and> r_rank b' pc < r_rank b (rt_reader m))"
    using m(3) by (auto simp: r_goes_on_def split: rpc.splits if_splits)
  then show ?thesis using m(1,2)
    by (intro exI[of _ "m\<lparr>rt_reader := pc, rt_ring := t, rt_got := rt_got m @ got\<rparr>"] exI[of _ b'] exI[of _ gs])
      simp
qed

section \<open>The writer's steps keep it\<close>

text \<open>
  A call of \<open>write\<close> goes on with its arguments until it returns \<open>True\<close>, behind the copy of a part or the
  publication of the message, and lays out padding only where the message needs it.
\<close>

definition needs_padding :: "wpc \<Rightarrow> string_ring \<Rightarrow> bool" where
  "needs_padding pc s \<longleftrightarrow> rs_writing_cursor s = 0 \<and> (case call_of pc of
     Some (msg, remaining) \<Rightarrow> padding s (length msg + unat remaining) \<noteq> 0 | None \<Rightarrow> False)"

definition plain_writer :: "wpc \<Rightarrow> string_ring \<Rightarrow> bool" where
  "plain_writer pc s \<longleftrightarrow> (case pc of
     W_skip _ _ \<Rightarrow> False | W_pad _ _ \<Rightarrow> False
   | W_start _ _ \<Rightarrow> \<not> needs_padding pc s | W_enter _ \<Rightarrow> \<not> needs_padding pc s | _ \<Rightarrow> True)"

definition w_goes_on :: "wpc \<Rightarrow> string_ring \<Rightarrow> frame list \<Rightarrow> wpc \<Rightarrow> string_ring \<Rightarrow> bool" where
  "w_goes_on pc s new pc' t \<longleftrightarrow>
     (case pc' of
        W_done r \<Rightarrow> r \<and> (case pc of
          W_copy (_, remaining, _) \<Rightarrow> remaining \<noteq> 0 \<and> rs_remaining t = remaining
        | W_publish (_, remaining, _) \<Rightarrow> remaining = 0 | _ \<Rightarrow> False)
      | _ \<Rightarrow> call_of pc' = call_of pc)
   \<and> (new = [] \<or> (\<exists>f. new = [f] \<and> ((\<exists>c k. pc = W_pad c k) \<or> (\<exists>c. pc = W_publish c))))
   \<and> (plain_writer pc s \<longrightarrow> plain_writer pc' t \<and> only_messages new)"

text \<open>A step of the writer appends frames, leaves the reader's fields alone, and is noted as it should.\<close>

definition w_ok :: "wpc \<Rightarrow> string_ring \<Rightarrow> nat \<Rightarrow> frame list \<Rightarrow> byte list \<Rightarrow> wpc \<Rightarrow> string_ring \<Rightarrow> bool" where
  "w_ok pc s b fs op pc' t \<longleftrightarrow> (\<exists>new op'.
     published t b (fs @ new) \<and> w_inv pc' t b (fs @ new) op' \<and> w_goes_on pc s new pc' t
     \<and> rs_reading_cursor t = rs_reading_cursor s \<and> rs_reading_begin t = rs_reading_begin s
     \<and> rs_mask t = rs_mask s \<and> rs_size t = rs_size s
     \<and> (case (pc, pc') of
          (W_copy (msg, _), W_done r) \<Rightarrow> op' = op @ msg \<and> messages new = []
        | (W_publish (msg, _), W_done r) \<Rightarrow> op' = [] \<and> messages new = [op @ msg]
        | _ \<Rightarrow> op' = op \<and> messages new = []))"

lemma w_ok_same:
  assumes "published t b fs" "w_inv pc' t b fs op"
    and "rs_reading_cursor t = rs_reading_cursor s" "rs_reading_begin t = rs_reading_begin s"
    and "rs_mask t = rs_mask s" "rs_size t = rs_size s"
    and "\<forall>r. pc' \<noteq> W_done r" "call_of pc' = call_of pc" "plain_writer pc s \<Longrightarrow> plain_writer pc' t"
  shows "w_ok pc s b fs op pc' t"
proof -
  have "w_goes_on pc s [] pc' t" using assms(7-9) by (auto simp: w_goes_on_def split: wpc.splits)
  moreover
  have "(case (pc, pc') of (W_copy (msg, _), W_done r) \<Rightarrow> op = op @ msg \<and> messages [] = []
      | (W_publish (msg, _), W_done r) \<Rightarrow> op = [] \<and> messages [] = [op @ msg] | _ \<Rightarrow> op = op \<and> messages [] = [])"
    using assms(7) by (auto split: wpc.splits prod.splits)
  ultimately show ?thesis using assms(1-6) unfolding w_ok_def
    by (intro exI[of _ "[]"] exI[of _ op]) simp
qed

text \<open>A store behind what is published.\<close>

lemma published_put:
  assumes p: "published s b fs" and q: "unat pos = q" "unat (rs_cursor s) \<le> q" "q + length bs \<le> b + ring_cap s"
    and m: "q mod ring_cap s + length bs \<le> ring_cap s"
  defines "buf \<equiv> blit (rs_buffer s) (q mod ring_cap s) bs"
  shows "ring_put pos bs s = Done (s\<lparr>rs_buffer := buf\<rparr>)" and "published (s\<lparr>rs_buffer := buf\<rparr>) b fs"
    and "length buf = ring_cap s"
proof -
  have wf: "ring_wf s" using p by (simp add: published_def)
  show "ring_put pos bs s = Done (s\<lparr>rs_buffer := buf\<rparr>)" using ring_put_Done[OF wf] q(1) m by (simp add: buf_def)
  show l: "length buf = ring_cap s" using wf m by (simp add: buf_def)
  have "frames_at buf (ring_cap s) b fs"
    unfolding buf_def using p q m ring_wf_pos[OF wf]
    by (intro frames_at_blit) (auto simp: published_def)
  then show "published (s\<lparr>rs_buffer := buf\<rparr>) b fs" using p l by (simp add: published_def)
qed

lemma w_enter_Done:
  assumes p: "published s b fs" and w: "w_inv (W_enter (msg, remaining, cnt)) s b fs op"
  shows "\<exists>pc t. w_enter ndebug (msg, remaining, cnt) s = Done (pc, t)
     \<and> w_ok (W_enter (msg, remaining, cnt)) s b fs op pc t"
proof -
  let ?n = "length msg + unat remaining" and ?N = "ring_cap s" and ?c = "unat (rs_cursor s)"
  let ?len = "word_of_nat (length msg) :: u64" and ?call = "(msg, remaining, cnt)"
  have msg: "msg \<noteq> []" and cnt: "cnt = rs_reset_count s" using w by (auto simp: w_ready_def)
  show ?thesis
  proof (cases "op = []")
    case False
    then have par: "ring_partial s fs op ?n" using w by (auto simp: w_ready_def)
    then have "unat (rs_writing_cursor s) \<noteq> 0" by (simp add: ring_partial_def Let_def)
    then have "w_enter ndebug ?call s = Done (W_copy ?call, s)" by (auto simp: w_enter_def)
    moreover have "w_ok (W_enter ?call) s b fs op (W_copy ?call) s"
      using p par msg by (intro w_ok_same) (auto simp: plain_writer_def)
    ultimately show ?thesis by blast
  next
    case True
    then have idle: "rs_reserved s = rs_cursor s" "rs_writing_cursor s = 0"
      and room: "room_from b s ?n" using w by (auto simp: w_ready_def ring_partial_def ring_reserved_def)
    have wf: "ring_wf s" and cb: "?c = b + frames_size fs" using p by (simp_all add: published_def)
    have r: "frames_size fs + padding s ?n + (?n + 5) < ?N" "?c + padding s ?n + (?n + 5) < 2 ^ 64"
      using room idle(1) cb by (simp_all add: room_from_def)
    have N: "0 < ?N" "?N \<le> 2 ^ 32" using wf by (simp_all add: ring_wf_pos) (simp add: ring_wf_def)
    have cN: "?c mod ?N < ?N" using N(1) by simp
    have len: "unat ?len = length msg" using r(2) by (simp add: unat_of_nat)
    have n: "unat (?len + remaining) = ?n" using r(2) len by (simp add: unat_add_bounded)
    have tot: "unat (?len + remaining + 5) = ?n + 5" using r(2) n by (simp add: unat_add_bounded)
    have ix: "unat (rs_cursor s AND rs_mask s) = ?c mod ?N" using wf by (rule ring_index)
    have "(2::nat) ^ 32 + 2 ^ 32 < 2 ^ 64" by simp
    then have "?c mod ?N + (?n + 5) < 2 ^ 64" using cN N r(1) by linarith
    then have sum: "unat ((rs_cursor s AND rs_mask s) + (?len + remaining + 5)) = ?c mod ?N + (?n + 5)"
      using ix tot by (simp add: unat_add_bounded)
    have rtot: "unat (rs_cursor s + (?len + remaining + 5)) = ?c + (?n + 5)"
      using r(2) tot by (simp add: unat_add_bounded)
    have fits: "\<not> rs_size s \<le> ?len + remaining + 5" using r(1) tot by (simp add: word_le_nat_alt)
    let ?s = "s\<lparr>rs_total := ?len + remaining + 5, rs_remaining := ?len + remaining,
       rs_writing_begin := rs_cursor s, rs_writing_cursor := rs_cursor s,
       rs_reserved := rs_cursor s + (?len + remaining + 5)\<rparr>"
    show ?thesis
    proof (cases "?c mod ?N + (?n + 5) \<ge> ?N")
      case False
      have "w_enter ndebug ?call s = Done (w_wait ?call ?s, ?s)"
        using False sum idle fits by (simp add: w_enter_def Let_def word_le_nat_alt)
      moreover have "w_inv (w_wait ?call ?s) ?s b fs op"
        using True msg cnt tot rtot n r(1) False
        by (simp add: w_wait_def w_laid_def ring_reserved_def)
      then have "w_ok (W_enter ?call) s b fs op (w_wait ?call ?s) ?s"
        using p by (intro w_ok_same) (auto simp: published_def w_wait_def plain_writer_def)
      ultimately show ?thesis by blast
    next
      case pad: True
      let ?k = "rs_size s - (rs_cursor s AND rs_mask s)"
      let ?t = "?s\<lparr>rs_reserved := rs_cursor s + (?len + remaining + 5) + ?k\<rparr>"
      obtain K where k: "unat ?k = K" "?c mod ?N + K = ?N" "0 < K"
        using ix cN by (auto simp: unat_sub_bounded)
      then have kp: "padding s ?n = K" using pad idle by (simp add: padding_def Let_def)
      have "unat (rs_cursor s + (?len + remaining + 5) + ?k) = ?c + K + (?n + 5)"
        using r(2) kp rtot k(1) by (simp add: unat_add_bounded)
      then have "w_inv (W_skip ?call ?k) ?t b fs op"
        using True msg cnt tot n r(1) k unfolding kp by (simp add: w_padding_def Let_def)
      moreover have "needs_padding (W_enter ?call) s"
        using idle(2) kp k(3) by (simp add: needs_padding_def)
      ultimately have "w_ok (W_enter ?call) s b fs op (W_skip ?call ?k) ?t"
        using p by (intro w_ok_same) (auto simp: published_def plain_writer_def)
      moreover have "w_enter ndebug ?call s = Done (W_skip ?call ?k, ?t)"
        using pad sum idle fits by (simp add: w_enter_def Let_def word_le_nat_alt)
      ultimately show ?thesis by blast
    qed
  qed
qed

lemma w_skip_Done:
  assumes p: "published s b fs" and w: "w_inv (W_skip c pad) s b fs op"
  shows "\<exists>pc t. writer_step ndebug (W_skip c pad) s = Done (pc, t) \<and> w_ok (W_skip c pad) s b fs op pc t"
proof -
  let ?N = "ring_cap s" and ?c = "unat (rs_cursor s)"
  obtain msg remaining cnt where c: "c = (msg, remaining, cnt)" by (cases c) auto
  have wp: "w_padding c pad s fs op" using w by simp
  then have wc: "rs_writing_cursor s = rs_cursor s" and k: "?c mod ?N + unat pad = ?N" "0 < unat pad"
    "frames_size fs + unat pad < ?N" by (auto simp: w_padding_def c Let_def)
  have wf: "ring_wf s" and cb: "?c = b + frames_size fs" using p by (simp_all add: published_def)
  have "?c + 1 \<le> b + ?N" "?c mod ?N + 1 \<le> ?N" using k cb by simp_all
  then have put: "ring_put (rs_writing_cursor s) [flag_byte FLAG_SKIP] s
      = Done (s\<lparr>rs_buffer := blit (rs_buffer s) (?c mod ?N) [flag_byte FLAG_SKIP]\<rparr>)"
    "published (s\<lparr>rs_buffer := blit (rs_buffer s) (?c mod ?N) [flag_byte FLAG_SKIP]\<rparr>) b fs"
    using published_put[OF p, of "rs_cursor s" ?c "[flag_byte FLAG_SKIP]"] wc by simp_all
  let ?t = "s\<lparr>rs_buffer := blit (rs_buffer s) (?c mod ?N) [flag_byte FLAG_SKIP]\<rparr>"
  have "w_inv (W_pad c pad) ?t b fs op"
    using wp wf k chunk_blit_same[of "?c mod ?N" "[flag_byte FLAG_SKIP]" "rs_buffer s"]
    by (simp add: w_padding_def c Let_def)
  then have "w_ok (W_skip c pad) s b fs op (W_pad c pad) ?t" using put(2) c by (intro w_ok_same) (auto simp: plain_writer_def)
  then show ?thesis using put(1) by auto
qed

lemma w_pad_Done:
  assumes p: "published s b fs" and w: "w_inv (W_pad c pad) s b fs op"
  shows "\<exists>pc t. writer_step ndebug (W_pad c pad) s = Done (pc, t) \<and> w_ok (W_pad c pad) s b fs op pc t"
proof -
  let ?N = "ring_cap s" and ?c = "unat (rs_cursor s)"
  obtain msg remaining cnt where c: "c = (msg, remaining, cnt)" by (cases c) auto
  let ?n = "length msg + unat remaining"
  have sk: "chunk (rs_buffer s) (?c mod ?N) 1 = [flag_byte FLAG_SKIP]" and wp: "w_padding c pad s fs op"
    using w by simp_all
  then have x: "rs_writing_begin s = rs_cursor s" "?c mod ?N + unat pad = ?N" "0 < unat pad"
    "frames_size fs + unat pad + (?n + 5) < ?N" "unat (rs_reserved s) = ?c + unat pad + (?n + 5)"
    "unat (rs_total s) = ?n + 5" "op = []" "msg \<noteq> []" "cnt = rs_reset_count s" "unat (rs_remaining s) = ?n"
    by (auto simp: w_padding_def c Let_def)
  have cb: "?c = b + frames_size fs" using p by (simp add: published_def)
  have cur: "unat (rs_cursor s + pad) = ?c + unat pad"
    using x(5) unsigned_less[of "rs_reserved s", where 'a = nat] by (simp add: unat_add_bounded)
  let ?t = "s\<lparr>rs_cursor := rs_cursor s + pad, rs_writing_begin := rs_cursor s + pad,
     rs_writing_cursor := rs_cursor s + pad\<rparr>"
  have step: "writer_step ndebug (W_pad c pad) s = Done (w_wait c ?t, ?t)"
    using x(1) by (simp add: w_notify_def Let_def)
  have "published ?t b (fs @ [Pad (unat pad)])"
    using p sk x(2,3,4) cur cb by (auto simp: published_def)
  moreover have "w_inv (w_wait c ?t) ?t b (fs @ [Pad (unat pad)]) op"
    using x cur mod_add_pad[OF x(2)] by (simp add: w_wait_def w_laid_def c ring_reserved_def)
  ultimately have "w_ok (W_pad c pad) s b fs op (w_wait c ?t) ?t"
    unfolding w_ok_def by (intro exI[of _ "[Pad (unat pad)]"] exI[of _ op])
      (simp add: w_wait_def w_goes_on_def plain_writer_def c)
  then show ?thesis using step by blast
qed

lemma w_wait_Done:
  assumes p: "published s b fs" and pc: "pc = W_wait c x y \<or> pc = W_wait_end c x y" and w: "w_inv pc s b fs op"
  shows "\<exists>pc'. writer_step ndebug pc s = Done (pc', s) \<and> w_ok pc s b fs op pc' s"
proof -
  have l: "w_laid c 0 s fs op" using pc w by auto
  have "w_ok pc s b fs op q s" if "q = W_flag c \<or> (\<exists>x y. q = W_wait c x y) \<or> (\<exists>x y. q = W_wait_end c x y)" for q
    using that l p pc by (cases c, intro w_ok_same) (auto simp: plain_writer_def)
  then show ?thesis using pc by auto
qed

lemma w_flag_Done:
  assumes p: "published s b fs" and w: "w_inv (W_flag c) s b fs op"
  shows "\<exists>pc t. writer_step ndebug (W_flag c) s = Done (pc, t) \<and> w_ok (W_flag c) s b fs op pc t"
proof -
  let ?N = "ring_cap s" and ?c = "unat (rs_cursor s)" and ?wc = "rs_writing_cursor s"
  obtain msg remaining cnt where c: "c = (msg, remaining, cnt)" by (cases c) auto
  have l: "w_laid c 0 s fs op" using w by simp
  then have cnt: "cnt = rs_reset_count s" and wc: "unat ?wc = ?c"
    and res: "ring_reserved s fs (length msg + unat remaining + 5)" by (auto simp: w_laid_def c Let_def)
  then have f: "?c mod ?N + 5 \<le> ?N" "frames_size fs + 5 \<le> ?N" "?c + 5 < 2 ^ 64"
    using unsigned_less[of "rs_reserved s", where 'a = nat] by (auto simp: ring_reserved_def)
  have wf: "ring_wf s" and cb: "?c = b + frames_size fs" using p by (simp_all add: published_def)
  let ?b = "blit (rs_buffer s) (?c mod ?N) [flag_byte FLAG_OK]"
  let ?t = "s\<lparr>rs_buffer := ?b, rs_writing_cursor := ?wc + 1\<rparr>"
  have put: "ring_put ?wc [flag_byte FLAG_OK] s = Done (s\<lparr>rs_buffer := ?b\<rparr>)"
    "published (s\<lparr>rs_buffer := ?b\<rparr>) b fs"
    using published_put[OF p, of ?wc ?c "[flag_byte FLAG_OK]"] wc f cb by simp_all
  have "unat (?wc + 1) = ?c + 1" using f(3) wc by (simp add: unat_add_bounded)
  moreover have "chunk ?b (?c mod ?N) 1 = [flag_byte FLAG_OK]"
    using wf f(1) chunk_blit_same[of "?c mod ?N" "[flag_byte FLAG_OK]" "rs_buffer s"] by simp
  ultimately have "w_inv (W_len c) ?t b fs op" using l by (simp add: w_laid_def c ring_reserved_def Let_def)
  moreover have "published ?t b fs" using put(2) by simp
  ultimately have "w_ok (W_flag c) s b fs op (W_len c) ?t"
    by (intro w_ok_same) (auto simp: plain_writer_def c)
  moreover have "writer_step ndebug (W_flag c) s = Done (W_len c, ?t)" using cnt put(1) by (simp add: c)
  ultimately show ?thesis by blast
qed

lemma w_len_Done:
  assumes p: "published s b fs" and w: "w_inv (W_len c) s b fs op"
  shows "\<exists>pc t. writer_step ndebug (W_len c) s = Done (pc, t) \<and> w_ok (W_len c) s b fs op pc t"
proof -
  let ?N = "ring_cap s" and ?c = "unat (rs_cursor s)" and ?wc = "rs_writing_cursor s"
  obtain msg remaining cnt where c: "c = (msg, remaining, cnt)" by (cases c) auto
  let ?n = "length msg + unat remaining" and ?h = "bytes_of_u32 (ucast (rs_total s) - 5)"
  have l: "w_laid c 1 s fs op" and flag: "chunk (rs_buffer s) (?c mod ?N) 1 = [flag_byte FLAG_OK]" using w by auto
  then have wc: "unat ?wc = ?c + 1" and op: "op = []" "msg \<noteq> []" "unat (rs_remaining s) = ?n"
    and res: "ring_reserved s fs (?n + 5)" by (auto simp: w_laid_def c Let_def)
  then have f: "?c mod ?N + 5 \<le> ?N" "frames_size fs + 5 \<le> ?N" "?c + 5 < 2 ^ 64" "unat (rs_total s) = ?n + 5"
    using unsigned_less[of "rs_reserved s", where 'a = nat] by (auto simp: ring_reserved_def)
  have wf: "ring_wf s" and cb: "?c = b + frames_size fs" using p by (simp_all add: published_def)
  have m: "(?c + 1) mod ?N = ?c mod ?N + 1" using f(1) by (intro mod_add_within) simp
  let ?b = "blit (rs_buffer s) (?c mod ?N + 1) ?h"
  let ?t = "s\<lparr>rs_buffer := ?b, rs_writing_cursor := ?wc + 4\<rparr>"
  have put: "ring_put ?wc ?h s = Done (s\<lparr>rs_buffer := ?b\<rparr>)" "published (s\<lparr>rs_buffer := ?b\<rparr>) b fs"
    using published_put[OF p, of ?wc "?c + 1" ?h] wc f cb m by simp_all
  have "unat (?wc + 4) = ?c + 5" using f(3) wc by (simp add: unat_add_bounded)
  moreover have "chunk ?b (?c mod ?N) 1 = [flag_byte FLAG_OK]"
    using wf f(1) flag by (simp add: chunk_blit_other)
  moreover have "chunk ?b (?c mod ?N + 1) 4 = bytes_of_u32 (word_of_nat ?n)"
    using wf f(1) chunk_blit_same[of "?c mod ?N + 1" ?h "rs_buffer s"] length_field[OF f(4)] by simp
  ultimately have "w_inv (W_copy c) ?t b fs op"
    using res op by (simp add: c ring_partial_def ring_reserved_def Let_def add.commute)
  moreover have "published ?t b fs" using put(2) by simp
  ultimately have "w_ok (W_len c) s b fs op (W_copy c) ?t"
    by (intro w_ok_same) (auto simp: plain_writer_def c)
  moreover have "writer_step ndebug (W_len c) s = Done (W_copy c, ?t)" using put(1) by simp
  ultimately show ?thesis by blast
qed

lemma w_copy_Done:
  assumes p: "published s b fs" and w: "w_inv (W_copy (msg, remaining, cnt)) s b fs op"
  shows "\<exists>pc t. writer_step ndebug (W_copy (msg, remaining, cnt)) s = Done (pc, t)
     \<and> w_ok (W_copy (msg, remaining, cnt)) s b fs op pc t"
proof -
  let ?N = "ring_cap s" and ?c = "unat (rs_cursor s)" and ?wc = "rs_writing_cursor s"
  let ?l = "length msg" and ?k = "length op" and ?call = "(msg, remaining, cnt)"
  let ?len = "word_of_nat ?l :: u64"
  have msg: "msg \<noteq> []" and par: "ring_partial s fs op (?l + unat remaining)" using w by simp_all
  from par have res: "ring_reserved s fs (5 + ?k + (?l + unat remaining))"
    and rem: "unat (rs_remaining s) = ?l + unat remaining"
    and wcur: "unat ?wc = ?c + 5 + ?k"
    and hdr: "chunk (rs_buffer s) (?c mod ?N) 1 = [flag_byte FLAG_OK]"
      "chunk (rs_buffer s) (?c mod ?N + 1) 4 = bytes_of_u32 (word_of_nat (?k + (?l + unat remaining)))"
      "chunk (rs_buffer s) (?c mod ?N + 5) ?k = op"
    by (auto simp: ring_partial_def Let_def)
  from res have cN: "?c mod ?N + (5 + ?k + (?l + unat remaining)) < ?N"
    and cap: "frames_size fs + (5 + ?k + (?l + unat remaining)) < ?N"
    and small: "?c + (5 + ?k + (?l + unat remaining)) < 2 ^ 64"
    using unsigned_less[of "rs_reserved s", where 'a = nat] by (auto simp: ring_reserved_def)
  have wf: "ring_wf s" and skip: "\<not> rs_skip s" and cb: "?c = b + frames_size fs"
    using p by (simp_all add: published_def)
  have len: "unat ?len = ?l" using small by (simp add: unat_of_nat)
  have rem': "rs_remaining s - ?len = remaining"
    using rem len by (simp add: word_unat_eq_iff unat_sub_bounded)
  have wm: "(?c + 5 + ?k) mod ?N = ?c mod ?N + 5 + ?k"
    using cN mod_add_within[of ?c ?N "5 + ?k"] by (simp add: add.assoc)
  let ?b = "blit (rs_buffer s) (?c mod ?N + 5 + ?k) msg"
  have p0: "published (s\<lparr>rs_remaining := remaining\<rparr>) b fs" using p by simp
  have q: "?c + 5 + ?k + ?l \<le> b + ?N" "?c mod ?N + 5 + ?k + ?l \<le> ?N" using cap cb cN by simp_all
  have put: "ring_put ?wc msg (s\<lparr>rs_remaining := remaining\<rparr>) = Done (s\<lparr>rs_remaining := remaining, rs_buffer := ?b\<rparr>)"
    "published (s\<lparr>rs_remaining := remaining, rs_buffer := ?b\<rparr>) b fs" "length ?b = ?N"
    using published_put[OF p0 wcur, of msg] q by (simp_all add: wm)
  let ?t = "s\<lparr>rs_remaining := remaining, rs_buffer := ?b, rs_writing_cursor := ?wc + ?len\<rparr>"
  have hb: "chunk ?b (?c mod ?N) 1 = [flag_byte FLAG_OK]"
      "chunk ?b (?c mod ?N + 1) 4 = bytes_of_u32 (word_of_nat (?k + (?l + unat remaining)))"
    using hdr(1,2) wf cN by (simp_all add: chunk_blit_other)
  have "chunk ?b (?c mod ?N + 5) (?k + ?l) = chunk ?b (?c mod ?N + 5) ?k @ chunk ?b (?c mod ?N + 5 + ?k) ?l"
    using put(3) cN by (intro chunk_add) auto
  also have "\<dots> = op @ msg"
    using hdr(3) wf cN chunk_blit_same[of "?c mod ?N + 5 + ?k" msg "rs_buffer s"]
    by (simp add: chunk_blit_other)
  finally have cbk: "chunk ?b (?c mod ?N + 5) (?k + ?l) = op @ msg" .
  have "unat (?wc + ?len) = ?c + 5 + (?k + ?l)" using small wcur len by (simp add: unat_add_bounded)
  then have par': "ring_partial ?t fs (op @ msg) (unat remaining)"
    using res hb cbk by (simp add: ring_partial_def ring_reserved_def add.assoc)
  show ?thesis
  proof (cases "remaining = 0")
    case False
    let ?u = "?t\<lparr>rs_writing := False\<rparr>"
    have "ring_partial ?u fs (op @ msg) (unat remaining)" using par' by (simp add: ring_partial_def ring_reserved_def Let_def)
    moreover have "0 < unat remaining" using False by (simp add: unat_gt_0)
    ultimately have "w_inv (W_done True) ?u b fs (op @ msg)" using msg by auto
    moreover have "published ?u b fs" using put(2) by simp
    ultimately have "w_ok (W_copy ?call) s b fs op (W_done True) ?u"
      using False unfolding w_ok_def
      by (intro exI[of _ "[]"] exI[of _ "op @ msg"]) (simp add: w_goes_on_def plain_writer_def)
    moreover have "writer_step ndebug (W_copy ?call) s = Done (W_done True, ?u)"
      using False skip rem' put(1) by (simp add: w_copy_def Let_def)
    ultimately show ?thesis by blast
  next
    case True
    have "published ?t b fs" using put(2) by simp
    then have "w_ok (W_copy ?call) s b fs op (W_publish ?call) ?t"
      using par' msg True by (intro w_ok_same) (auto simp: plain_writer_def)
    moreover have "writer_step ndebug (W_copy ?call) s = Done (W_publish ?call, ?t)"
      using True skip rem' put(1) by (simp add: w_copy_def Let_def)
    ultimately show ?thesis by blast
  qed
qed

lemma w_publish_Done:
  assumes p: "published s b fs" and w: "w_inv (W_publish (msg, remaining, cnt)) s b fs op"
  shows "\<exists>pc t. writer_step ndebug (W_publish (msg, remaining, cnt)) s = Done (pc, t)
     \<and> w_ok (W_publish (msg, remaining, cnt)) s b fs op pc t"
proof -
  let ?N = "ring_cap s" and ?c = "unat (rs_cursor s)" and ?call = "(msg, remaining, cnt)"
  have msg: "msg \<noteq> []" and rem: "remaining = 0" and par: "ring_partial s fs (op @ msg) 0" using w by simp_all
  then have x: "unat (rs_total s) = 5 + length (op @ msg)" "rs_writing_begin s = rs_cursor s"
    "unat (rs_reserved s) = ?c + (5 + length (op @ msg))" "?c mod ?N + (5 + length (op @ msg)) < ?N"
    "frames_size fs + (5 + length (op @ msg)) < ?N"
    and f: "frame_at (rs_buffer s) ?N ?c (Msg (op @ msg))"
    by (auto simp: ring_partial_def ring_reserved_def Let_def)
  have cb: "?c = b + frames_size fs" using p by (simp add: published_def)
  have cur: "unat (rs_cursor s + rs_total s) = ?c + (5 + length (op @ msg))"
    using x(1,3) unsigned_less[of "rs_reserved s", where 'a = nat] by (simp add: unat_add_bounded)
  let ?t = "s\<lparr>rs_cursor := rs_cursor s + rs_total s, rs_writing_begin := rs_cursor s + rs_total s,
     rs_writing_cursor := 0, rs_skip := False, rs_writing := False\<rparr>"
  have "published ?t b (fs @ [Msg (op @ msg)])" using p f cur cb x(5) by (auto simp: published_def)
  moreover have "rs_reserved s = rs_cursor s + rs_total s" using cur x(3) by (simp add: word_unat_eq_iff)
  ultimately have "w_ok (W_publish ?call) s b fs op (W_done True) ?t"
    using rem unfolding w_ok_def
    by (intro exI[of _ "[Msg (op @ msg)]"] exI[of _ "[]"]) (simp add: w_goes_on_def plain_writer_def)
  moreover have "writer_step ndebug (W_publish ?call) s = Done (W_done True, ?t)"
    using x(2) by (simp add: w_notify_def)
  ultimately show ?thesis by blast
qed

lemma writer_step_Done:
  assumes p: "published s b fs" and w: "w_inv pc s b fs op" and pc: "\<forall>r. pc \<noteq> W_done r"
  shows "\<exists>pc' t. writer_step ndebug pc s = Done (pc', t) \<and> w_ok pc s b fs op pc' t"
proof (cases pc)
  case (W_start msg remaining)
  let ?t = "s\<lparr>rs_writing := True\<rparr>" and ?c = "(msg, remaining, rs_reset_count s)"
  have "w_inv (W_enter ?c) ?t b fs op"
    using w W_start by (auto simp: w_ready_def room_from_def padding_def ring_partial_def ring_reserved_def Let_def)
  then have "w_ok pc s b fs op (W_enter ?c) ?t" using p W_start
    by (intro w_ok_same) (auto simp: plain_writer_def needs_padding_def padding_def Let_def)
  then show ?thesis using W_start by auto
next
  case (W_enter c)
  then show ?thesis using w_enter_Done[OF p] w by (cases c) auto
next
  case (W_copy c)
  then show ?thesis using w_copy_Done[OF p] w by (cases c) blast
next
  case (W_publish c)
  then show ?thesis using w_publish_Done[OF p] w by (cases c) blast
next
  case (W_skip c pad)
  then show ?thesis using w_skip_Done[OF p] w by blast
next
  case (W_pad c pad)
  then show ?thesis using w_pad_Done[OF p] w by blast
next
  case (W_wait c x y)
  then show ?thesis using w_wait_Done[OF p _ w, of c x y] by blast
next
  case (W_wait_end c x y)
  then show ?thesis using w_wait_Done[OF p _ w, of c x y] by blast
next
  case (W_flag c)
  then show ?thesis using w_flag_Done[OF p] w by blast
next
  case (W_len c)
  then show ?thesis using w_len_Done[OF p] w by blast
qed (use pc in simp)

text \<open>The reader's places do not depend on the writer.\<close>

lemma r_inv_writer:
  assumes "r_inv pc s b fs" "rs_reading_cursor t = rs_reading_cursor s" "rs_reading_begin t = rs_reading_begin s"
    and "rs_mask t = rs_mask s" "rs_size t = rs_size s"
  shows "r_inv pc t b (fs @ new)"
proof (cases pc)
  case (R_loaded cursor)
  then obtain f1 f2 where "fs = f1 @ f2" "unat cursor = b + frames_size f1" using assms(1) by auto
  then have "fs @ new = f1 @ (f2 @ new)" "unat cursor = b + frames_size f1" by simp_all
  then show ?thesis using R_loaded assms by (simp, blast)
qed (use assms in auto)

lemma writer_moves:
  assumes inv: "rt_inv m b fs" and busy: "\<forall>r. rt_writer m \<noteq> W_done r"
  shows "\<exists>m' new pc t. ring_do ndebug Writer m = Done m' \<and> rt_inv m' b (fs @ new)
     \<and> rt_sent m' = rt_sent m @ messages new \<and> w_goes_on (rt_writer m) (rt_ring m) new pc t
     \<and> m' = note_written (rt_writer m) pc (m\<lparr>rt_writer := pc, rt_ring := t\<rparr>)"
proof -
  let ?s = "rt_ring m" and ?pc = "rt_writer m"
  from inv have p: "published ?s b fs" and w: "w_inv ?pc ?s b fs (rt_open m)"
    and r: "r_inv (rt_reader m) ?s b fs" and sent: "rt_sent m = rt_got m @ messages fs"
    by (simp_all add: rt_inv_def)
  from writer_step_Done[OF p w busy] obtain pc' t where
    t: "writer_step ndebug ?pc ?s = Done (pc', t)" "w_ok ?pc ?s b fs (rt_open m) pc' t" by blast
  then obtain new op' where n: "published t b (fs @ new)" "w_inv pc' t b (fs @ new) op'"
     "rs_reading_cursor t = rs_reading_cursor ?s" "rs_reading_begin t = rs_reading_begin ?s"
     "rs_mask t = rs_mask ?s" "rs_size t = rs_size ?s" "w_goes_on ?pc ?s new pc' t"
    and nt: "case (?pc, pc') of
          (W_copy (msg, _), W_done r) \<Rightarrow> op' = rt_open m @ msg \<and> messages new = []
        | (W_publish (msg, _), W_done r) \<Rightarrow> op' = [] \<and> messages new = [rt_open m @ msg]
        | _ \<Rightarrow> op' = rt_open m \<and> messages new = []"
    unfolding w_ok_def by blast
  let ?m = "note_written ?pc pc' (m\<lparr>rt_writer := pc', rt_ring := t\<rparr>)"
  have "rt_writer ?m = pc' \<and> rt_ring ?m = t \<and> rt_reader ?m = rt_reader m \<and> rt_got ?m = rt_got m
      \<and> rt_open ?m = op' \<and> rt_sent ?m = rt_sent m @ messages new"
    using nt by (auto simp: note_written_def split: wpc.splits prod.splits)
  moreover have "r_inv (rt_reader m) t b (fs @ new)" by (rule r_inv_writer[OF r n(3-6)])
  ultimately have "rt_inv ?m b (fs @ new) \<and> rt_sent ?m = rt_sent m @ messages new"
    using n(1,2) sent by (simp add: rt_inv_def)
  then show ?thesis using t(1) n(7)
    by (intro exI[of _ ?m] exI[of _ new] exI[of _ pc'] exI[of _ t]) auto
qed

lemma note_written_simps [simp]:
  "rt_writer (note_written pc pc' m) = rt_writer m" "rt_reader (note_written pc pc' m) = rt_reader m"
  "rt_ring (note_written pc pc' m) = rt_ring m" "rt_got (note_written pc pc' m) = rt_got m"
  by (auto simp: note_written_def split: wpc.splits prod.splits)

lemma writer_keeps:
  assumes inv: "rt_inv m b fs"
  shows "\<exists>m' new. ring_do ndebug Writer m = Done m' \<and> rt_inv m' b (fs @ new)"
proof (cases "\<forall>r. rt_writer m \<noteq> W_done r")
  case True
  then show ?thesis using writer_moves[OF inv True, of ndebug] by blast
next
  case False
  then have "ring_do ndebug Writer m = Done m" by (auto simp: note_written_def)
  then show ?thesis using inv by (intro exI[of _ m] exI[of _ "[]"]) simp
qed

text \<open>A call that is running goes on, or returns \<open>True\<close> with its part written.\<close>

lemma writer_call:
  assumes inv: "rt_inv m b fs" and call: "call_of (rt_writer m) = Some (p, remaining)"
  shows "\<exists>m' new. ring_do ndebug Writer m = Done m' \<and> rt_inv m' b (fs @ new)
     \<and> rt_reader m' = rt_reader m \<and> rt_got m' = rt_got m
     \<and> (plain_writer (rt_writer m) (rt_ring m) \<longrightarrow>
          plain_writer (rt_writer m') (rt_ring m') \<and> only_messages new)
     \<and> (call_of (rt_writer m') = Some (p, remaining) \<and> rt_open m' = rt_open m \<and> rt_sent m' = rt_sent m
        \<or> rt_writer m' = W_done True \<and>
          (if remaining = 0 then rt_open m' = [] \<and> rt_sent m' = rt_sent m @ [rt_open m @ p]
           else rt_open m' = rt_open m @ p \<and> rt_sent m' = rt_sent m
             \<and> rs_remaining (rt_ring m') = remaining))"
proof -
  have "\<forall>r. rt_writer m \<noteq> W_done r" using call by auto
  from writer_moves[OF inv this, of ndebug] obtain m' new pc t where
    m: "ring_do ndebug Writer m = Done m'" "rt_inv m' b (fs @ new)" "w_goes_on (rt_writer m) (rt_ring m) new pc t"
    "m' = note_written (rt_writer m) pc (m\<lparr>rt_writer := pc, rt_ring := t\<rparr>)" by blast
  have "call_of pc = Some (p, remaining) \<and> rt_open m' = rt_open m \<and> rt_sent m' = rt_sent m
      \<or> pc = W_done True \<and>
        (if remaining = 0 then rt_open m' = [] \<and> rt_sent m' = rt_sent m @ [rt_open m @ p]
         else rt_open m' = rt_open m @ p \<and> rt_sent m' = rt_sent m \<and> rs_remaining t = remaining)"
  proof (cases "\<exists>r. pc = W_done r")
    case True
    then show ?thesis using m(3,4) call
      by (auto simp: w_goes_on_def note_written_def split: wpc.splits)
  next
    case False
    then show ?thesis using m(3,4) call
      by (auto simp: w_goes_on_def note_written_def split: wpc.splits)
  qed
  then show ?thesis using m by (intro exI[of _ m'] exI[of _ new]) (auto simp: w_goes_on_def)
qed

lemma in_use_base: "rt_inv m b fs \<Longrightarrow> in_use m = b"
  by (cases "rt_reader m") (auto simp: rt_inv_def in_use_def)

lemma start_call:
  assumes inv: "rt_inv m b fs" and ok: "event_ok (Start_write msg remaining) m" and W_done: "rt_writer m = W_done r"
  shows "ring_do ndebug (Start_write msg remaining) m = Done (m\<lparr>rt_writer := W_start msg remaining\<rparr>)"
    and "rt_inv (m\<lparr>rt_writer := W_start msg remaining\<rparr>) b fs"
proof -
  let ?s = "rt_ring m" and ?n = "length msg + unat remaining"
  from inv have p: "published ?s b fs" and w: "w_inv (W_done r) ?s b fs (rt_open m)"
    using W_done by (simp_all add: rt_inv_def)
  have msg: "msg \<noteq> []" and fit: "if rs_writing_cursor ?s = 0 then room_from b ?s ?n
      else ?n = unat (rs_remaining ?s)"
    using ok W_done unfolding in_use_base[OF inv, symmetric] by simp_all
  from w have "rt_open m = [] \<and> rs_reserved ?s = rs_cursor ?s \<and> rs_writing_cursor ?s = 0
     \<or> rt_open m \<noteq> [] \<and> rs_writing_cursor ?s \<noteq> 0 \<and> ring_partial ?s fs (rt_open m) (unat (rs_remaining ?s))"
    by (auto simp: ring_partial_def Let_def)
  then have ready: "w_ready msg remaining ?s b fs (rt_open m)"
    using msg fit by (auto simp: w_ready_def)
  have "?n < 2 ^ 64"
    using fit unsigned_less[of "rs_remaining ?s", where 'a = nat] by (auto simp: room_from_def split: if_splits)
  then have "unat (word_of_nat (length msg) :: u64) = length msg" by (simp add: unat_of_nat)
  then have "(word_of_nat (length msg) :: u64) \<noteq> 0" using msg by (metis length_0_conv unat_0)
  then have "w_begin msg remaining ?s = W_start msg remaining" using p by (simp add: w_begin_def published_def)
  then show "ring_do ndebug (Start_write msg remaining) m = Done (m\<lparr>rt_writer := W_start msg remaining\<rparr>)"
    using W_done by simp
  show "rt_inv (m\<lparr>rt_writer := W_start msg remaining\<rparr>) b fs" using inv ready by (simp add: rt_inv_def)
qed

lemma start_keeps:
  assumes inv: "rt_inv m b fs" and ok: "event_ok (Start_write msg remaining) m"
  shows "\<exists>m'. ring_do ndebug (Start_write msg remaining) m = Done m' \<and> rt_inv m' b fs"
proof (cases "rt_writer m")
  case (W_done r)
  then show ?thesis using start_call[OF inv ok W_done] by blast
qed (use inv in auto)

lemma event_keeps:
  assumes inv: "rt_inv m b fs" and ok: "event_ok e m"
  shows "\<exists>m' b' gs. ring_do ndebug e m = Done m' \<and> rt_inv m' b' gs"
proof (cases e)
  case (Start_write msg remaining)
  then show ?thesis using start_keeps[OF inv] ok by blast
next
  case Writer
  then show ?thesis using writer_keeps[OF inv] by blast
next
  case Reader
  then show ?thesis using reader_keeps[OF inv] by blast
qed (use ok in simp)

lemma schedule_keeps:
  "rt_inv m b fs \<Longrightarrow> schedule_ok ndebug es m \<Longrightarrow>
   \<exists>m' b' gs. ring_schedule ndebug es m = Done m' \<and> rt_inv m' b' gs"
proof (induction es arbitrary: m b fs)
  case Nil
  then show ?case by auto
next
  case (Cons e es)
  obtain n b' gs where n: "ring_do ndebug e m = Done n" "rt_inv n b' gs"
    using event_keeps[OF Cons.prems(1), of e ndebug] Cons.prems(2) by auto
  then show ?case using Cons.IH[OF n(2)] Cons.prems(2) by simp
qed

lemma new_inv:
  assumes "is_pow2 sz" "length mem = unat sz" "unat sz \<le> 2 ^ 32"
  shows "rt_inv (ring_threads_new mem sz) 0 []"
  using assms is_pow2_pos[OF assms(1)]
  by (simp add: rt_inv_def ring_threads_new_def published_def string_ring_new_def ring_wf_def)

text \<open>The reader alone empties the ring, and then leaves it as it is.\<close>

lemma reader_idles:
  "rt_inv m b [] \<Longrightarrow> \<exists>m' b'. ring_schedule ndebug (replicate n Reader) m = Done m'
     \<and> rt_inv m' b' [] \<and> rt_sent m' = rt_sent m"
proof (induction n arbitrary: m b)
  case (Suc n)
  obtain k b' where k: "ring_do ndebug Reader m = Done k" "rt_inv k b' []" "rt_sent k = rt_sent m"
    using reader_keeps[OF Suc.prems, of ndebug] by auto
  then show ?case using Suc.IH[OF k(2)] by simp
qed auto

lemma reader_reaches_end:
  assumes "rt_inv m b fs"
  shows "\<exists>n m' b'. ring_schedule ndebug (replicate n Reader) m = Done m'
     \<and> rt_inv m' b' [] \<and> rt_sent m' = rt_sent m"
  using assms
proof (induction "7 * length fs + r_rank b (rt_reader m)" arbitrary: m b fs rule: less_induct)
  case less
  obtain k b' gs where k: "ring_do ndebug Reader m = Done k" "rt_inv k b' gs" "rt_sent k = rt_sent m"
    and or: "fs = [] \<and> gs = [] \<or> fs \<noteq> [] \<and> (length gs < length fs
         \<or> gs = fs \<and> b' = b \<and> r_rank b' (rt_reader k) < r_rank b (rt_reader m))"
    using reader_keeps[OF less.prems, of ndebug] by blast
  show ?case
  proof (cases "fs = []")
    case True
    then show ?thesis using less.prems by (intro exI[of _ 0] exI[of _ m] exI[of _ b]) simp
  next
    case False
    have "r_rank b' (rt_reader k) \<le> 6" by (cases "rt_reader k") auto
    then have "7 * length gs + r_rank b' (rt_reader k) < 7 * length fs + r_rank b (rt_reader m)"
      using or False by auto
    from less.hyps[OF this k(2)] obtain n m' c where
      "ring_schedule ndebug (replicate n Reader) k = Done m'" "rt_inv m' c []" "rt_sent m' = rt_sent k"
      by blast
    then show ?thesis using k(1,3) by (intro exI[of _ "Suc n"] exI[of _ m'] exI[of _ c]) simp
  qed
qed

lemma reader_drains:
  assumes "rt_inv m b fs"
  shows "\<exists>n0. \<forall>n \<ge> n0. \<exists>m'. ring_schedule ndebug (replicate n Reader) m = Done m'
     \<and> rt_got m' = rt_sent m \<and> rt_sent m' = rt_sent m"
proof -
  obtain n0 k b' where k: "ring_schedule ndebug (replicate n0 Reader) m = Done k" "rt_inv k b' []"
    "rt_sent k = rt_sent m" using reader_reaches_end[OF assms] by blast
  have "\<exists>m'. ring_schedule ndebug (replicate n Reader) m = Done m'
     \<and> rt_got m' = rt_sent m \<and> rt_sent m' = rt_sent m" if n: "n0 \<le> n" for n
  proof -
    obtain m' c where m': "ring_schedule ndebug (replicate (n - n0) Reader) k = Done m'" "rt_inv m' c []"
      "rt_sent m' = rt_sent k" using reader_idles[OF k(2)] by blast
    have "replicate n Reader = replicate n0 Reader @ replicate (n - n0) Reader"
      using n by (simp flip: replicate_add)
    then show ?thesis using k(1,3) m' by (simp add: ring_schedule_append rt_inv_def)
  qed
  then show ?thesis by blast
qed

section \<open>A writer that never comes back\<close>

text \<open>It waits for \<open>cursor_\<close>, which nobody but itself advances.\<close>

definition hanging :: "ring_threads \<Rightarrow> bool" where
  "hanging m \<longleftrightarrow> (\<exists>c. rt_writer m = W_publish c) \<and> rs_cursor (rt_ring m) \<noteq> rs_writing_begin (rt_ring m)
     \<and> rt_reader m \<noteq> R_waiting \<and> rt_reader m \<noteq> R_clearing"

lemma reader_frame:
  assumes "reader_step pc s = Done (pc', t)" "pc \<noteq> R_waiting" "pc \<noteq> R_clearing"
  shows "rs_cursor t = rs_cursor s \<and> rs_writing_begin t = rs_writing_begin s
     \<and> pc' \<noteq> R_waiting \<and> pc' \<noteq> R_clearing"
  using assms
  by (cases pc) (auto simp: read_check_def read_len_def read_advance_def Let_def result_bind_eq_Done
      split: if_splits)

lemma hanging_step:
  assumes "hanging m" "e \<noteq> Start_reset" "ring_do ndebug e m = Done m'"
  shows "hanging m'"
proof (cases e)
  case Reader
  then obtain pc t where t: "reader_step (rt_reader m) (rt_ring m) = Done (pc, t)"
    "rt_reader m' = pc" "rt_ring m' = t" "rt_writer m' = rt_writer m"
    using assms(3) by (auto simp: result_bind_eq_Done)
  then show ?thesis using reader_frame[OF t(1)] assms(1) by (auto simp: hanging_def)
qed (use assms in \<open>auto simp: hanging_def w_notify_def note_written_def\<close>)

lemma hanging_schedule:
  "hanging m \<Longrightarrow> Start_reset \<notin> set es \<Longrightarrow> ring_schedule ndebug es m = Done m' \<Longrightarrow> hanging m'"
proof (induction es arbitrary: m)
  case (Cons e es)
  then obtain k where k: "ring_do ndebug e m = Done k" "ring_schedule ndebug es k = Done m'"
    by (auto simp: result_bind_eq_Done)
  have "hanging k" using hanging_step[OF Cons.prems(1) _ k(1)] Cons.prems(2) by auto
  then show ?case using Cons.IH[OF _ _ k(2)] Cons.prems(2) by simp
qed simp

section \<open>Properties\<close>

text \<open>
  C3: one writer and one reader, in every interleaving of their single steps, while every message is
  started with room for it: no step leaves the buffer or fails an assertion, and what the caller of
  \<open>read\<close> has seen are the first of the published messages, each byte for byte.
\<close>

theorem ring_threads_fifo:
  assumes "is_pow2 sz" and "length mem = unat sz" and "unat sz \<le> 2 ^ 32"
    and "schedule_ok ndebug es (ring_threads_new mem sz)"
  shows "\<exists>m rest. ring_schedule ndebug es (ring_threads_new mem sz) = Done m \<and> rt_sent m = rt_got m @ rest"
proof -
  obtain m b fs where "ring_schedule ndebug es (ring_threads_new mem sz) = Done m" "rt_inv m b fs"
    using schedule_keeps[OF new_inv[OF assms(1-3)] assms(4)] by blast
  then show ?thesis by (auto simp: rt_inv_def)
qed


text \<open>Two messages, the second in two parts, with the reader's steps among the writer's.\<close>

definition some_schedule :: "ring_event list" where
  "some_schedule = [Start_write [1, 2] 0, Reader] @ replicate 7 Writer @ [Reader, Reader]
     @ [Start_write [3] 2, Writer, Reader, Writer, Writer, Reader] @ replicate 5 Writer
     @ [Start_write [4, 5] 0, Reader, Writer, Reader, Writer, Writer, Reader, Writer]"

lemma some_schedule_ok: "schedule_ok False some_schedule (ring_threads_new (replicate 64 0) 64)"
  by code_simp

theorem ring_threads_fifo_witness:
  "\<exists>m rest. ring_schedule False some_schedule (ring_threads_new (replicate 64 0) 64) = Done m
     \<and> rt_sent m = rt_got m @ rest"
  by (rule ring_threads_fifo[OF _ _ _ some_schedule_ok]) (simp_all add: is_pow2_def)


text \<open>
  C31: a \<open>reset\<close> that looks at \<open>writing_\<close> between the writer's check of \<open>resetting_\<close> and its store to
  \<open>writing_\<close> clears the ring while a message is being written. That message is still published, but
  the next \<open>write\<close> never returns, whatever the reader and the writer do.
\<close>

theorem ring_reset_race:
  "\<exists>m. ring_schedule True
       ([Start_write [1] 0] @ replicate 7 Writer
        @ [Start_write [2] 0, Start_reset, Reader, Writer, Writer, Reader] @ replicate 5 Writer
        @ [Start_write [3] 0] @ replicate 6 Writer)
       (ring_threads_new (replicate 64 0) 64) = Done m
     \<and> rt_sent m = [[1], [2]] \<and> (\<exists>c. rt_writer m = W_publish c)
     \<and> (\<forall>es. case ring_schedule True (filter (\<lambda>e. e \<noteq> Start_reset) es) m of
          Done m' \<Rightarrow> (\<exists>c. rt_writer m' = W_publish c) | _ \<Rightarrow> True)"
proof -
  let ?es = "[Start_write [1] 0] @ replicate 7 Writer
        @ [Start_write [2] 0, Start_reset, Reader, Writer, Writer, Reader] @ replicate 5 Writer
        @ [Start_write [3] 0] @ replicate 6 Writer"
  have "result_bind (ring_schedule True ?es (ring_threads_new (replicate 64 0) 64))
      (\<lambda>m. Done (rt_sent m, rt_writer m, rs_cursor (rt_ring m), rs_writing_begin (rt_ring m), rt_reader m))
    = Done ([[1], [2]], W_publish ([3], 0, 1), 6, 0, R_idle)" by code_simp
  then obtain m where m: "ring_schedule True ?es (ring_threads_new (replicate 64 0) 64) = Done m"
    "rt_sent m = [[1], [2]]" "rt_writer m = W_publish ([3], 0, 1)" "rs_cursor (rt_ring m) = 6"
    "rs_writing_begin (rt_ring m) = 0" "rt_reader m = R_idle"
    unfolding result_bind_eq_Done by auto
  then have "hanging m" by (simp add: hanging_def)
  then have "case ring_schedule True (filter (\<lambda>e. e \<noteq> Start_reset) es) m of
      Done m' \<Rightarrow> (\<exists>c. rt_writer m' = W_publish c) | _ \<Rightarrow> True" for es
    using hanging_schedule[of m "filter (\<lambda>e. e \<noteq> Start_reset) es" True]
    by (auto simp: hanging_def split: result.splits)
  then show ?thesis using m by (intro exI[of _ m]) blast
qed

end
