(* ===== verification/Ring_Memory_Order.thy ===== *)
theory Ring_Memory_Order
  imports Ring_Threads_Fifo
begin

text \<open>
  The memory orders of \<open>ring_string_buffer\<close> (src/ring_buffer.h). The bytes of the buffer are not atomic:
  a byte that one thread stores and the other one reads must be handed over by a release store and an
  acquire load. The accesses of every step are listed with the orders they have in the source, and
  happens-before is followed with a clock for each thread. No load in \<open>read\<close> has acquire order, so that
  every delivery of a message is a data race.
\<close>

section \<open>Happens-before\<close>

datatype order = Relaxed | Acquire | Release | Seq_cst

definition acquires :: "order \<Rightarrow> bool" where
  "acquires ord \<longleftrightarrow> ord = Acquire \<or> ord = Seq_cst"

definition releases :: "order \<Rightarrow> bool" where
  "releases ord \<longleftrightarrow> ord = Release \<or> ord = Seq_cst"

datatype shared = Cursor | Reserved | Reading_begin | Writing | Resetting

text \<open>Accesses to the atomics; reads and stores of \<open>n\<close> bytes of the buffer from \<open>i\<close> on.\<close>

datatype access = Load shared order | Store shared order | Update shared order | Read_at nat nat | Write_at nat nat

datatype thread = The_writer | The_reader

text \<open>
  How much of the steps of the writer and of the reader happens before now: for each thread, and for the
  last release store to each atomic; the writer's time of the last store to each byte, and the reader's
  time of the last read of it.
\<close>

type_synonym vclock = "nat \<times> nat"

definition vjoin :: "vclock \<Rightarrow> vclock \<Rightarrow> vclock" where
  "vjoin a b = (max (fst a) (fst b), max (snd a) (snd b))"

record clocks =
  ck_thread :: "thread \<Rightarrow> vclock"
  ck_var :: "shared \<Rightarrow> vclock"
  ck_wrote :: "nat \<Rightarrow> nat"
  ck_read :: "nat \<Rightarrow> nat"
  ck_race :: bool

definition clocks_start :: clocks where
  "clocks_start = \<lparr>ck_thread = (\<lambda>t. case t of The_writer \<Rightarrow> (1, 0) | The_reader \<Rightarrow> (0, 1)),
     ck_var = (\<lambda>_. (0, 0)), ck_wrote = (\<lambda>_. 0), ck_read = (\<lambda>_. 0), ck_race = False\<rparr>"

definition ck_acquire :: "thread \<Rightarrow> shared \<Rightarrow> clocks \<Rightarrow> clocks" where
  "ck_acquire t v c = c\<lparr>ck_thread := (ck_thread c)(t := vjoin (ck_thread c t) (ck_var c v))\<rparr>"

definition stamp :: "nat \<Rightarrow> nat \<Rightarrow> nat \<Rightarrow> (nat \<Rightarrow> nat) \<Rightarrow> nat \<Rightarrow> nat" where
  "stamp i n now f j = (if i \<le> j \<and> j < i + n then now else f j)"

text \<open>
  A read-modify-write continues the release sequence of the value it replaces. The reader's reads race
  with a store that does not happen before them, the writer's stores with a read that does not.
\<close>

fun access_do :: "thread \<Rightarrow> access \<Rightarrow> clocks \<Rightarrow> clocks" where
  "access_do t (Load v ord) c = (if acquires ord then ck_acquire t v c else c)"
| "access_do t (Store v ord) c =
     c\<lparr>ck_var := (ck_var c)(v := if releases ord then ck_thread c t else (0, 0))\<rparr>"
| "access_do t (Update v ord) c =
     (let c = if acquires ord then ck_acquire t v c else c in
      if releases ord then c\<lparr>ck_var := (ck_var c)(v := vjoin (ck_var c v) (ck_thread c t))\<rparr> else c)"
| "access_do t (Read_at i n) c =
     c\<lparr>ck_race := ck_race c \<or> list_ex (\<lambda>j. fst (ck_thread c t) < ck_wrote c j) [i..<i + n],
       ck_read := stamp i n (snd (ck_thread c t)) (ck_read c)\<rparr>"
| "access_do t (Write_at i n) c =
     c\<lparr>ck_race := ck_race c \<or> list_ex (\<lambda>j. snd (ck_thread c t) < ck_read c j) [i..<i + n],
       ck_wrote := stamp i n (fst (ck_thread c t)) (ck_wrote c)\<rparr>"

definition tick :: "thread \<Rightarrow> clocks \<Rightarrow> clocks" where
  "tick t c = c\<lparr>ck_thread := (ck_thread c)(t := (case t of
     The_writer \<Rightarrow> (Suc (fst (ck_thread c t)), snd (ck_thread c t))
   | The_reader \<Rightarrow> (fst (ck_thread c t), Suc (snd (ck_thread c t)))))\<rparr>"

definition accesses_do :: "thread \<Rightarrow> access list \<Rightarrow> clocks \<Rightarrow> clocks" where
  "accesses_do t as c = tick t (fold (access_do t) as c)"

section \<open>The accesses of the steps\<close>

text \<open>\<open>fetch_add\<close> without an order is sequentially consistent, \<open>scoped_flag\<close> stores with release order.\<close>

definition at_cursor :: "string_ring \<Rightarrow> nat" where
  "at_cursor s = unat (rs_writing_cursor s AND rs_mask s)"

definition notify_accesses :: "string_ring \<Rightarrow> access list" where
  "notify_accesses s = Load Cursor Relaxed #
     (if rs_cursor s = rs_writing_begin s then [Update Cursor Seq_cst] else [])"

definition enter_accesses :: "write_call \<Rightarrow> string_ring \<Rightarrow> access list" where
  "enter_accesses = (\<lambda>(msg, remaining, cnt) s.
     let total = word_of_nat (length msg) + remaining + 5; index = rs_reserved s AND rs_mask s in
     if rs_writing_cursor s \<noteq> 0 then []
     else if total \<ge> rs_size s then [Store Writing Release]
     else Update Reserved Seq_cst # (if index + total \<ge> rs_size s then [Update Reserved Seq_cst] else []))"

definition copy_accesses :: "write_call \<Rightarrow> string_ring \<Rightarrow> access list" where
  "copy_accesses = (\<lambda>(msg, remaining, cnt) s.
     let fits = rs_remaining s - word_of_nat (length msg) = remaining in
     (if fits \<and> \<not> rs_skip s then [Write_at (at_cursor s) (length msg)] else [])
     @ (if remaining \<noteq> 0 \<or> rs_skip s then [Store Writing Release]
        else if fits then [] else [Write_at (unat (rs_writing_begin s AND rs_mask s)) 1]))"

fun writer_accesses :: "wpc \<Rightarrow> string_ring \<Rightarrow> access list" where
  "writer_accesses (W_done b) s = []"
| "writer_accesses (W_start msg remaining) s = [Store Writing Release]"
| "writer_accesses (W_enter c) s = enter_accesses c s"
| "writer_accesses (W_skip c pad) s = [Write_at (at_cursor s) 1]"
| "writer_accesses (W_pad c pad) s = notify_accesses s"
| "writer_accesses (W_wait c x y) s =
     Load Resetting Relaxed # (if rs_resetting s then [] else [Load Reading_begin Relaxed])"
| "writer_accesses (W_wait_end c x y) s = [Load Reading_begin Relaxed]"
| "writer_accesses (W_flag (msg, remaining, cnt)) s =
     (if cnt \<noteq> rs_reset_count s then [Store Writing Release] else [Write_at (at_cursor s) 1])"
| "writer_accesses (W_len c) s = [Write_at (at_cursor s) 4]"
| "writer_accesses (W_copy c) s = copy_accesses c s"
| "writer_accesses (W_publish c) s = notify_accesses s
     @ (if rs_cursor s = rs_writing_begin s then [Store Writing Release] else [])"

text \<open>\<open>ord\<close> is the order of the load of \<open>cursor_\<close> in \<open>read\<close>, \<open>Relaxed\<close> in the source.\<close>

fun reader_accesses :: "order \<Rightarrow> rpc \<Rightarrow> string_ring \<Rightarrow> access list" where
  "reader_accesses ord R_idle s = [Load Cursor ord]"
| "reader_accesses ord (R_loaded cursor) s = Load Resetting Relaxed #
     (if rs_resetting s then []
      else Load Reading_begin Relaxed #
        (if rs_reading_begin s \<noteq> cursor AND rs_mask s
         then [Read_at (unat (rs_reading_cursor s AND rs_mask s)) 1] else []))"
| "reader_accesses ord (R_flagged flg) s =
     (if flg = [flag_byte FLAG_SKIP] then [] else [Read_at (unat (rs_reading_cursor s AND rs_mask s)) 4])"
| "reader_accesses ord (R_sized flg len) s = [Store Reading_begin Release]"
| "reader_accesses ord (R_using off len) s = [Read_at (unat off) (unat len)]"
| "reader_accesses ord R_waiting s = [Load Writing Relaxed]"
| "reader_accesses ord R_clearing s =
     [Store Reserved Relaxed, Store Cursor Relaxed, Load Cursor Relaxed, Store Reading_begin Release,
      Store Resetting Release]"

fun event_accesses :: "order \<Rightarrow> ring_event \<Rightarrow> ring_threads \<Rightarrow> clocks \<Rightarrow> clocks" where
  "event_accesses ord (Start_write msg remaining) m c = accesses_do The_writer [Load Resetting Relaxed] c"
| "event_accesses ord Writer m c = accesses_do The_writer (writer_accesses (rt_writer m) (rt_ring m)) c"
| "event_accesses ord Reader m c = accesses_do The_reader (reader_accesses ord (rt_reader m) (rt_ring m)) c"
| "event_accesses ord Start_reset m c = accesses_do The_reader [Store Resetting Release] c"

fun ordered_schedule ::
  "order \<Rightarrow> bool \<Rightarrow> ring_event list \<Rightarrow> ring_threads \<Rightarrow> clocks \<Rightarrow> (ring_threads \<times> clocks) result"
where
  "ordered_schedule ord ndebug [] m c = Done (m, c)"
| "ordered_schedule ord ndebug (e # es) m c = result_bind (ring_do ndebug e m)
     (\<lambda>m'. ordered_schedule ord ndebug es m' (event_accesses ord e m c))"

lemma ordered_schedule_ring:
  "ordered_schedule ord ndebug es m c = Done (m', c') \<Longrightarrow> ring_schedule ndebug es m = Done m'"
  by (induction es arbitrary: m c) (auto simp: result_bind_eq_Done)

section \<open>What the reader knows of the writer\<close>

text \<open>Nothing, without an acquire load; and once there was a race there was one.\<close>

lemma access_keeps:
  assumes "access_do t a c = d"
  shows "ck_race c \<Longrightarrow> ck_race d"
    and "t' \<noteq> t \<Longrightarrow> ck_thread d t' = ck_thread c t'"
    and "fst (ck_thread c t) \<le> fst (ck_thread d t)"
    and "0 < fst (ck_thread c t) \<Longrightarrow> 0 < ck_wrote c j \<Longrightarrow> 0 < ck_wrote d j"
  using assms by (cases a; auto simp: ck_acquire_def vjoin_def stamp_def Let_def split: if_splits)+

lemma fold_keeps:
  shows "ck_race c \<Longrightarrow> ck_race (fold (access_do t) as c)"
    and "t' \<noteq> t \<Longrightarrow> ck_thread (fold (access_do t) as c) t' = ck_thread c t'"
    and "fst (ck_thread c t) \<le> fst (ck_thread (fold (access_do t) as c) t)"
    and "0 < fst (ck_thread c t) \<Longrightarrow> 0 < ck_wrote c j \<Longrightarrow> 0 < ck_wrote (fold (access_do t) as c) j"
proof -
  let ?d = "\<lambda>c. fold (access_do t) as c"
  have k: "(ck_race c \<longrightarrow> ck_race (?d c)) \<and> (t' \<noteq> t \<longrightarrow> ck_thread (?d c) t' = ck_thread c t')
     \<and> fst (ck_thread c t) \<le> fst (ck_thread (?d c) t)
     \<and> (0 < fst (ck_thread c t) \<longrightarrow> 0 < ck_wrote c j \<longrightarrow> 0 < ck_wrote (?d c) j)" for c
  proof (induction as arbitrary: c)
    case (Cons a as)
    show ?case using Cons.IH[of "access_do t a c"] access_keeps[of t a c, OF refl] by force
  qed simp
  show "ck_race c \<Longrightarrow> ck_race (?d c)" "t' \<noteq> t \<Longrightarrow> ck_thread (?d c) t' = ck_thread c t'"
    "fst (ck_thread c t) \<le> fst (ck_thread (?d c) t)"
    "0 < fst (ck_thread c t) \<Longrightarrow> 0 < ck_wrote c j \<Longrightarrow> 0 < ck_wrote (?d c) j"
    using k[of c] by auto
qed

lemma accesses_keep:
  shows "ck_race c \<Longrightarrow> ck_race (accesses_do t as c)"
    and "t' \<noteq> t \<Longrightarrow> ck_thread (accesses_do t as c) t' = ck_thread c t'"
    and "0 < fst (ck_thread c t) \<Longrightarrow> 0 < fst (ck_thread (accesses_do t as c) t)"
    and "0 < fst (ck_thread c t) \<Longrightarrow> 0 < ck_wrote c j \<Longrightarrow> 0 < ck_wrote (accesses_do t as c) j"
  using fold_keeps(1)[of c t as] fold_keeps(2)[of t' t as c] fold_keeps(3)[of c t as] fold_keeps(4)[of c t j as]
  by (auto simp: accesses_do_def tick_def split: thread.split)

definition no_acquire :: "access list \<Rightarrow> bool" where
  "no_acquire as \<longleftrightarrow> (\<forall>a \<in> set as. case a of
     Load v ord \<Rightarrow> \<not> acquires ord | Update v ord \<Rightarrow> False | Write_at i n \<Rightarrow> False | _ \<Rightarrow> True)"

lemma no_acquire_keeps:
  assumes "no_acquire as"
  shows "ck_thread (fold (access_do t) as c) = ck_thread c" and "ck_wrote (fold (access_do t) as c) = ck_wrote c"
proof -
  have "ck_thread (fold (access_do t) as c) = ck_thread c \<and> ck_wrote (fold (access_do t) as c) = ck_wrote c"
    using assms
  proof (induction as arbitrary: c)
    case (Cons a as)
    then have "ck_thread (access_do t a c) = ck_thread c \<and> ck_wrote (access_do t a c) = ck_wrote c"
      by (cases a) (auto simp: no_acquire_def)
    then show ?case using Cons by (simp add: no_acquire_def)
  qed simp
  then show "ck_thread (fold (access_do t) as c) = ck_thread c" "ck_wrote (fold (access_do t) as c) = ck_wrote c"
    by auto
qed

lemma reader_never_acquires: "\<not> acquires ord \<Longrightarrow> no_acquire (reader_accesses ord pc s)"
  by (cases pc) (auto simp: no_acquire_def acquires_def)

lemma reader_keeps_clocks:
  fixes c :: clocks and s :: string_ring and pc :: rpc
  assumes "\<not> acquires ord"
  defines "d \<equiv> accesses_do The_reader (reader_accesses ord pc s) c"
  shows "ck_wrote d = ck_wrote c" and "fst (ck_thread d The_reader) = fst (ck_thread c The_reader)"
    and "ck_thread d The_writer = ck_thread c The_writer"
  using no_acquire_keeps[OF reader_never_acquires[OF assms(1)], of The_reader pc s c]
  by (simp_all add: d_def accesses_do_def tick_def)

section \<open>What the writer has stored\<close>

text \<open>The first byte of each record was stored by the writer.\<close>

fun heads_stored :: "(nat \<Rightarrow> nat) \<Rightarrow> nat \<Rightarrow> nat \<Rightarrow> frame list \<Rightarrow> bool" where
  "heads_stored w n p [] \<longleftrightarrow> True"
| "heads_stored w n p (f # fs) \<longleftrightarrow> 0 < w (p mod n) \<and> heads_stored w n (p + frame_size f) fs"

lemma heads_stored_mono:
  "heads_stored w n p fs \<Longrightarrow> (\<And>j. 0 < w j \<Longrightarrow> 0 < v j) \<Longrightarrow> heads_stored v n p fs"
  by (induction fs arbitrary: p) auto

lemma heads_stored_append:
  "heads_stored w n p (fs @ gs) \<longleftrightarrow> heads_stored w n p fs \<and> heads_stored w n (p + frames_size fs) gs"
  by (induction fs arbitrary: p) (auto simp: add.assoc)

text \<open>The places at which the flag of the record behind \<open>cursor_\<close> is stored.\<close>

definition flag_stored :: "wpc \<Rightarrow> string_ring \<Rightarrow> bool" where
  "flag_stored pc s \<longleftrightarrow> (case pc of
     W_pad _ _ \<Rightarrow> True | W_len _ \<Rightarrow> True | W_copy _ \<Rightarrow> True | W_publish _ \<Rightarrow> True
   | W_done _ \<Rightarrow> rs_writing_cursor s \<noteq> 0 | W_start _ _ \<Rightarrow> rs_writing_cursor s \<noteq> 0
   | W_enter _ \<Rightarrow> rs_writing_cursor s \<noteq> 0 | _ \<Rightarrow> False)"

definition order_inv :: "ring_threads \<Rightarrow> nat \<Rightarrow> frame list \<Rightarrow> clocks \<Rightarrow> bool" where
  "order_inv m b fs c \<longleftrightarrow> rt_inv m b fs
     \<and> fst (ck_thread c The_reader) = 0 \<and> 0 < fst (ck_thread c The_writer)
     \<and> heads_stored (ck_wrote c) (ring_cap (rt_ring m)) b fs
     \<and> (flag_stored (rt_writer m) (rt_ring m) \<longrightarrow>
          0 < ck_wrote c (unat (rs_cursor (rt_ring m)) mod ring_cap (rt_ring m)))
     \<and> (rt_got m \<noteq> [] \<or> (case rt_reader m of R_idle \<Rightarrow> False | R_loaded _ \<Rightarrow> False | _ \<Rightarrow> True)
        \<longrightarrow> ck_race c)"

text \<open>The step of the reader that looks at the flag is the race.\<close>

lemma reader_orders:
  assumes inv: "order_inv m b fs c" and ord: "\<not> acquires ord"
  shows "\<exists>m' b' gs. ring_do ndebug Reader m = Done m' \<and> order_inv m' b' gs (event_accesses ord Reader m c)"
proof -
  let ?s = "rt_ring m" and ?d = "event_accesses ord Reader m c"
  from inv have rt: "rt_inv m b fs" and zero: "fst (ck_thread c The_reader) = 0"
    and one: "0 < fst (ck_thread c The_writer)" and heads: "heads_stored (ck_wrote c) (ring_cap ?s) b fs"
    and race: "rt_got m \<noteq> [] \<or> (case rt_reader m of R_idle \<Rightarrow> False | R_loaded _ \<Rightarrow> False | _ \<Rightarrow> True) \<longrightarrow> ck_race c"
    by (simp_all add: order_inv_def)
  from reader_moves[OF rt, of ndebug] obtain pc t b' gs got x y where
    m: "ring_do ndebug Reader m = Done (m\<lparr>rt_reader := pc, rt_ring := t, rt_got := rt_got m @ got\<rparr>)"
      "rt_inv (m\<lparr>rt_reader := pc, rt_ring := t, rt_got := rt_got m @ got\<rparr>) b' gs"
      "t = ?s\<lparr>rs_reading_cursor := x, rs_reading_begin := y\<rparr>" "r_goes_on (rt_reader m) b fs pc b' gs got" by blast
  have d: "ck_wrote ?d = ck_wrote c" "fst (ck_thread ?d The_reader) = 0" "0 < fst (ck_thread ?d The_writer)"
    using reader_keeps_clocks[OF ord] zero one by simp_all
  have mono: "ck_race c \<Longrightarrow> ck_race ?d" using accesses_keep(1) by simp
  have "heads_stored (ck_wrote c) (ring_cap ?s) b' gs"
    using m(4) heads by (auto simp: r_goes_on_def split: rpc.splits if_splits)
  moreover have "ck_race ?d" if flagged: "pc = R_flagged flg" for flg
  proof -
    obtain cursor where pc: "rt_reader m = R_loaded cursor" "unat cursor \<noteq> b" "fs \<noteq> []"
      using m(4) flagged by (auto simp: r_goes_on_def split: rpc.splits if_splits)
    obtain pc' t' where chk: "read_check cursor ?s = Done (pc', t')"
      and eq: "m\<lparr>rt_reader := pc', rt_ring := t'\<rparr>
        = m\<lparr>rt_reader := R_flagged flg, rt_ring := t, rt_got := rt_got m @ got\<rparr>"
      using m(1) pc(1) flagged by (auto simp: result_bind_eq_Done)
    have "pc' = R_flagged flg" using arg_cong[OF eq, of rt_reader] by simp
    with chk have "\<not> rs_resetting ?s" "rs_reading_begin ?s \<noteq> cursor AND rs_mask ?s"
      by (auto simp: read_check_def split: if_splits)
    moreover have "unat (rs_reading_cursor ?s AND rs_mask ?s) = b mod ring_cap ?s"
      using rt pc(1) by (simp add: rt_inv_def published_def ring_index)
    moreover have "0 < ck_wrote c (b mod ring_cap ?s)" using heads pc(3) by (cases fs) auto
    ultimately show ?thesis using pc(1) zero ord
      by (simp add: accesses_do_def tick_def list_ex_iff acquires_def)
  qed
  then have "rt_got m @ got \<noteq> [] \<or> (case pc of R_idle \<Rightarrow> False | R_loaded _ \<Rightarrow> False | _ \<Rightarrow> True) \<longrightarrow> ck_race ?d"
    using m(4) race mono by (auto simp: r_goes_on_def split: rpc.splits if_splits)
  ultimately show ?thesis using inv m d
    by (intro exI[of _ "m\<lparr>rt_reader := pc, rt_ring := t, rt_got := rt_got m @ got\<rparr>"] exI[of _ b'] exI[of _ gs])
      (simp add: order_inv_def flag_stored_def split: wpc.splits)
qed

lemma writer_step_size:
  "writer_step ndebug pc s = Done (pc', t) \<Longrightarrow> rs_size t = rs_size s"
  by (cases pc) (auto simp: w_enter_def w_copy_def w_notify_def ring_put_def check_assert_def result_bind_eq_Done
      Let_def split: prod.splits if_splits option.splits)

text \<open>A flag that is stored was stored before, or is stored in this step.\<close>

lemma flag_stored_step:
  assumes "writer_step ndebug pc s = Done (pc', t)" "w_goes_on pc s new pc' t" "flag_stored pc' t"
  shows "flag_stored pc s \<or> (\<exists>c k. pc = W_skip c k) \<or> (\<exists>c. pc = W_flag c)"
  using assms
  by (cases pc) (auto simp: flag_stored_def w_goes_on_def w_enter_def w_wait_def check_assert_def result_bind_eq_Done Let_def
      split: prod.splits if_splits)

lemma flag_published:
  assumes "writer_step ndebug pc s = Done (pc', t)" "w_inv pc s b fs op" "(\<exists>c k. pc = W_pad c k) \<or> (\<exists>c. pc = W_publish c)"
  shows "flag_stored pc s \<and> \<not> flag_stored pc' t"
  using assms
  by (auto simp: flag_stored_def w_padding_def ring_partial_def ring_reserved_def w_notify_def w_wait_def Let_def
      split: prod.splits)

lemma flag_stores:
  assumes w: "w_inv pc s b fs op" and wf: "ring_wf s" and pc: "(\<exists>c k. pc = W_skip c k) \<or> (\<exists>c. pc = W_flag c)"
    and "0 < fst (ck_thread c The_writer)"
  shows "0 < ck_wrote (accesses_do The_writer (writer_accesses pc s) c) (unat (rs_cursor s) mod ring_cap s)"
proof -
  have "unat (rs_writing_cursor s) = unat (rs_cursor s)"
    using w pc by (auto simp: w_padding_def w_laid_def Let_def split: prod.splits)
  then have "at_cursor s = unat (rs_cursor s) mod ring_cap s" using wf by (simp add: at_cursor_def ring_index)
  moreover have "writer_accesses pc s = [Write_at (at_cursor s) 1]"
    using w pc by (auto simp: w_laid_def Let_def)
  ultimately show ?thesis using assms(4) by (simp add: accesses_do_def tick_def stamp_def)
qed

lemma writer_orders:
  assumes inv: "order_inv m b fs c"
  shows "\<exists>m' gs. ring_do ndebug Writer m = Done m' \<and> order_inv m' b gs (event_accesses ord Writer m c)"
proof (cases "\<exists>r. rt_writer m = W_done r")
  case True
  then have "ring_do ndebug Writer m = Done m" by (auto simp: note_written_def)
  moreover have "order_inv m b fs (event_accesses ord Writer m c)"
    using inv True by (auto simp: order_inv_def accesses_do_def tick_def)
  ultimately show ?thesis by blast
next
  case False
  let ?s = "rt_ring m" and ?pc = "rt_writer m" and ?N = "ring_cap (rt_ring m)"
  let ?d = "event_accesses ord Writer m c"
  from inv have rt: "rt_inv m b fs" and zero: "fst (ck_thread c The_reader) = 0"
    and one: "0 < fst (ck_thread c The_writer)" and heads: "heads_stored (ck_wrote c) ?N b fs"
    and flag: "flag_stored ?pc ?s \<Longrightarrow> 0 < ck_wrote c (unat (rs_cursor ?s) mod ?N)"
    by (simp_all add: order_inv_def)
  have w: "w_inv ?pc ?s b fs (rt_open m)" and wf: "ring_wf ?s" and cur: "unat (rs_cursor ?s) = b + frames_size fs"
    using rt by (simp_all add: rt_inv_def published_def)
  obtain m' new pc t where m: "ring_do ndebug Writer m = Done m'" "rt_inv m' b (fs @ new)"
    "w_goes_on ?pc ?s new pc t" "m' = note_written ?pc pc (m\<lparr>rt_writer := pc, rt_ring := t\<rparr>)"
    using writer_moves[OF rt, of ndebug] False by blast
  have st: "writer_step ndebug ?pc ?s = Done (pc, t)"
  proof -
    obtain q u where "writer_step ndebug ?pc ?s = Done (q, u)"
      and eq: "note_written ?pc q (m\<lparr>rt_writer := q, rt_ring := u\<rparr>) = m'"
      using m(1) by (auto simp: result_bind_eq_Done)
    moreover have "q = pc" "u = t" using arg_cong[OF eq, of rt_writer] arg_cong[OF eq, of rt_ring] m(4) by simp_all
    ultimately show ?thesis by simp
  qed
  have N: "ring_cap t = ?N" using writer_step_size[OF st] by simp
  have cur': "unat (rs_cursor t) = b + frames_size (fs @ new)" using m(2,4) by (simp add: rt_inv_def published_def)
  have mono: "0 < ck_wrote ?d j" if "0 < ck_wrote c j" for j using accesses_keep(4)[OF one that] by simp
  have d: "fst (ck_thread ?d The_reader) = 0" "0 < fst (ck_thread ?d The_writer)" "ck_race c \<Longrightarrow> ck_race ?d"
    using accesses_keep(2)[of The_reader The_writer] accesses_keep(3)[OF one] accesses_keep(1)[of c] zero by simp_all
  have new: "new = [] \<or> (\<exists>f. new = [f]) \<and> flag_stored ?pc ?s \<and> \<not> flag_stored pc t"
    using m(3) flag_published[OF st w] by (auto simp: w_goes_on_def)
  have "heads_stored (ck_wrote ?d) ?N b fs" using heads_stored_mono[OF heads] mono by blast
  then have "heads_stored (ck_wrote ?d) ?N b (fs @ new)"
    using new flag mono by (auto simp: heads_stored_append cur)
  moreover have "0 < ck_wrote ?d (unat (rs_cursor t) mod ?N)" if fl: "flag_stored pc t"
  proof -
    have "unat (rs_cursor t) = unat (rs_cursor ?s)" using new fl cur cur' by auto
    then show ?thesis
      using flag_stored_step[OF st m(3) fl] flag mono flag_stores[OF w wf _ one] by auto
  qed
  ultimately show ?thesis using inv m d N
    by (intro exI[of _ m'] exI[of _ "fs @ new"]) (auto simp: order_inv_def)
qed

lemma start_orders:
  assumes inv: "order_inv m b fs c" and ok: "event_ok (Start_write msg remaining) m"
  shows "\<exists>m'. ring_do ndebug (Start_write msg remaining) m = Done m'
     \<and> order_inv m' b fs (event_accesses ord (Start_write msg remaining) m c)"
proof -
  let ?d = "event_accesses ord (Start_write msg remaining) m c"
  have d: "order_inv m b fs ?d" using inv by (simp add: order_inv_def accesses_do_def tick_def acquires_def)
  show ?thesis
  proof (cases "rt_writer m")
    case (W_done r)
    have rt: "rt_inv m b fs" using inv by (simp add: order_inv_def)
    show ?thesis using start_call(1)[OF rt ok W_done, of ndebug] start_call(2)[OF rt ok W_done] d W_done
      by (intro exI[of _ "m\<lparr>rt_writer := W_start msg remaining\<rparr>"]) (simp add: order_inv_def flag_stored_def)
  qed (use d in auto)
qed

lemma order_schedule:
  "order_inv m b fs c \<Longrightarrow> \<not> acquires ord \<Longrightarrow> schedule_ok ndebug es m \<Longrightarrow>
   \<exists>m' c' b' gs. ordered_schedule ord ndebug es m c = Done (m', c') \<and> order_inv m' b' gs c'"
proof (induction es arbitrary: m b fs c)
  case Nil
  then show ?case by auto
next
  case (Cons e es)
  have "\<exists>n b' gs. ring_do ndebug e m = Done n \<and> order_inv n b' gs (event_accesses ord e m c)"
  proof (cases e)
    case (Start_write msg remaining)
    then show ?thesis using start_orders[OF Cons.prems(1), of msg remaining ndebug ord] Cons.prems(3) by auto
  next
    case Writer
    then show ?thesis using writer_orders[OF Cons.prems(1), of ndebug ord] by blast
  next
    case Reader
    then show ?thesis using reader_orders[OF Cons.prems(1,2), of ndebug] by blast
  qed (use Cons.prems(3) in simp)
  then obtain n b' gs where n: "ring_do ndebug e m = Done n" "order_inv n b' gs (event_accesses ord e m c)" by blast
  then show ?case using Cons.IH[OF n(2) Cons.prems(2)] Cons.prems(3) by simp
qed

section \<open>Properties\<close>



text \<open>
  The accesses by which a record gets from one thread to the other: its first byte is stored, \<open>cursor_\<close> is
  advanced and loaded, the byte is read. It is the order of the load that makes the race.
\<close>

lemma load_order_decides:
  "ck_race (accesses_do The_reader [Read_at i 1] (accesses_do The_reader [Load Cursor ord]
      (accesses_do The_writer [Load Cursor Relaxed, Update Cursor Seq_cst]
        (accesses_do The_writer [Write_at i 1] clocks_start)))) \<longleftrightarrow> \<not> acquires ord"
  by (cases ord) (simp_all add: accesses_do_def tick_def clocks_start_def acquires_def releases_def ck_acquire_def
      vjoin_def stamp_def)

end
