(* ===== verification/Writeable_Requests.thy ===== *)
theory Writeable_Requests
  imports Websocket_Session Socket_Callback
begin

text \<open>
  A writeable callback is made once for each time it was asked for (\<open>lws_callback_on_writable\<close>).
  \<open>send\<close> asks for one, and the callback asks for the next one only behind a message it has written
  (src/websocket_client.cpp, src/socket_client.cpp). While no message needs padding at the end of
  the ring this writes everything; a message behind padding stays in the ring.
\<close>

section \<open>Callbacks that were asked for\<close>

definition asks_write :: "effect list \<Rightarrow> bool" where
  "asks_write effs \<longleftrightarrow> list_ex (\<lambda>e. case e of Want_write _ \<Rightarrow> True | _ \<Rightarrow> False) effs"

lemma asks_write_simps [simp]:
  "\<not> asks_write []" "asks_write (Want_write w # effs)" "asks_write (Written bs # effs) = asks_write effs"
  "asks_write (Cancel_service # effs) = asks_write effs"
  by (simp_all add: asks_write_def)

text \<open>
  The moves of a channel, where \<open>Writeable lws\<close> is an opportunity of libwebsockets to make the callback:
  it is made when there is a request for it, \<open>want\<close>, and the request is used up.
\<close>

fun requested_run ::
  "(byte list \<Rightarrow> 'r \<Rightarrow> (bool \<times> effect list \<times> 'r) result) \<Rightarrow>
   (lws_api \<Rightarrow> 'r \<Rightarrow> (int \<times> effect list \<times> 'r) result) \<Rightarrow>
   move list \<Rightarrow> bool \<Rightarrow> 'r \<Rightarrow> (effect list \<times> bool \<times> 'r) result"
where
  "requested_run send pump [] want r = Done ([], want, r)"
| "requested_run send pump (Send msg # ms) want r =
     result_bind (send msg r) (\<lambda>(_, effs, r).
       result_bind (requested_run send pump ms (want \<or> asks_write effs) r)
         (\<lambda>(effs', want, r). Done (effs @ effs', want, r)))"
| "requested_run send pump (Writeable lws # ms) want r =
     (if \<not> want then requested_run send pump ms want r
      else result_bind (pump lws r) (\<lambda>(_, effs, r).
        result_bind (requested_run send pump ms (asks_write effs) r)
          (\<lambda>(effs', want, r). Done (effs @ effs', want, r))))"

fun requested_legal ::
  "('r \<Rightarrow> byte list \<Rightarrow> bool) \<Rightarrow> (byte list \<Rightarrow> 'r \<Rightarrow> (bool \<times> effect list \<times> 'r) result) \<Rightarrow>
   (lws_api \<Rightarrow> 'r \<Rightarrow> (int \<times> effect list \<times> 'r) result) \<Rightarrow> move list \<Rightarrow> bool \<Rightarrow> 'r \<Rightarrow> bool"
where
  "requested_legal fits send pump [] want r \<longleftrightarrow> True"
| "requested_legal fits send pump (Send msg # ms) want r \<longleftrightarrow> msg \<noteq> [] \<and> fits r msg \<and>
     (case send msg r of Done (_, effs, t) \<Rightarrow> requested_legal fits send pump ms (want \<or> asks_write effs) t
      | _ \<Rightarrow> True)"
| "requested_legal fits send pump (Writeable lws # ms) want r \<longleftrightarrow>
     (if \<not> want then requested_legal fits send pump ms want r
      else case pump lws r of Done (_, effs, t) \<Rightarrow> requested_legal fits send pump ms (asks_write effs) t
        | _ \<Rightarrow> True)"

lemma requested_run_append:
  "requested_run send pump (a @ b) want r = result_bind (requested_run send pump a want r)
     (\<lambda>(effs, want, t). result_bind (requested_run send pump b want t)
        (\<lambda>(effs', want, u). Done (effs @ effs', want, u)))"
proof (induction send pump a want r rule: requested_run.induct)
  case (1 send pump want r)
  then show ?case by (cases "requested_run send pump b want r") auto
qed (auto simp: result_bind_assoc split_beta intro!: result_bind_cong)

lemma requested_run_quiet:
  "requested_run send pump (replicate n (Writeable lws)) False r = Done ([], False, r)"
  by (induction n) simp_all

section \<open>The contract\<close>

text \<open>
  \<open>live r fs\<close>: the ring of \<open>r\<close> holds the records \<open>fs\<close>; \<open>need r msg\<close>: the padding that \<open>msg\<close> needs;
  \<open>record_of msg\<close>: the record it becomes, from which the callback takes \<open>text_of\<close>.
\<close>

locale requested_channel =
  fixes live :: "'r \<Rightarrow> frame list \<Rightarrow> bool"
    and need :: "'r \<Rightarrow> byte list \<Rightarrow> nat"
    and record_of :: "byte list \<Rightarrow> byte list"
    and text_of :: "byte list \<Rightarrow> byte list"
    and fits :: "'r \<Rightarrow> byte list \<Rightarrow> bool"
    and send :: "byte list \<Rightarrow> 'r \<Rightarrow> (bool \<times> effect list \<times> 'r) result"
    and pump :: "lws_api \<Rightarrow> 'r \<Rightarrow> (int \<times> effect list \<times> 'r) result"
  assumes text_record: "live r fs \<Longrightarrow> text_of (record_of msg) = msg"
    and send_law: "live r fs \<Longrightarrow> msg \<noteq> [] \<Longrightarrow> fits r msg \<Longrightarrow>
      \<exists>effs t. send msg r = Done (True, effs, t) \<and> written effs = [] \<and> asks_write effs
        \<and> live t (fs @ pad_frames (need r msg) @ [Msg (record_of msg)])"
    and message_law: "live r (Msg bs # fs) \<Longrightarrow>
      \<exists>ret effs t. pump lws r = Done (ret, effs, t) \<and> written effs = [text_of bs] \<and> asks_write effs \<and> live t fs"
    and padding_law: "live r (Pad k # fs) \<Longrightarrow> \<exists>ret t. pump lws r = Done (ret, [], t) \<and> live t fs"
    and empty_law: "live r [] \<Longrightarrow> \<exists>ret t. pump lws r = Done (ret, [], t) \<and> live t []"
begin

definition texts :: "frame list \<Rightarrow> byte list list" where
  "texts fs = map text_of (messages fs)"

lemma texts_simps [simp]:
  "texts [] = []" "texts (Msg bs # fs) = text_of bs # texts fs" "texts (fs @ gs) = texts fs @ texts gs"
  by (simp_all add: texts_def messages_def List.map_filter_def)

text \<open>Without padding there is always a request while the ring is not empty.\<close>

lemma unpadded_run:
  assumes "live r fs" "only_messages fs" "fs \<noteq> [] \<Longrightarrow> want"
    and "requested_legal (\<lambda>r msg. fits r msg \<and> need r msg = 0) send pump ms want r"
  shows "\<exists>effs want' t gs. requested_run send pump ms want r = Done (effs, want', t) \<and> live t gs
    \<and> only_messages gs \<and> (gs \<noteq> [] \<longrightarrow> want') \<and> texts fs @ sends ms = written effs @ texts gs"
  using assms
proof (induction ms arbitrary: want r fs)
  case Nil
  then show ?case by auto
next
  case (Cons m ms)
  let ?unpadded = "\<lambda>r msg. fits r msg \<and> need r msg = 0"
  show ?case
  proof (cases m)
    case (Send msg)
    then have "msg \<noteq> []" "fits r msg" "need r msg = 0" using Cons.prems(4) by auto
    with send_law[OF Cons.prems(1), of msg] obtain effs1 t where
      t: "send msg r = Done (True, effs1, t)" "written effs1 = []" "asks_write effs1"
      "live t (fs @ [Msg (record_of msg)])" by (auto simp: pad_frames_def)
    then have "requested_legal ?unpadded send pump ms (want \<or> asks_write effs1) t"
      using Cons.prems(4) Send by simp
    from Cons.IH[OF t(4) _ _ this] obtain effs want' u gs where
      "requested_run send pump ms (want \<or> asks_write effs1) t = Done (effs, want', u)" "live u gs" "only_messages gs"
      "gs \<noteq> [] \<longrightarrow> want'" "texts (fs @ [Msg (record_of msg)]) @ sends ms = written effs @ texts gs"
      using Cons.prems(2) t(3) by auto
    then show ?thesis using t Send text_record[OF Cons.prems(1)]
      by (intro exI[of _ "effs1 @ effs"] exI[of _ want'] exI[of _ u] exI[of _ gs]) simp
  next
    case (Writeable lws)
    have "\<exists>effs1 want1 t hs. requested_run send pump [m] want r = Done (effs1, want1, t) \<and> live t hs
      \<and> only_messages hs \<and> (hs \<noteq> [] \<longrightarrow> want1) \<and> texts fs = written effs1 @ texts hs"
    proof (cases fs)
      case Nil
      with Cons.prems(1) obtain ret t where "pump lws r = Done (ret, [], t)" "live t []"
        using empty_law[of r lws] by auto
      then show ?thesis using Nil Writeable Cons.prems(1)
        by (intro exI[of _ "[]"] exI[of _ False] exI[of _ "if want then t else r"] exI[of _ "[]"]) simp
    next
      case (Cons f hs)
      then obtain bs where "f = Msg bs" "only_messages hs" want using Cons.prems(2,3) by auto
      then show ?thesis using Writeable Cons Cons.prems(1) message_law[of r bs hs lws] by fastforce
    qed
    then obtain effs1 want1 t hs where t: "requested_run send pump [m] want r = Done (effs1, want1, t)"
      "live t hs" "only_messages hs" "hs \<noteq> [] \<longrightarrow> want1" "texts fs = written effs1 @ texts hs" by blast
    have "requested_legal ?unpadded send pump ms want1 t"
      using Cons.prems(4) Writeable t(1) by (auto simp: result_bind_eq_Done split: if_splits)
    from Cons.IH[OF t(2,3) _ this] obtain effs want' u gs where
      "requested_run send pump ms want1 t = Done (effs, want', u)" "live u gs" "only_messages gs"
      "gs \<noteq> [] \<longrightarrow> want'" "texts hs @ sends ms = written effs @ texts gs"
      using t(4) by blast
    then show ?thesis using t(1,5) Writeable requested_run_append[of send pump "[m]" ms want r]
      by (intro exI[of _ "effs1 @ effs"] exI[of _ want'] exI[of _ u] exI[of _ gs]) simp
  qed
qed

text \<open>One callback for each message, and a last one that finds the ring empty.\<close>

lemma requested_drains:
  assumes "live r fs" "only_messages fs" "fs \<noteq> [] \<Longrightarrow> want" "length fs < n"
  shows "\<exists>effs t. requested_run send pump (replicate n (Writeable lws)) want r = Done (effs, False, t)
    \<and> live t [] \<and> written effs = texts fs"
  using assms
proof (induction n arbitrary: want r fs)
  case (Suc n)
  show ?case
  proof (cases fs)
    case Nil
    then show ?thesis using Suc.prems(1) empty_law[of r lws]
      by (cases want) (auto simp: requested_run_quiet)
  next
    case (Cons f gs)
    then obtain bs where f: "f = Msg bs" "only_messages gs" want using Suc.prems(2,3) by auto
    then obtain ret effs1 t where t: "pump lws r = Done (ret, effs1, t)" "written effs1 = [text_of bs]"
      "asks_write effs1" "live t gs" using message_law Suc.prems(1) Cons by blast
    moreover obtain effs u where "requested_run send pump (replicate n (Writeable lws)) True t = Done (effs, False, u)"
      "live u []" "written effs = texts gs"
      using Suc.IH[OF t(4) f(2), of True] Suc.prems(4) Cons by auto
    ultimately show ?thesis using f Cons
      by (intro exI[of _ "effs1 @ effs"] exI[of _ u]) simp
  qed
qed simp

lemma unpadded_delivers:
  assumes "live r fs" "only_messages fs" "fs \<noteq> [] \<Longrightarrow> want"
    and "requested_legal (\<lambda>r msg. fits r msg \<and> need r msg = 0) send pump ms want r"
  shows "\<exists>n0. \<forall>n \<ge> n0. \<exists>effs t.
     requested_run send pump (ms @ replicate n (Writeable lws)) want r = Done (effs, False, t)
     \<and> live t [] \<and> written effs = texts fs @ sends ms"
proof -
  obtain effs want' t gs where s: "requested_run send pump ms want r = Done (effs, want', t)" "live t gs"
    "only_messages gs" "gs \<noteq> [] \<longrightarrow> want'" "texts fs @ sends ms = written effs @ texts gs"
    using unpadded_run[OF assms] by blast
  have "\<exists>effs t. requested_run send pump (ms @ replicate n (Writeable lws)) want r = Done (effs, False, t)
     \<and> live t [] \<and> written effs = texts fs @ sends ms" if "length gs < n" for n
    using requested_drains[OF s(2,3) _ that, of want' lws] s(1,4,5) by (auto simp: requested_run_append)
  then show ?thesis by (meson Suc_le_lessD)
qed

text \<open>A message behind padding: the callback takes the padding, and nobody asks for another one.\<close>

lemma padded_stalls:
  assumes "live r []" "msg \<noteq> []" "fits r msg" "0 < need r msg"
  shows "\<exists>effs t. requested_run send pump (Send msg # replicate (Suc n) (Writeable lws)) want r
      = Done (effs, False, t) \<and> written effs = [] \<and> live t [Msg (record_of msg)]"
proof -
  obtain effs t where t: "send msg r = Done (True, effs, t)" "written effs = []" "asks_write effs"
    "live t [Pad (need r msg), Msg (record_of msg)]"
    using send_law[OF assms(1-3)] assms(4) by (auto simp: pad_frames_def)
  obtain ret u where "pump lws t = Done (ret, [], u)" "live u [Msg (record_of msg)]"
    using padding_law[OF t(4)] by blast
  then show ?thesis using t by (intro exI[of _ effs] exI[of _ u]) (simp add: requested_run_quiet)
qed

text \<open>It waits for the next message.\<close>

lemma next_resumes:
  assumes "live r fs" "only_messages fs" "msg \<noteq> []" "fits r msg" "need r msg = 0" "length fs + 1 < n"
  shows "\<exists>effs t. requested_run send pump (Send msg # replicate n (Writeable lws)) want r
      = Done (effs, False, t) \<and> live t [] \<and> written effs = texts fs @ [msg]"
proof -
  obtain effs t where t: "send msg r = Done (True, effs, t)" "written effs = []" "asks_write effs"
    "live t (fs @ [Msg (record_of msg)])"
    using send_law[OF assms(1,3,4)] assms(5) by (auto simp: pad_frames_def)
  from requested_drains[OF t(4), of True n lws] obtain effs' u where
    "requested_run send pump (replicate n (Writeable lws)) True t = Done (effs', False, u)"
    "live u []" "written effs' = texts fs @ [msg]"
    using assms(2,6) text_record[OF assms(1)] by auto
  then show ?thesis using t by (intro exI[of _ "effs @ effs'"] exI[of _ u]) simp
qed

end

section \<open>The two clients\<close>

lemma ws_send_frames:
  assumes live: "ws_live pre wsi r fs" and "0 < pre" and "msg \<noteq> []" and fits: "ws_fits pre r msg"
  shows "\<exists>t. ws_send ndebug pre msg r = Done (True, [Want_write wsi, Cancel_service], t)
    \<and> ws_live pre wsi t (fs @ pad_frames (padding (req_ring r) (pre + length msg)) @ [Msg (ws_header pre @ msg)])"
proof -
  have room: "room (req_ring r) (pre + length msg)" using fits by (simp add: ws_fits_def)
  then have "length msg < 2 ^ 64" by (simp add: room_def)
  with ring_two_parts_frames[of "req_ring r" fs "ws_header pre" msg ndebug] assms room obtain s u where
    "ring_write ndebug (ws_header pre) (word_of_nat (length msg)) (req_ring r) = Done (True, s)"
    "ring_write ndebug msg 0 s = Done (True, u)"
    "fifo_inv u (fs @ pad_frames (padding (req_ring r) (pre + length msg)) @ [Msg (ws_header pre @ msg)]) None"
    by (auto simp: ws_live_def)
  then show ?thesis using assms
    by (intro exI[of _ "set_ring u r"]) (auto simp: ws_send_def ws_live_def Let_def)
qed

lemma ws_writeable_front:
  assumes live: "ws_live pre wsi r (f # fs)"
  shows "\<exists>t. ws_pump pre wsi lws r = Done (la_dummy lws, case f of
       Msg bs \<Rightarrow> [Written (drop pre bs), Want_write wsi] | _ \<Rightarrow> [], t) \<and> ws_live pre wsi t fs"
proof -
  obtain s where s: "ring_read (req_ring r) = Done (frame_content f, s)" "fifo_inv s fs None"
    using ring.read_law[of "req_ring r" f fs None] live by (auto simp: ws_live_def)
  moreover have "pre < length bs" if "f = Msg bs" for bs using live that by (simp add: ws_live_def)
  moreover have "ws_live pre wsi (set_ring s r) fs" using live s(2) by (cases f) (simp_all add: ws_live_def)
  ultimately show ?thesis using live
    by (intro exI[of _ "set_ring s r"], cases f)
      (auto simp: ws_callback_def ws_writeable_def ws_live_def Let_def)
qed

lemma ws_writeable_empty:
  assumes "ws_live pre wsi r []"
  shows "\<exists>t. ws_pump pre wsi lws r = Done (la_dummy lws, [], t) \<and> ws_live pre wsi t []"
  using assms ring.read_empty_law[of "req_ring r" None]
  by (intro exI[of _ "set_ring (req_ring r) r"]) (simp add: ws_callback_def ws_writeable_def ws_live_def)

interpretation ws_requests: requested_channel "\<lambda>r fs. 0 < pre \<and> ws_live pre wsi r fs"
  "\<lambda>r msg. padding (req_ring r) (pre + length msg)" "\<lambda>msg. ws_header pre @ msg" "drop pre"
  "ws_fits pre" "ws_send ndebug pre" "ws_pump pre wsi"
  for pre wsi ndebug
proof (unfold_locales, goal_cases)
  case (2 r fs msg)
  then show ?case using ws_send_frames[of pre wsi r fs msg ndebug] by fastforce
next
  case (3 r bs fs lws)
  then show ?case using ws_writeable_front[of pre wsi r "Msg bs" fs lws] by fastforce
next
  case (4 r k fs lws)
  then show ?case using ws_writeable_front[of pre wsi r "Pad k" fs lws] by fastforce
next
  case (5 r lws)
  then show ?case using ws_writeable_empty by blast
qed simp

lemma socket_send_frames:
  assumes "raw_live wsi r fs" and "msg \<noteq> []" and "raw_fits r msg"
  shows "\<exists>t. socket_send ndebug msg r = Done (True, [Want_write wsi, Cancel_service], t)
    \<and> raw_live wsi t (fs @ pad_frames (padding (req_ring r) (length msg)) @ [Msg msg])"
proof -
  from assms obtain s where "ring_write ndebug msg 0 (req_ring r) = Done (True, s)"
    "fifo_inv s (fs @ pad_frames (padding (req_ring r) (length msg)) @ [Msg msg]) None"
    using ring_one_part_frames[of "req_ring r" fs msg ndebug] by (auto simp: raw_live_def raw_fits_def)
  then show ?thesis using assms
    by (intro exI[of _ "set_ring s r"]) (auto simp: socket_send_def raw_live_def Let_def)
qed

lemma raw_writeable_front:
  assumes live: "raw_live wsi r (f # fs)"
  shows "\<exists>t. raw_pump wsi lws r = Done (la_dummy lws, case f of
       Msg bs \<Rightarrow> [Written bs, Want_write wsi] | _ \<Rightarrow> [], t) \<and> raw_live wsi t fs"
proof -
  obtain s where s: "ring_read (req_ring r) = Done (frame_content f, s)" "fifo_inv s fs None"
    using ring.read_law[of "req_ring r" f fs None] live by (auto simp: raw_live_def)
  moreover have "bs \<noteq> []" if "f = Msg bs" for bs using live that by (auto simp: raw_live_def)
  moreover have "raw_live wsi (set_ring s r) fs" using live s(2) by (cases f) (simp_all add: raw_live_def)
  ultimately show ?thesis using live
    by (intro exI[of _ "set_ring s r"], cases f)
      (auto simp: raw_socket_callback_def raw_writeable_def raw_live_def Let_def)
qed

lemma raw_writeable_empty:
  assumes "raw_live wsi r []"
  shows "\<exists>t. raw_pump wsi lws r = Done (la_dummy lws, [], t) \<and> raw_live wsi t []"
  using assms ring.read_empty_law[of "req_ring r" None]
  by (intro exI[of _ "set_ring (req_ring r) r"]) (simp add: raw_socket_callback_def raw_writeable_def raw_live_def)

interpretation raw_requests: requested_channel "raw_live wsi" "\<lambda>r msg. padding (req_ring r) (length msg)"
  "\<lambda>msg. msg" "\<lambda>bs. bs" raw_fits "socket_send ndebug" "raw_pump wsi"
  for wsi ndebug
proof (unfold_locales, goal_cases)
  case (2 r fs msg)
  then show ?case using socket_send_frames[of wsi r fs msg ndebug] by fastforce
next
  case (3 r bs fs lws)
  then show ?case using raw_writeable_front[of wsi r "Msg bs" fs lws] by fastforce
next
  case (4 r k fs lws)
  then show ?case using raw_writeable_front[of wsi r "Pad k" fs lws] by fastforce
next
  case (5 r lws)
  then show ?case using raw_writeable_empty by blast
qed simp

section \<open>Properties\<close>

text \<open>
  The callbacks that are asked for write everything, whole, once and in order, and then no request is
  open, as long as no message needs padding at the end of the ring.
\<close>

theorem ws_requested_delivers:
  assumes "ws_live pre wsi r []" and "0 < pre"
    and "requested_legal (\<lambda>r msg. ws_fits pre r msg \<and> padding (req_ring r) (pre + length msg) = 0)
      (ws_send ndebug pre) (ws_pump pre wsi) ms want r"
  shows "\<exists>n0. \<forall>n \<ge> n0. \<exists>effs t.
     requested_run (ws_send ndebug pre) (ws_pump pre wsi) (ms @ replicate n (Writeable lws)) want r
       = Done (effs, False, t) \<and> written effs = sends ms"
  using ws_requests.unpadded_delivers[of pre wsi r "[]" want ndebug ms lws] assms by fastforce

theorem ws_requested_delivers_witness:
  "\<exists>n0. \<forall>n \<ge> n0. \<exists>effs t.
     requested_run (ws_send False 16) (ws_pump 16 3)
       ([Send [1, 2], Writeable lws_ok, Send [3]] @ replicate n (Writeable lws_ok)) False ws_request
       = Done (effs, False, t) \<and> written effs = sends [Send [1, 2], Writeable lws_ok, Send [3]]"
proof (rule ws_requested_delivers[OF ws_request_live])
  show "requested_legal (\<lambda>r msg. ws_fits 16 r msg \<and> padding (req_ring r) (16 + length msg) = 0)
     (ws_send False 16) (ws_pump 16 3) [Send [1, 2], Writeable lws_ok, Send [3]] False ws_request"
    by code_simp
qed simp

text \<open>
  C40: a message that needs padding is accepted by \<open>send\<close>, which asks for a writeable callback; that
  callback only takes the padding and asks for no other, so that the message stays in the ring however
  often the connection could be written to.
\<close>

theorem ws_padded_message_stalls:
  assumes "ws_live pre wsi r []" and "0 < pre" and "msg \<noteq> []" and "ws_fits pre r msg"
    and "0 < padding (req_ring r) (pre + length msg)"
  shows "\<exists>effs t. requested_run (ws_send ndebug pre) (ws_pump pre wsi)
       (Send msg # replicate (Suc n) (Writeable lws)) want r = Done (effs, False, t)
     \<and> written effs = [] \<and> ws_live pre wsi t [Msg (ws_header pre @ msg)]"
  using ws_requests.padded_stalls[of pre wsi r msg ndebug n lws want] assms by simp

text \<open>It is written when the next message is sent.\<close>

theorem ws_stalled_message_resumes:
  assumes "ws_live pre wsi r [Msg (ws_header pre @ old)]" and "0 < pre" and "msg \<noteq> []"
    and "ws_fits pre r msg" and "padding (req_ring r) (pre + length msg) = 0"
  shows "\<exists>effs t. requested_run (ws_send ndebug pre) (ws_pump pre wsi)
       (Send msg # replicate 3 (Writeable lws)) False r = Done (effs, False, t) \<and> written effs = [old, msg]"
  using ws_requests.next_resumes[of pre wsi r "[Msg (ws_header pre @ old)]" msg 3 ndebug lws False] assms
  by auto

text \<open>The ring of a connection that has sent and written 40 of its 64 bytes.\<close>

definition ws_request_late :: request_info where
  "ws_request_late = set_ring ((string_ring_new (replicate 64 0) 64)\<lparr>rs_cursor := 40, rs_reserved := 40,
     rs_writing_begin := 40, rs_reading_cursor := 40, rs_reading_begin := 40\<rparr>) ws_request"

lemma ws_request_late_live: "ws_live 16 3 ws_request_late []"
  using ws_request_live[of 16]
  by (simp add: ws_live_def ws_request_late_def fifo_inv_def ring_frames_def ring_wf_def string_ring_new_def
      is_pow2_def)

theorem ws_padded_message_stalls_witness:
  "\<exists>effs t. requested_run (ws_send False 16) (ws_pump 16 3)
       (Send [1, 2, 3, 4, 5, 6, 7, 8, 9] # replicate (Suc 100) (Writeable lws_ok)) False ws_request_late
       = Done (effs, False, t)
     \<and> written effs = [] \<and> ws_live 16 3 t [Msg (ws_header 16 @ [1, 2, 3, 4, 5, 6, 7, 8, 9])]"
proof (rule ws_padded_message_stalls[OF ws_request_late_live])
  show "ws_fits 16 ws_request_late [1, 2, 3, 4, 5, 6, 7, 8, 9]" by code_simp
  show "0 < padding (req_ring ws_request_late) (16 + length [1 :: byte, 2, 3, 4, 5, 6, 7, 8, 9])" by code_simp
qed simp_all

end
