(* ===== verification/Connection_Threads.thy ===== *)
theory Connection_Threads
  imports Ring_Threads_Fifo Writeable_Requests
begin

text \<open>
  A connection in use by its two threads, step by step: a thread of the user inside \<open>send\<close>
  (\<open>websocket_client::send\<close> with its two calls of \<open>write\<close>, \<open>socket_client::send\<close> with one), and the
  thread of the service inside the writeable case of \<open>ws_callback\<close> or \<open>raw_socket_callback\<close>. Each step
  is one step of the ring, one call of libwebsockets or one call of the service. No call on the ring is
  taken as atomic here, and a writeable callback is only made when it was asked for.
\<close>

section \<open>The calls of \<open>write\<close> in one \<open>send\<close>\<close>

definition ws_parts :: "nat \<Rightarrow> byte list \<Rightarrow> (byte list \<times> u64) list" where
  "ws_parts pre msg = [(ws_header pre, word_of_nat (length msg)), (msg, 0)]"

definition socket_parts :: "byte list \<Rightarrow> (byte list \<times> u64) list" where
  "socket_parts msg = [(msg, 0)]"

definition joined_parts :: "(byte list \<times> u64) list \<Rightarrow> byte list" where
  "joined_parts ps = concat (map fst ps)"

lemma joined_parts_simps [simp]:
  "joined_parts [] = []" "joined_parts ((p, k) # ps) = p @ joined_parts ps"
  "joined_parts (ps @ qs) = joined_parts ps @ joined_parts qs"
  by (simp_all add: joined_parts_def)

text \<open>No part is empty, and each announces the length of those behind it.\<close>

fun parts_fit :: "(byte list \<times> u64) list \<Rightarrow> bool" where
  "parts_fit [] \<longleftrightarrow> True"
| "parts_fit ((p, remaining) # ps) \<longleftrightarrow>
     p \<noteq> [] \<and> unat remaining = length (joined_parts ps) \<and> parts_fit ps"

lemma parts_fit_append: "parts_fit (ps @ qs) \<Longrightarrow> parts_fit qs"
  by (induction ps) auto

lemma parts_fit_joined: "parts_fit (ps @ qs) \<Longrightarrow> ps \<noteq> [] \<Longrightarrow> joined_parts ps \<noteq> []"
  by (cases ps) auto

section \<open>The two threads\<close>

text \<open>
  The user's thread: outside of \<open>send\<close>; in a call of \<open>write\<close>, with the calls that follow; before
  \<open>lws_callback_on_writable\<close>; before \<open>wakeup\<close>. The service's thread: outside of the callback; in \<open>read\<close> or
  \<open>lws_write\<close> (which reads through the pointer); before \<open>lws_callback_on_writable\<close>.
\<close>

datatype user_pc = U_idle | U_writing "byte list" "(byte list \<times> u64) list" | U_asking | U_waking

datatype service_pc = S_idle | S_reading lws_api u64 | S_asking

text \<open>
  \<open>request_->wsi\<close>, the open request for a writeable callback, the messages \<open>send\<close> was called with, what
  it returned, and what was done.
\<close>

record conn_threads =
  ct_ring :: ring_threads
  ct_user :: user_pc
  ct_service :: service_pc
  ct_wsi :: "nat option"
  ct_want :: bool
  ct_called :: "byte list list"
  ct_returned :: "bool list"
  ct_effs :: "effect list"

definition conn_threads_new :: "nat \<Rightarrow> byte list \<Rightarrow> u64 \<Rightarrow> conn_threads" where
  "conn_threads_new wsi mem sz = \<lparr>ct_ring = ring_threads_new mem sz, ct_user = U_idle, ct_service = S_idle,
     ct_wsi = Some wsi, ct_want = False, ct_called = [], ct_returned = [], ct_effs = []\<rparr>"

definition user_write ::
  "bool \<Rightarrow> byte list \<Rightarrow> (byte list \<times> u64) list \<Rightarrow> conn_threads \<Rightarrow> conn_threads result"
where
  "user_write ndebug msg ps m = (case ps of
     [] \<Rightarrow> Done (m\<lparr>ct_user := U_asking\<rparr>)
   | (p, remaining) # ps \<Rightarrow>
       result_bind (ring_do ndebug (Start_write p remaining) (ct_ring m))
         (\<lambda>r. Done (m\<lparr>ct_ring := r, ct_user := U_writing msg ps\<rparr>)))"

definition user_step :: "bool \<Rightarrow> conn_threads \<Rightarrow> conn_threads result" where
  "user_step ndebug m = (case ct_user m of
     U_idle \<Rightarrow> Done m
   | U_writing msg ps \<Rightarrow> (case rt_writer (ct_ring m) of
       W_done b \<Rightarrow> if b then user_write ndebug msg ps m
         else Done (m\<lparr>ct_user := U_idle, ct_returned := ct_returned m @ [False]\<rparr>)
     | _ \<Rightarrow> result_bind (ring_do ndebug Writer (ct_ring m)) (\<lambda>r. Done (m\<lparr>ct_ring := r\<rparr>)))
   | U_asking \<Rightarrow> (case ct_wsi m of
       None \<Rightarrow> Out_of_bounds
     | Some wsi \<Rightarrow> Done (m\<lparr>ct_want := True, ct_effs := ct_effs m @ [Want_write wsi], ct_user := U_waking\<rparr>))
   | U_waking \<Rightarrow> Done (m\<lparr>ct_effs := ct_effs m @ [Cancel_service], ct_user := U_idle,
       ct_returned := ct_returned m @ [True]\<rparr>))"

definition send_begin ::
  "bool \<Rightarrow> (byte list \<Rightarrow> (byte list \<times> u64) list) \<Rightarrow> byte list \<Rightarrow> conn_threads \<Rightarrow> conn_threads result"
where
  "send_begin ndebug parts msg m =
     (if ct_user m \<noteq> U_idle then Done m
      else case ct_wsi m of
        None \<Rightarrow> Done (m\<lparr>ct_returned := ct_returned m @ [False]\<rparr>)
      | Some wsi \<Rightarrow> user_write ndebug msg (parts msg) (m\<lparr>ct_called := ct_called m @ [msg]\<rparr>))"

definition service_write ::
  "nat \<Rightarrow> lws_api \<Rightarrow> u64 \<Rightarrow> byte list \<Rightarrow> conn_threads \<Rightarrow> conn_threads"
where
  "service_write pre lws len msg m =
     (let text = drop pre msg; m = m\<lparr>ct_effs := ct_effs m @ [Written text]\<rparr> in
      if size_of_int (la_write lws text) < len then m\<lparr>ct_wsi := None, ct_service := S_idle\<rparr>
      else m\<lparr>ct_service := S_asking\<rparr>)"

definition service_step :: "bool \<Rightarrow> nat \<Rightarrow> nat \<Rightarrow> conn_threads \<Rightarrow> conn_threads result" where
  "service_step ndebug pre wsi m = (case ct_service m of
     S_idle \<Rightarrow> Done m
   | S_reading lws len \<Rightarrow>
       result_bind (ring_do ndebug Reader (ct_ring m)) (\<lambda>r. let n = m\<lparr>ct_ring := r\<rparr> in
         case rt_reader (ct_ring m) of
           R_using off l \<Rightarrow>
             if l = 0 then Done (n\<lparr>ct_service := S_idle\<rparr>)
             else if unat l < pre then Out_of_bounds
             else Done (service_write pre lws len (chunk (rs_buffer (rt_ring (ct_ring m))) (unat off) (unat l)) n)
         | _ \<Rightarrow> Done (if rt_reader r = R_idle then n\<lparr>ct_service := S_idle\<rparr> else n))
   | S_asking \<Rightarrow> Done (m\<lparr>ct_want := True, ct_effs := ct_effs m @ [Want_write wsi], ct_service := S_idle\<rparr>))"

text \<open>
  A call of \<open>send\<close>; a step of the user's thread; the writeable callback, if there is a request for it
  and the thread is not in a callback; a step of the service's thread.
\<close>

datatype conn_event = Call_send "byte list" | User | Dispatch lws_api u64 | Service

fun conn_do ::
  "bool \<Rightarrow> nat \<Rightarrow> (byte list \<Rightarrow> (byte list \<times> u64) list) \<Rightarrow> nat \<Rightarrow> conn_event \<Rightarrow> conn_threads \<Rightarrow> conn_threads result"
where
  "conn_do ndebug pre parts wsi (Call_send msg) m = send_begin ndebug parts msg m"
| "conn_do ndebug pre parts wsi User m = user_step ndebug m"
| "conn_do ndebug pre parts wsi (Dispatch lws len) m =
     Done (case ct_service m of
       S_idle \<Rightarrow> if ct_want m then m\<lparr>ct_want := False, ct_service := S_reading lws len\<rparr> else m
     | _ \<Rightarrow> m)"
| "conn_do ndebug pre parts wsi Service m = service_step ndebug pre wsi m"

fun conn_schedule ::
  "bool \<Rightarrow> nat \<Rightarrow> (byte list \<Rightarrow> (byte list \<times> u64) list) \<Rightarrow> nat \<Rightarrow> conn_event list \<Rightarrow> conn_threads \<Rightarrow>
   conn_threads result"
where
  "conn_schedule ndebug pre parts wsi [] m = Done m"
| "conn_schedule ndebug pre parts wsi (e # es) m =
     result_bind (conn_do ndebug pre parts wsi e m) (conn_schedule ndebug pre parts wsi es)"

lemma conn_schedule_append:
  "conn_schedule ndebug pre parts wsi (as @ bs) m
    = result_bind (conn_schedule ndebug pre parts wsi as m) (conn_schedule ndebug pre parts wsi bs)"
  by (induction as arbitrary: m) (simp_all add: result_bind_assoc cong: result_bind_cong)

text \<open>
  A user calls \<open>send\<close> with a message for which there is room; with \<open>plain\<close>, only where it needs no
  padding. Libwebsockets makes writeable callbacks with \<open>len = 0\<close>.
\<close>

fun conn_ok :: "bool \<Rightarrow> nat \<Rightarrow> conn_event \<Rightarrow> conn_threads \<Rightarrow> bool" where
  "conn_ok plain pre (Call_send msg) m \<longleftrightarrow> (ct_user m = U_idle \<longrightarrow> msg \<noteq> []
     \<and> room_from (in_use (ct_ring m)) (rt_ring (ct_ring m)) (pre + length msg)
     \<and> (plain \<longrightarrow> padding (rt_ring (ct_ring m)) (pre + length msg) = 0))"
| "conn_ok plain pre User m \<longleftrightarrow> True"
| "conn_ok plain pre (Dispatch lws len) m \<longleftrightarrow> len = 0"
| "conn_ok plain pre Service m \<longleftrightarrow> True"

fun conn_schedule_ok ::
  "bool \<Rightarrow> bool \<Rightarrow> nat \<Rightarrow> (byte list \<Rightarrow> (byte list \<times> u64) list) \<Rightarrow> nat \<Rightarrow> conn_event list \<Rightarrow> conn_threads \<Rightarrow> bool"
where
  "conn_schedule_ok plain ndebug pre parts wsi [] m \<longleftrightarrow> True"
| "conn_schedule_ok plain ndebug pre parts wsi (e # es) m \<longleftrightarrow> conn_ok plain pre e m \<and>
     (case conn_do ndebug pre parts wsi e m of
        Done m' \<Rightarrow> conn_schedule_ok plain ndebug pre parts wsi es m' | _ \<Rightarrow> True)"

section \<open>The contract of a \<open>send\<close>\<close>

text \<open>What the two threads rely on: the parts of a message are well formed, and it is found behind \<open>pre\<close> bytes.\<close>

locale send_protocol =
  fixes pre :: nat
    and parts :: "byte list \<Rightarrow> (byte list \<times> u64) list"
  assumes parts_law: "msg \<noteq> [] \<Longrightarrow> pre + length msg < 2 ^ 64 \<Longrightarrow> parts_fit (parts msg)"
    and length_law: "length (joined_parts (parts msg)) = pre + length msg"
    and text_law: "drop pre (joined_parts (parts msg)) = msg"
begin

definition record_of :: "byte list \<Rightarrow> byte list" where
  "record_of msg = joined_parts (parts msg)"

text \<open>
  The user's thread: a part is being written, or was written and the next one follows; outside of
  \<open>write\<close> all messages are published.
\<close>

definition part_running :: "byte list \<Rightarrow> (byte list \<times> u64) list \<Rightarrow> byte list list \<Rightarrow> ring_threads \<Rightarrow> bool" where
  "part_running msg ps old r \<longleftrightarrow> (\<exists>ds p k. parts msg = ds @ (p, k) # ps \<and> call_of (rt_writer r) = Some (p, k)
     \<and> rt_open r = joined_parts ds \<and> rt_sent r = map record_of old)"

definition part_written :: "byte list \<Rightarrow> (byte list \<times> u64) list \<Rightarrow> byte list list \<Rightarrow> ring_threads \<Rightarrow> bool" where
  "part_written msg ps old r \<longleftrightarrow> rt_writer r = W_done True \<and> (\<exists>ds. parts msg = ds @ ps \<and> ds \<noteq> []
     \<and> (if ps = [] then rt_open r = [] \<and> rt_sent r = map record_of (old @ [msg])
        else rt_open r = joined_parts ds \<and> rt_sent r = map record_of old
          \<and> unat (rs_remaining (rt_ring r)) = length (joined_parts ps)))"

fun user_at :: "user_pc \<Rightarrow> byte list list \<Rightarrow> ring_threads \<Rightarrow> bool" where
  "user_at (U_writing msg ps) called r \<longleftrightarrow> (\<exists>old. called = old @ [msg] \<and> msg \<noteq> [] \<and> parts_fit (parts msg)
     \<and> (part_running msg ps old r \<or> part_written msg ps old r))"
| "user_at pc called r \<longleftrightarrow> rt_writer r = W_done True \<and> rt_open r = [] \<and> rt_sent r = map record_of called"

fun service_at :: "service_pc \<Rightarrow> rpc \<Rightarrow> bool" where
  "service_at (S_reading lws len) pc \<longleftrightarrow> len = 0"
| "service_at s pc \<longleftrightarrow> pc = R_idle"

abbreviation user_inv :: "conn_threads \<Rightarrow> bool" where
  "user_inv m \<equiv> user_at (ct_user m) (ct_called m) (ct_ring m)"

definition service_inv :: "nat \<Rightarrow> conn_threads \<Rightarrow> bool" where
  "service_inv wsi m \<longleftrightarrow> ct_wsi m = Some wsi \<and> written (ct_effs m) = map (drop pre) (rt_got (ct_ring m))
     \<and> [] \<notin> set (ct_called m) \<and> False \<notin> set (ct_returned m)
     \<and> service_at (ct_service m) (rt_reader (ct_ring m))"

text \<open>
  While there are records in the ring somebody still asks for a callback: there is a request, or the
  user is going to ask for one, or the service has seen a record.
\<close>

fun user_will_ask :: "user_pc \<Rightarrow> bool" where
  "user_will_ask (U_writing msg ps) \<longleftrightarrow> True"
| "user_will_ask U_asking \<longleftrightarrow> True"
| "user_will_ask pc \<longleftrightarrow> False"

fun service_will_ask :: "service_pc \<Rightarrow> rpc \<Rightarrow> nat \<Rightarrow> bool" where
  "service_will_ask S_idle pc b \<longleftrightarrow> False"
| "service_will_ask S_asking pc b \<longleftrightarrow> True"
| "service_will_ask (S_reading lws len) (R_loaded c) b \<longleftrightarrow> unat c \<noteq> b"
| "service_will_ask (S_reading lws len) pc b \<longleftrightarrow> True"

lemma service_will_ask_reading [simp]:
  "service_will_ask (S_reading lws len) pc b \<longleftrightarrow> (\<forall>c. pc = R_loaded c \<longrightarrow> unat c \<noteq> b)"
  by (cases pc) auto

definition awake :: "conn_threads \<Rightarrow> nat \<Rightarrow> frame list \<Rightarrow> bool" where
  "awake m b fs \<longleftrightarrow> fs = [] \<or> ct_want m \<or> user_will_ask (ct_user m)
     \<or> service_will_ask (ct_service m) (rt_reader (ct_ring m)) b"

definition conn_inv :: "bool \<Rightarrow> nat \<Rightarrow> conn_threads \<Rightarrow> nat \<Rightarrow> frame list \<Rightarrow> bool" where
  "conn_inv plain wsi m b fs \<longleftrightarrow> rt_inv (ct_ring m) b fs \<and> user_inv m \<and> service_inv wsi m
     \<and> (plain \<longrightarrow> plain_writer (rt_writer (ct_ring m)) (rt_ring (ct_ring m)) \<and> only_messages fs \<and> awake m b fs)"

lemma plain_writer_done [simp]: "plain_writer (W_done r) s"
  by (simp add: plain_writer_def)

text \<open>Between messages, and between the parts of one.\<close>

lemma rt_inv_between:
  assumes "rt_inv r b fs" "rt_writer r = W_done True"
  shows "rt_open r = [] \<longleftrightarrow> rs_writing_cursor (rt_ring r) = 0"
  using assms by (auto simp: rt_inv_def ring_partial_def Let_def)

lemma begin_keeps:
  assumes inv: "conn_inv plain wsi m b fs" and ok: "conn_ok plain pre (Call_send msg) m"
  shows "\<exists>m'. send_begin ndebug parts msg m = Done m' \<and> conn_inv plain wsi m' b fs"
proof (cases "ct_user m = U_idle")
  case True
  let ?r = "ct_ring m"
  from inv True have r: "rt_inv ?r b fs" "rt_writer ?r = W_done True" "rt_open ?r = []"
    "rt_sent ?r = map record_of (ct_called m)" and sv: "service_inv wsi m"
    by (simp_all add: conn_inv_def)
  from ok True have msg: "msg \<noteq> []" and room: "room_from (in_use ?r) (rt_ring ?r) (pre + length msg)"
    and pad: "plain \<Longrightarrow> padding (rt_ring ?r) (pre + length msg) = 0" by auto
  have wc: "rs_writing_cursor (rt_ring ?r) = 0" using rt_inv_between[OF r(1,2)] r(3) by simp
  have "pre + length msg < 2 ^ 64" using room by (simp add: room_from_def)
  then have fit: "parts_fit (parts msg)" using parts_law msg by blast
  obtain p k ps where p: "parts msg = (p, k) # ps"
    using length_law[of msg] msg by (cases "parts msg") auto
  with fit length_law[of msg] have pk: "p \<noteq> []" "length p + unat k = pre + length msg" by auto
  then have ok': "event_ok (Start_write p k) ?r" using r(2) wc room by simp
  let ?R = "?r\<lparr>rt_writer := W_start p k\<rparr>"
  note st = start_call(1)[OF r(1) ok' r(2), of ndebug] start_call(2)[OF r(1) ok' r(2)]
  let ?m = "m\<lparr>ct_called := ct_called m @ [msg], ct_ring := ?R, ct_user := U_writing msg ps\<rparr>"
  have "send_begin ndebug parts msg m = Done ?m"
    using True sv st(1) p by (simp add: send_begin_def user_write_def service_inv_def)
  moreover have "user_inv ?m"
    using msg fit p r(3,4) by (auto simp: part_running_def)
  moreover have "service_inv wsi ?m" using sv msg by (auto simp: service_inv_def)
  moreover have "plain_writer (W_start p k) (rt_ring ?r)" if plain
    using pad[OF that] pk(2) by (simp add: plain_writer_def needs_padding_def)
  ultimately show ?thesis using inv st(2)
    by (intro exI[of _ ?m]) (simp add: conn_inv_def awake_def)
next
  case False
  then show ?thesis using inv by (intro exI[of _ m]) (simp add: send_begin_def)
qed

lemma write_on_keeps:
  assumes inv: "conn_inv plain wsi m b fs" and u: "ct_user m = U_writing msg ps"
    and called: "ct_called m = old @ [msg]" "msg \<noteq> []" "parts_fit (parts msg)"
    and w: "part_running msg ps old (ct_ring m)"
  shows "\<exists>m' new. user_step ndebug m = Done m' \<and> conn_inv plain wsi m' b (fs @ new)"
proof -
  let ?r = "ct_ring m"
  from w obtain ds p k where p: "parts msg = ds @ (p, k) # ps" "call_of (rt_writer ?r) = Some (p, k)"
    "rt_open ?r = joined_parts ds" "rt_sent ?r = map record_of old" by (auto simp: part_running_def)
  have fit: "p \<noteq> []" "unat k = length (joined_parts ps)" "parts_fit ps"
    using called(3) parts_fit_append[of ds "(p, k) # ps"] by (simp_all add: p(1))
  have k0: "k = 0 \<longleftrightarrow> ps = []" using fit(2,3) by (cases ps) (auto simp: unat_eq_0)
  from inv have r: "rt_inv ?r b fs" by (simp add: conn_inv_def)
  from writer_call[OF r p(2), of ndebug] obtain R new where R: "ring_do ndebug Writer ?r = Done R"
    "rt_inv R b (fs @ new)" "rt_reader R = rt_reader ?r" "rt_got R = rt_got ?r"
    "plain_writer (rt_writer ?r) (rt_ring ?r) \<longrightarrow> plain_writer (rt_writer R) (rt_ring R) \<and> only_messages new"
    "call_of (rt_writer R) = Some (p, k) \<and> rt_open R = rt_open ?r \<and> rt_sent R = rt_sent ?r
     \<or> rt_writer R = W_done True \<and> (if k = 0 then rt_open R = [] \<and> rt_sent R = rt_sent ?r @ [rt_open ?r @ p]
           else rt_open R = rt_open ?r @ p \<and> rt_sent R = rt_sent ?r \<and> rs_remaining (rt_ring R) = k)"
    by blast
  let ?m = "m\<lparr>ct_ring := R\<rparr>"
  have "user_step ndebug m = Done ?m"
    using u p(2) R(1) by (auto simp: user_step_def split: wpc.splits)
  moreover have "part_running msg ps old R \<or> part_written msg ps old R"
    using R(6)
  proof
    assume "call_of (rt_writer R) = Some (p, k) \<and> rt_open R = rt_open ?r \<and> rt_sent R = rt_sent ?r"
    then show ?thesis using p by (auto simp: part_running_def)
  next
    assume d: "rt_writer R = W_done True \<and> (if k = 0 then rt_open R = [] \<and> rt_sent R = rt_sent ?r @ [rt_open ?r @ p]
           else rt_open R = rt_open ?r @ p \<and> rt_sent R = rt_sent ?r \<and> rs_remaining (rt_ring R) = k)"
    have "parts msg = (ds @ [(p, k)]) @ ps" using p(1) by simp
    then have "part_written msg ps old R" using d p(3,4) fit(2) k0
      unfolding part_written_def
      by (intro conjI exI[of _ "ds @ [(p, k)]"]) (auto simp: record_of_def split: if_splits)
    then show ?thesis ..
  qed
  then have "user_inv ?m" using u called by (auto simp:)
  moreover have "service_inv wsi ?m" using inv R(3,4) by (simp add: conn_inv_def service_inv_def)
  ultimately show ?thesis using inv R(2,5) u
    by (intro exI[of _ ?m] exI[of _ new]) (simp add: conn_inv_def awake_def)
qed

lemma write_next_keeps:
  assumes inv: "conn_inv plain wsi m b fs" and u: "ct_user m = U_writing msg ps"
    and called: "ct_called m = old @ [msg]" "msg \<noteq> []" "parts_fit (parts msg)"
    and w: "part_written msg ps old (ct_ring m)"
  shows "\<exists>m'. user_step ndebug m = Done m' \<and> conn_inv plain wsi m' b fs"
proof (cases ps)
  case Nil
  then show ?thesis using assms
    by (intro exI[of _ "m\<lparr>ct_user := U_asking\<rparr>"])
      (auto simp: user_step_def user_write_def part_written_def conn_inv_def service_inv_def awake_def)
next
  case (Cons q qs)
  let ?r = "ct_ring m"
  obtain p k where q: "q = (p, k)" by (cases q)
  from w Cons obtain ds where w: "rt_writer ?r = W_done True" "parts msg = ds @ (p, k) # qs" "ds \<noteq> []"
    "rt_open ?r = joined_parts ds" "rt_sent ?r = map record_of old"
    "unat (rs_remaining (rt_ring ?r)) = length (joined_parts ((p, k) # qs))"
    by (auto simp: part_written_def q)
  have fit: "p \<noteq> []" "unat k = length (joined_parts qs)"
    using called(3) parts_fit_append[of ds "(p, k) # qs"] by (simp_all add: w(2))
  have "joined_parts ds \<noteq> []" using called(3) parts_fit_joined[of ds "(p, k) # qs"] w(2,3) by simp
  from inv have r: "rt_inv ?r b fs" by (simp add: conn_inv_def)
  have wc: "rs_writing_cursor (rt_ring ?r) \<noteq> 0"
    using rt_inv_between[OF r w(1)] w(4) \<open>joined_parts ds \<noteq> []\<close> by simp
  then have ok: "event_ok (Start_write p k) ?r" using w(1,6) fit by simp
  let ?m = "m\<lparr>ct_ring := ?r\<lparr>rt_writer := W_start p k\<rparr>, ct_user := U_writing msg qs\<rparr>"
  note st = start_call(1)[OF r ok w(1), of ndebug] start_call(2)[OF r ok w(1)]
  have "user_step ndebug m = Done ?m" using u w(1) st(1) Cons q by (simp add: user_step_def user_write_def)
  moreover have "user_inv ?m"
    using called w(2,4,5) by (auto simp: part_running_def)
  moreover have "service_inv wsi ?m" using inv by (simp add: conn_inv_def service_inv_def)
  moreover have "plain_writer (W_start p k) (rt_ring ?r)" using wc by (simp add: plain_writer_def needs_padding_def)
  ultimately show ?thesis using inv st(2)
    by (intro exI[of _ ?m]) (simp add: conn_inv_def awake_def)
qed

lemma user_keeps:
  assumes inv: "conn_inv plain wsi m b fs"
  shows "\<exists>m' new. user_step ndebug m = Done m' \<and> conn_inv plain wsi m' b (fs @ new)"
proof (cases "ct_user m")
  case U_idle
  then show ?thesis using inv by (intro exI[of _ m] exI[of _ "[]"]) (simp add: user_step_def)
next
  case (U_writing msg ps)
  with inv obtain old where o: "ct_called m = old @ [msg]" "msg \<noteq> []" "parts_fit (parts msg)"
    "part_running msg ps old (ct_ring m) \<or> part_written msg ps old (ct_ring m)"
    by (auto simp: conn_inv_def)
  then show ?thesis
    using write_on_keeps[OF inv U_writing o(1-3), of ndebug] write_next_keeps[OF inv U_writing o(1-3), of ndebug]
    by (metis append_Nil2)
next
  case U_asking
  let ?m = "m\<lparr>ct_want := True, ct_effs := ct_effs m @ [Want_write wsi], ct_user := U_waking\<rparr>"
  have "conn_inv plain wsi ?m b (fs @ [])"
    using inv U_asking by (simp add: conn_inv_def service_inv_def awake_def)
  then show ?thesis using inv U_asking
    by (intro exI[of _ ?m] exI[of _ "[]"]) (simp add: user_step_def conn_inv_def service_inv_def)
next
  case U_waking
  let ?m = "m\<lparr>ct_effs := ct_effs m @ [Cancel_service], ct_user := U_idle, ct_returned := ct_returned m @ [True]\<rparr>"
  have "conn_inv plain wsi ?m b (fs @ [])"
    using inv U_waking by (simp add: conn_inv_def service_inv_def awake_def)
  then show ?thesis using U_waking
    by (intro exI[of _ ?m] exI[of _ "[]"]) (simp add: user_step_def)
qed

lemma dispatch_keeps:
  assumes "conn_inv plain wsi m b fs" "ct_want m" "ct_service m = S_idle"
  shows "conn_inv plain wsi (m\<lparr>ct_want := False, ct_service := S_reading lws 0\<rparr>) b fs"
  using assms by (simp add: conn_inv_def service_inv_def awake_def)

text \<open>The service's thread on its own comes nearer to rest, or takes a record out of the ring.\<close>

fun reader_rank :: "rpc \<Rightarrow> nat" where
  "reader_rank R_idle = 6"
| "reader_rank (R_loaded c) = 5"
| "reader_rank (R_flagged flg) = 4"
| "reader_rank (R_sized flg len) = 3"
| "reader_rank _ = 2"

fun service_rank :: "service_pc \<Rightarrow> rpc \<Rightarrow> nat" where
  "service_rank S_idle pc = 0"
| "service_rank S_asking pc = 8"
| "service_rank (S_reading lws len) pc = reader_rank pc"

definition conn_rank :: "conn_threads \<Rightarrow> nat" where
  "conn_rank m = (if ct_want m then 7 else 0) + service_rank (ct_service m) (rt_reader (ct_ring m))"

definition nearer :: "conn_threads \<Rightarrow> frame list \<Rightarrow> conn_threads \<Rightarrow> frame list \<Rightarrow> bool" where
  "nearer m fs m' gs \<longleftrightarrow> ct_user m' = ct_user m \<and> ct_called m' = ct_called m
     \<and> (length gs < length fs \<or> length gs = length fs \<and> conn_rank m' < conn_rank m)"

text \<open>Every record is the record of a message.\<close>

lemma record_length:
  assumes "user_inv m" "[] \<notin> set (ct_called m)" "bs \<in> set (rt_sent (ct_ring m))"
  shows "pre < length bs"
proof -
  have "set (rt_sent (ct_ring m)) \<subseteq> record_of ` set (ct_called m)"
    using assms(1) by (cases "ct_user m") (auto simp: part_running_def part_written_def split: if_splits)
  then obtain msg where "bs = record_of msg" "msg \<in> set (ct_called m)" using assms(3) by auto
  then show ?thesis using assms(2) length_law by (cases msg) (auto simp: record_of_def)
qed

lemma user_at_reader:
  "user_at u called (r\<lparr>rt_reader := pc, rt_ring := (rt_ring r)\<lparr>rs_reading_cursor := x, rs_reading_begin := y\<rparr>,
      rt_got := g\<rparr>) = user_at u called r"
  by (cases u) (simp_all add: part_running_def part_written_def)

lemma plain_writer_reader:
  "plain_writer pc (s\<lparr>rs_reading_cursor := x, rs_reading_begin := y\<rparr>) = plain_writer pc s"
  by (simp add: plain_writer_def needs_padding_def padding_def Let_def split: wpc.split option.split)

lemma reading_keeps:
  assumes inv: "conn_inv plain wsi m b fs" and s: "ct_service m = S_reading lws len"
  shows "\<exists>m' b' gs. service_step ndebug pre wsi m = Done m' \<and> conn_inv plain wsi m' b' gs \<and> nearer m fs m' gs"
proof -
  let ?r = "ct_ring m"
  from inv have r: "rt_inv ?r b fs" and us: "user_inv m" and sv: "service_inv wsi m" by (simp_all add: conn_inv_def)
  from reader_moves[OF r, of ndebug] obtain pc t b' gs got where
    R: "ring_do ndebug Reader ?r = Done (?r\<lparr>rt_reader := pc, rt_ring := t, rt_got := rt_got ?r @ got\<rparr>)"
      "rt_inv (?r\<lparr>rt_reader := pc, rt_ring := t, rt_got := rt_got ?r @ got\<rparr>) b' gs"
      "r_goes_on (rt_reader ?r) b fs pc b' gs got"
    and "\<exists>x y. t = rt_ring ?r\<lparr>rs_reading_cursor := x, rs_reading_begin := y\<rparr>" by blast
  then obtain x y where t: "t = rt_ring ?r\<lparr>rs_reading_cursor := x, rs_reading_begin := y\<rparr>" by blast
  let ?R = "?r\<lparr>rt_reader := pc, rt_ring := t, rt_got := rt_got ?r @ got\<rparr>"
  have us': "user_inv (m\<lparr>ct_ring := ?R\<rparr>)" using us by (simp add: t user_at_reader)
  have pw: "plain \<Longrightarrow> plain_writer (rt_writer ?R) (rt_ring ?R)"
    using inv by (simp add: conn_inv_def t plain_writer_reader)
  show ?thesis
  proof (cases "\<exists>off l. rt_reader ?r = R_using off l")
    case True
    then obtain off l where pc: "rt_reader ?r = R_using off l" by blast
    with R(3) obtain bs where bs: "pc = R_idle" "fs = Msg bs # gs" "got = [bs]" "unat l = length bs"
      by (auto simp: r_goes_on_def)
    have "bs \<in> set (rt_sent ?r)" using r bs(2) by (simp add: rt_inv_def)
    then have len: "pre < length bs" using record_length[OF us] sv by (simp add: service_inv_def)
    then have l: "l \<noteq> 0" "\<not> unat l < pre" using bs(4) by auto
    have ch: "chunk (rs_buffer (rt_ring ?r)) (unat off) (unat l) = bs"
      using R(1) pc bs(3) by (auto simp: result_bind_eq_Done dest: arg_cong[of _ _ rt_got])
    let ?m = "m\<lparr>ct_ring := ?R, ct_effs := ct_effs m @ [Written (drop pre bs)], ct_service := S_asking\<rparr>"
    have "service_step ndebug pre wsi m = Done ?m"
      using s pc R(1) l ch sv by (simp add: service_step_def service_write_def service_inv_def)
    moreover have "user_inv ?m" using us' by simp
    moreover have "service_inv wsi ?m" using sv bs(1,3) by (simp add: service_inv_def)
    ultimately show ?thesis using inv R(2) pw bs(2)
      by (intro exI[of _ ?m] exI[of _ b'] exI[of _ gs]) (simp add: conn_inv_def awake_def nearer_def)
  next
    case False
    let ?m = "m\<lparr>ct_ring := ?R, ct_service := if pc = R_idle then S_idle else S_reading lws len\<rparr>"
    have "got = []" using R(3) False by (auto simp: r_goes_on_def split: rpc.splits)
    have st: "service_step ndebug pre wsi m = Done ?m"
      using s False R(1) by (auto simp: service_step_def Let_def split: rpc.splits)
    have "user_inv ?m" using us' by simp
    moreover have "service_inv wsi ?m" using sv s \<open>got = []\<close> by (simp add: service_inv_def)
    moreover have "only_messages gs \<and> awake ?m b' gs" if plain
    proof -
      have om: "only_messages fs" and aw: "awake m b fs" using inv that by (simp_all add: conn_inv_def)
      have "gs = fs \<and> b' = b \<and> (pc = R_idle \<longrightarrow> (\<exists>c. rt_reader ?r = R_loaded c \<and> unat c = b))
          \<and> (\<forall>c. pc = R_loaded c \<longrightarrow> unat c = b \<longrightarrow> fs = [])"
        using R(3) False om by (auto simp: r_goes_on_def split: rpc.splits if_splits)
      then show ?thesis using om aw s by (auto simp: awake_def split: rpc.splits)
    qed
    moreover have "nearer m fs ?m gs"
      using R(3) False s by (auto simp: nearer_def conn_rank_def r_goes_on_def split: rpc.splits if_splits)
    ultimately show ?thesis using R(2) pw st
      by (intro exI[of _ ?m] exI[of _ b'] exI[of _ gs]) (simp add: conn_inv_def)
  qed
qed

lemma asking_keeps:
  assumes inv: "conn_inv plain wsi m b fs" and s: "ct_service m = S_asking"
  shows "\<exists>m'. service_step ndebug pre wsi m = Done m' \<and> conn_inv plain wsi m' b fs \<and> nearer m fs m' fs"
proof -
  let ?m = "m\<lparr>ct_want := True, ct_effs := ct_effs m @ [Want_write wsi], ct_service := S_idle\<rparr>"
  have "conn_inv plain wsi ?m b fs"
    using inv s by (simp add: conn_inv_def service_inv_def awake_def)
  then show ?thesis using s
    by (intro exI[of _ ?m]) (auto simp: service_step_def nearer_def conn_rank_def)
qed

lemma service_keeps:
  assumes inv: "conn_inv plain wsi m b fs"
  shows "\<exists>m' b' gs. service_step ndebug pre wsi m = Done m' \<and> conn_inv plain wsi m' b' gs"
proof (cases "ct_service m")
  case S_idle
  then show ?thesis using inv by (intro exI[of _ m]) (auto simp: service_step_def)
next
  case (S_reading lws len)
  then show ?thesis using reading_keeps[OF inv] by blast
next
  case S_asking
  then show ?thesis using asking_keeps[OF inv] by blast
qed

lemma conn_keeps:
  assumes inv: "conn_inv plain wsi m b fs" and ok: "conn_ok plain pre e m"
  shows "\<exists>m' b' gs. conn_do ndebug pre parts wsi e m = Done m' \<and> conn_inv plain wsi m' b' gs"
proof (cases e)
  case (Call_send msg)
  then show ?thesis using begin_keeps[OF inv, of msg ndebug] ok by auto
next
  case User
  then show ?thesis using user_keeps[OF inv, of ndebug] by auto
next
  case (Dispatch lws len)
  then show ?thesis using dispatch_keeps[OF inv, of lws] inv ok by (cases "ct_service m") auto
next
  case Service
  then show ?thesis using service_keeps[OF inv, of ndebug] by auto
qed

lemma conn_schedule_keeps:
  "conn_inv plain wsi m b fs \<Longrightarrow> conn_schedule_ok plain ndebug pre parts wsi es m \<Longrightarrow>
   \<exists>m' b' gs. conn_schedule ndebug pre parts wsi es m = Done m' \<and> conn_inv plain wsi m' b' gs"
proof (induction es arbitrary: m b fs)
  case Nil
  then show ?case by auto
next
  case (Cons e es)
  obtain n b' gs where n: "conn_do ndebug pre parts wsi e m = Done n" "conn_inv plain wsi n b' gs"
    using conn_keeps[OF Cons.prems(1), of e ndebug] Cons.prems(2) by auto
  then show ?case using Cons.IH[OF n(2)] Cons.prems(2) by simp
qed

lemma new_conn_inv:
  assumes "is_pow2 sz" "length mem = unat sz" "unat sz \<le> 2 ^ 32"
  shows "conn_inv plain wsi (conn_threads_new wsi mem sz) 0 []"
proof -
  have "rt_inv (ring_threads_new mem sz) 0 []" by (rule new_inv[OF assms])
  then show ?thesis
    by (simp add: conn_inv_def conn_threads_new_def service_inv_def awake_def ring_threads_new_def
        plain_writer_def)
qed

text \<open>What was written is the beginning of what was sent, and all of it when everybody is quiet.\<close>

lemma called_published:
  assumes "user_inv m"
  shows "\<exists>rest. ct_called m = map (drop pre) (rt_sent (ct_ring m)) @ rest \<and> (ct_user m = U_idle \<longrightarrow> rest = [])"
proof -
  have "map (drop pre) (map record_of ms) = ms" for ms
    using text_law by (induction ms) (simp_all add: record_of_def)
  then show ?thesis using assms
    using text_law by (cases "ct_user m") (auto simp: record_of_def part_running_def part_written_def split: if_splits)
qed

lemma written_prefix:
  assumes "conn_inv plain wsi m b fs"
  shows "\<exists>rest. ct_called m = written (ct_effs m) @ rest \<and> False \<notin> set (ct_returned m)
    \<and> (ct_user m = U_idle \<longrightarrow> rest = map (drop pre) (messages fs))"
proof -
  from assms have "rt_sent (ct_ring m) = rt_got (ct_ring m) @ messages fs" "service_inv wsi m" "user_inv m"
    by (simp_all add: conn_inv_def rt_inv_def)
  then show ?thesis using called_published[of m] by (auto simp: service_inv_def)
qed

lemma quiet_written:
  assumes "conn_inv True wsi m b fs" "ct_user m = U_idle" "ct_service m = S_idle" "\<not> ct_want m"
  shows "written (ct_effs m) = ct_called m"
proof -
  have "fs = []" using assms by (simp add: conn_inv_def awake_def)
  then show ?thesis using written_prefix[OF assms(1)] assms(2) by (auto simp: messages_def List.map_filter_def)
qed

text \<open>The service's thread alone comes to rest.\<close>

lemma service_rests:
  assumes "conn_inv plain wsi m b fs"
  shows "\<exists>es m' b' gs. set es \<subseteq> {Dispatch lws 0, Service}
     \<and> conn_schedule ndebug pre parts wsi es m = Done m' \<and> conn_inv plain wsi m' b' gs
     \<and> ct_user m' = ct_user m \<and> ct_called m' = ct_called m \<and> ct_service m' = S_idle \<and> \<not> ct_want m'"
  using assms
proof (induction "(length fs, conn_rank m)" arbitrary: m b fs rule: wf_induct_rule[OF wf_lex_prod[OF wf_less wf_less]])
  case 1
  show ?case
  proof (cases "ct_service m = S_idle \<and> \<not> ct_want m")
    case True
    then show ?thesis using 1(2) by (intro exI[of _ "[]"] exI[of _ m]) auto
  next
    case False
    have "\<exists>e m' b' gs. e \<in> {Dispatch lws 0, Service} \<and> conn_do ndebug pre parts wsi e m = Done m'
      \<and> conn_inv plain wsi m' b' gs \<and> nearer m fs m' gs"
    proof (cases "ct_service m")
      case S_idle
      let ?m = "m\<lparr>ct_want := False, ct_service := S_reading lws 0\<rparr>"
      have w: "ct_want m" using False S_idle by simp
      have "rt_reader (ct_ring m) = R_idle" using 1(2) S_idle by (simp add: conn_inv_def service_inv_def)
      then have "nearer m fs ?m fs" using w S_idle by (simp add: nearer_def conn_rank_def)
      then show ?thesis using dispatch_keeps[OF 1(2) w S_idle, of lws] w S_idle
        by (intro exI[of _ "Dispatch lws 0"] exI[of _ ?m] exI[of _ b] exI[of _ fs]) simp
    next
      case (S_reading l len)
      then show ?thesis using reading_keeps[OF 1(2) S_reading, of ndebug]
        by (intro exI[of _ Service]) simp
    next
      case S_asking
      then show ?thesis using asking_keeps[OF 1(2) S_asking, of ndebug]
        by (intro exI[of _ Service]) auto
    qed
    then obtain e k b' gs where k: "e \<in> {Dispatch lws 0, Service}" "conn_do ndebug pre parts wsi e m = Done k"
      "conn_inv plain wsi k b' gs" "nearer m fs k gs" by blast
    from 1(1)[OF _ k(3)] obtain es m' b'' hs where "set es \<subseteq> {Dispatch lws 0, Service}"
      "conn_schedule ndebug pre parts wsi es k = Done m'" "conn_inv plain wsi m' b'' hs"
      "ct_user m' = ct_user k \<and> ct_called m' = ct_called k \<and> ct_service m' = S_idle \<and> \<not> ct_want m'"
      using k(4) by (auto simp: nearer_def)
    then show ?thesis using k by (intro exI[of _ "e # es"] exI[of _ m']) (auto simp: nearer_def)
  qed
qed

text \<open>The two facts about a connection that is used from its beginning.\<close>

lemma threads_deliver:
  assumes "is_pow2 sz" "length mem = unat sz" "unat sz \<le> 2 ^ 32"
    and "conn_schedule_ok plain ndebug pre parts wsi es (conn_threads_new wsi mem sz)"
  shows "\<exists>m rest. conn_schedule ndebug pre parts wsi es (conn_threads_new wsi mem sz) = Done m
     \<and> ct_called m = written (ct_effs m) @ rest \<and> False \<notin> set (ct_returned m)"
  using conn_schedule_keeps[OF new_conn_inv[OF assms(1-3)] assms(4)] written_prefix by blast

lemma threads_wake:
  assumes "is_pow2 sz" "length mem = unat sz" "unat sz \<le> 2 ^ 32"
    and "conn_schedule_ok True ndebug pre parts wsi es (conn_threads_new wsi mem sz)"
  shows "\<exists>m. conn_schedule ndebug pre parts wsi es (conn_threads_new wsi mem sz) = Done m
     \<and> (ct_user m = U_idle \<longrightarrow>
          (ct_service m = S_idle \<and> \<not> ct_want m \<longrightarrow> written (ct_effs m) = ct_called m)
        \<and> (\<exists>es' m'. set es' \<subseteq> {Dispatch lws 0, Service}
             \<and> conn_schedule ndebug pre parts wsi (es @ es') (conn_threads_new wsi mem sz) = Done m'
             \<and> ct_service m' = S_idle \<and> \<not> ct_want m' \<and> written (ct_effs m') = ct_called m))"
proof -
  obtain m b fs where m: "conn_schedule ndebug pre parts wsi es (conn_threads_new wsi mem sz) = Done m"
    "conn_inv True wsi m b fs" using conn_schedule_keeps[OF new_conn_inv[OF assms(1-3)] assms(4)] by blast
  obtain es' m' b' gs where s: "set es' \<subseteq> {Dispatch lws 0, Service}"
    "conn_schedule ndebug pre parts wsi es' m = Done m'" "conn_inv True wsi m' b' gs"
    "ct_user m' = ct_user m" "ct_called m' = ct_called m" "ct_service m' = S_idle" "\<not> ct_want m'"
    using service_rests[OF m(2), of lws ndebug] by blast
  have "written (ct_effs m') = ct_called m" if "ct_user m = U_idle"
    using quiet_written[OF s(3)] s(4-7) that by simp
  moreover have "conn_schedule ndebug pre parts wsi (es @ es') (conn_threads_new wsi mem sz) = Done m'"
    using m(1) s(2) by (simp add: conn_schedule_append)
  ultimately show ?thesis using m s(1,6,7) quiet_written[OF m(2)] by (intro exI[of _ m]) blast
qed

end

section \<open>The two clients\<close>

interpretation ws_threads: send_protocol "Suc k" "ws_parts (Suc k)" for k
  by unfold_locales (auto simp: ws_parts_def unat_of_nat)

interpretation socket_threads: send_protocol 0 socket_parts
  by unfold_locales (auto simp: socket_parts_def)

section \<open>Properties\<close>

text \<open>
  C6: a websocket connection in use by its two threads: under every interleaving of the steps of \<open>send\<close> with
  the steps of the writeable callback, while a message is only sent when there is room for it, nothing
  leaves the ring or fails an assertion, every \<open>send\<close> returns \<open>true\<close>, and what is handed to \<open>lws_write\<close>
  are the first of the messages sent, each of them whole and without its header.
\<close>

theorem ws_threads_deliver:
  assumes "is_pow2 sz" and "length mem = unat sz" and "unat sz \<le> 2 ^ 32" and "0 < pre"
    and "conn_schedule_ok False ndebug pre (ws_parts pre) wsi es (conn_threads_new wsi mem sz)"
  shows "\<exists>m rest. conn_schedule ndebug pre (ws_parts pre) wsi es (conn_threads_new wsi mem sz) = Done m
     \<and> ct_called m = written (ct_effs m) @ rest \<and> False \<notin> set (ct_returned m)"
proof -
  from \<open>0 < pre\<close> obtain k where k: "pre = Suc k" by (cases pre) auto
  show ?thesis using ws_threads.threads_deliver[OF assms(1-3) assms(5)[unfolded k]] unfolding k .
qed

text \<open>
  C7: no request for a callback is lost between the two threads: while no message needs padding, whenever
  the user is outside of \<open>send\<close>, the service outside of the callback and no request open, everything
  that was sent is written; and whenever the user is outside of \<open>send\<close>, the steps of the service alone
  lead there.
\<close>

theorem ws_threads_wake:
  assumes "is_pow2 sz" and "length mem = unat sz" and "unat sz \<le> 2 ^ 32" and "0 < pre"
    and "conn_schedule_ok True ndebug pre (ws_parts pre) wsi es (conn_threads_new wsi mem sz)"
  shows "\<exists>m. conn_schedule ndebug pre (ws_parts pre) wsi es (conn_threads_new wsi mem sz) = Done m
     \<and> (ct_user m = U_idle \<longrightarrow>
          (ct_service m = S_idle \<and> \<not> ct_want m \<longrightarrow> written (ct_effs m) = ct_called m)
        \<and> (\<exists>es' m'. set es' \<subseteq> {Dispatch lws 0, Service}
             \<and> conn_schedule ndebug pre (ws_parts pre) wsi (es @ es') (conn_threads_new wsi mem sz) = Done m'
             \<and> ct_service m' = S_idle \<and> \<not> ct_want m' \<and> written (ct_effs m') = ct_called m))"
proof -
  from \<open>0 < pre\<close> obtain k where k: "pre = Suc k" by (cases pre) auto
  show ?thesis using ws_threads.threads_wake[OF assms(1-3) assms(5)[unfolded k], of lws] unfolding k .
qed

text \<open>The same for the raw client.\<close>

theorem socket_threads_deliver:
  assumes "is_pow2 sz" and "length mem = unat sz" and "unat sz \<le> 2 ^ 32"
    and "conn_schedule_ok False ndebug 0 socket_parts wsi es (conn_threads_new wsi mem sz)"
  shows "\<exists>m rest. conn_schedule ndebug 0 socket_parts wsi es (conn_threads_new wsi mem sz) = Done m
     \<and> ct_called m = written (ct_effs m) @ rest \<and> False \<notin> set (ct_returned m)"
  by (rule socket_threads.threads_deliver[OF assms])

theorem socket_threads_wake:
  assumes "is_pow2 sz" and "length mem = unat sz" and "unat sz \<le> 2 ^ 32"
    and "conn_schedule_ok True ndebug 0 socket_parts wsi es (conn_threads_new wsi mem sz)"
  shows "\<exists>m. conn_schedule ndebug 0 socket_parts wsi es (conn_threads_new wsi mem sz) = Done m
     \<and> (ct_user m = U_idle \<longrightarrow>
          (ct_service m = S_idle \<and> \<not> ct_want m \<longrightarrow> written (ct_effs m) = ct_called m)
        \<and> (\<exists>es' m'. set es' \<subseteq> {Dispatch lws 0, Service}
             \<and> conn_schedule ndebug 0 socket_parts wsi (es @ es') (conn_threads_new wsi mem sz) = Done m'
             \<and> ct_service m' = S_idle \<and> \<not> ct_want m' \<and> written (ct_effs m') = ct_called m))"
  by (rule socket_threads.threads_wake[OF assms])

text \<open>Two messages; the callback for the first one runs among the steps of the second \<open>send\<close>.\<close>

definition some_conn_schedule :: "conn_event list" where
  "some_conn_schedule = [Call_send [1, 2]] @ replicate 18 User @ [Dispatch lws_ok 0, Call_send [3], Service]
     @ concat (replicate 5 [User, User, Service]) @ replicate 10 User"

lemma some_conn_schedule_ok:
  "conn_schedule_ok True False 16 (ws_parts 16) 3 some_conn_schedule (conn_threads_new 3 (replicate 64 0) 64)"
  "conn_schedule_ok False False 16 (ws_parts 16) 3 some_conn_schedule (conn_threads_new 3 (replicate 64 0) 64)"
  by code_simp+

theorem ws_threads_deliver_witness:
  "\<exists>m rest. conn_schedule False 16 (ws_parts 16) 3 some_conn_schedule (conn_threads_new 3 (replicate 64 0) 64) = Done m
     \<and> ct_called m = written (ct_effs m) @ rest \<and> False \<notin> set (ct_returned m)"
  by (rule ws_threads_deliver[OF _ _ _ _ some_conn_schedule_ok(2)]) (simp_all add: is_pow2_def)

theorem ws_threads_wake_witness:
  "\<exists>m. conn_schedule False 16 (ws_parts 16) 3 some_conn_schedule (conn_threads_new 3 (replicate 64 0) 64) = Done m
     \<and> (ct_user m = U_idle \<longrightarrow>
          (ct_service m = S_idle \<and> \<not> ct_want m \<longrightarrow> written (ct_effs m) = ct_called m)
        \<and> (\<exists>es' m'. set es' \<subseteq> {Dispatch lws_ok 0, Service}
             \<and> conn_schedule False 16 (ws_parts 16) 3 (some_conn_schedule @ es') (conn_threads_new 3 (replicate 64 0) 64) = Done m'
             \<and> ct_service m' = S_idle \<and> \<not> ct_want m' \<and> written (ct_effs m') = ct_called m))"
  by (rule ws_threads_wake[OF _ _ _ _ some_conn_schedule_ok(1)]) (simp_all add: is_pow2_def)

end
