(* ===== verification/Spec2Isabelle.thy ===== *)
theory Spec2Isabelle
  imports Mpsc Client_Lifecycle Cpu_Affinity Echo_Session Global_Threads Pool_Threads Ring_Memory_Order
    Connection_Threads
begin

text \<open>
  Verification library of SlickSocket, a C++ wrapper of libwebsockets with HTTP, websocket and
  raw TCP clients and a raw TCP server. Paths are relative to the repository.

  \<^bold>\<open>The program.\<close> A client (\<open>http_client\<close>, \<open>websocket_client\<close>, \<open>socket_client\<close>) takes a request
  object from the pool of a \<open>socket_service\<close>, fills it in and pushes it into the queue of the
  service. The thread of the service (\<open>serve\<close>) pops it, asks libwebsockets for the connection, and
  lets libwebsockets call \<open>http_callback\<close>, \<open>ws_callback\<close> or \<open>raw_socket_callback\<close> for its events.
  Messages go from \<open>send\<close> on a thread of the user to the callback through a byte ring in the request
  object. What is done is disposed of at the end of each iteration. Services may be shared through
  a registry behind a spin lock. The server (\<open>socket_server\<close>) has a thread and a map from
  connections to byte rings of its own.

  \<^bold>\<open>Theories, bottom up.\<close>
  \<^item> \<open>Slick_Prelude\<close>: the result type (\<open>Done\<close>, \<open>Out_of_bounds\<close> for undefined behaviour,
    \<open>Assert_failed\<close>, \<open>Spinning\<close> for a loop that is still waiting), its monad, spin loops over a
    schedule of what the other threads do, arithmetic of powers of two. \<open>Cpp_Strings\<close>: \<open>find\<close>,
    \<open>substr\<close>, \<open>stoi\<close> of \<open>std::string\<close>.
  \<^item> \<open>Byte_Queue\<close>: the abstract specification of a message buffer, a FIFO queue of records, and the
    locale through which its clients use it. \<open>String_Ring\<close>: \<open>ring_string_buffer\<close> of
    src/ring_buffer.h, line by line. \<open>String_Ring_Fifo\<close>: the ring refines the queue
    (\<open>fifo_inv\<close> relates the two; \<open>room\<close> is the capacity condition). \<open>String_Ring_Limits\<close>: what
    happens outside of that condition. \<open>Ring_Threads\<close>: \<open>write\<close>, \<open>read\<close> and \<open>reset\<close> again, as the
    steps of two threads, one per access to what both see; \<open>Ring_Threads_Fifo\<close>: the machine of one
    writer and one reader, its invariant \<open>rt_inv\<close>, and the queue it implements; \<open>Ring_Memory_Order\<close>: the
    memory orders of those steps, and the happens-before between the threads.
  \<^item> \<open>Ring_Buffer\<close> and \<open>Mpsc\<close>: the request queue \<open>ring_buffer\<close> of src/ring_buffer.h, sequentially
    and as a step relation of many producers and one consumer. \<open>Object_Pool\<close>: \<open>object_pool\<close> of the
    same file, \<open>Pool_Threads\<close>: its atomic steps in any number of threads.
  \<^item> \<open>Url_Parsing\<close>: the address parsing in the constructors of \<open>http_client\<close> and
    \<open>websocket_client\<close>. \<open>Request_Info\<close>: the data of include/slicksocket/http_client.h and of
    src/socket_service.h, and the boundary to libwebsockets (\<open>lws_api\<close>, \<open>reason\<close>) and to the user
    (\<open>effect\<close>).
  \<^item> \<open>Http_Callback\<close> (src/http_client.cpp), \<open>Websocket_Callback\<close> and \<open>Websocket_Session\<close>
    (src/websocket_client.cpp), \<open>Socket_Callback\<close> (src/socket_client.cpp), \<open>Socket_Server\<close>
    (src/socket_server.cpp, include/slicksocket/socket_server.h): the callbacks, one definition per
    case of their \<open>switch\<close>, and \<open>send\<close>. \<open>Message_Channel\<close>: the contract that the three message
    connections share; each of the three interprets it on its own callback.
    \<open>Connection_Life\<close>: the interfaces of include/slicksocket/callback.h, and the locale that extends the
    contract to the whole life of a connection, interpreted in the same three theories.
    \<open>Writeable_Requests\<close>: the same connections when a writeable callback is only made when it was asked
    for. \<open>Connection_Threads\<close>: \<open>send\<close> and the writeable callback as two threads, on the steps of
    \<open>Ring_Threads\<close>; the locale \<open>send_protocol\<close> is what the proofs need of the calls of \<open>write\<close> in one
    \<open>send\<close>, and is interpreted for both clients.
  \<^item> \<open>Socket_Service\<close> and \<open>Service_Facts\<close> (src/socket_service.h, src/socket_service.cpp): the
    service with its memory of request objects, the iteration of its thread, the invariant
    \<open>service_inv\<close> and the specification of an iteration. \<open>Global_Services\<close>: the registry and the
    spin lock. \<open>Global_Threads\<close>: \<open>global\<close> step by step in any number of threads, and the destruction of
    a service while its thread runs.
  \<^item> \<open>Http_Client\<close>, \<open>Socket_Clients\<close>, \<open>Client_Lifecycle\<close>: the client classes on top of the service,
    and what they do over several iterations. \<open>Service_Loop\<close>: the loop of the service over a queue of
    asynchronous requests. \<open>Cpu_Affinity\<close>: \<open>set_cpu_affinity\<close> of src/utils.h, and \<open>serve\<close> as a whole.
    \<open>Echo_Session\<close>: a raw client and a raw server
    with TCP between them and the user's callbacks of tests/http_client_tests.cpp.

  \<^bold>\<open>Correspondence.\<close> A class is a record with the fields of the class, a method a function of the
  same name from the state before to the result and the state after; where names of classes
  coincide they are prefixed (\<open>ws_connect\<close>, \<open>socket_connect\<close>). Integers have their width
  (\<open>u64\<close>, \<open>u32\<close>, \<open>16 word\<close>) and wrap around. A pointer to a request object is a name of type \<open>obj\<close> that
  is looked up in the memory of the service, so a use after the release of a heap object, or after the
  deletion of the service, is \<open>Out_of_bounds\<close>, as is a call through a null pointer. Connections and
  user callback objects are numbers. An exception of the C++ library is a left value. \<open>assert\<close> depends
  on \<open>ndebug\<close>.

  \<^bold>\<open>What is shown.\<close>
  \<^item> Buffers: the byte ring is a FIFO queue for all sequences of calls within its capacity and never
    waits there; one writer and one reader that interleave step by step see the same queue, and the
    reader alone empties it; the request queue delivers every request once and in order under any
    interleaving; the pool hands out no object twice, whatever two threads in \<open>get_obj\<close> do.
  \<^item> Connections: messages are handed to \<open>lws_write\<close> whole, once and in order for the two clients
    and the server; over the whole life of a connection a user is called with its opening, the data
    in order and its end, and with nothing else. Between the two threads of a connection, step by step,
    no message and no request for a callback is lost, except behind padding, where the code asks for
    none. An HTTP event never
    leads to undefined behaviour, and a response is assembled from its chunks.
  \<^item> Service: the memory, the pool and the queue stay consistent in all reachable states; an
    iteration disposes of exactly the finished requests; the loop answers every queued asynchronous
    request once and in order, and releases all it used.
  \<^item> Composition: a synchronous HTTP request returns the response that libwebsockets delivered; a
    raw and a websocket client connect, are served and have their messages written; \<open>stop\<close>; what travels
    between a raw client and an echoing server, and that the test of the two passes.
  \<^item> Errors: over-long messages, messages behind padding, resets between two parts of a message, full
    queues, the data race of every \<open>read\<close>, the uses of request objects after their release and of a shared service after its destruction, addresses that are parsed wrongly. These theorems state
    what the code does, where it is not what it means to do.

  \<^bold>\<open>Bounds.\<close> The sizes of pool and queue are arguments (powers of two; \<open>QUEUE_SIZE\<close> = 65536 in the
  code), the rings of the connections have 8192 bytes, \<open>LWS_PRE\<close> is the argument \<open>pre\<close>. No fuel is used:
  a waiting loop runs over a schedule that lists what the other threads do at each round and is
  \<open>Spinning\<close> when the schedule ends first; the theorems either hold for every schedule (the loop does
  not wait) or give one that suffices. A session of writeable events ends with \<open>n\<close> further events, for
  every \<open>n\<close> that is large enough.

  \<^bold>\<open>Not modelled.\<close> Libwebsockets: what it answers and which callbacks it makes are arguments. The user's
  callback interfaces (include/slicksocket/callback.h) have no code; their methods are the
  constructors of \<open>client_call\<close> and \<open>server_call\<close>. Logging. The machines of threads are sequentially
  consistent; \<open>Ring_Memory_Order\<close> shows where the code's memory orders do not justify that for the ring.
  In \<open>Ring_Threads\<close> the copy of a message, the accesses of four bytes and the stores of \<open>reset\<close> behind its
  waiting loop are one step each, and there is one writer, as the code has it. Except in
  \<open>Connection_Threads\<close>, the theorems about connections take the calls on their byte ring as atomic, but for
  the loops that wait for another thread and for the two writes of one websocket \<open>send\<close>.
  \<open>Connection_Threads\<close> begins behind the establishment and ends before \<open>stop\<close> or the end of the connection.
\<close>

end
